(* ===== verification/Kernel_Prelude.thy ===== *)
theory Kernel_Prelude
  imports Main "HOL-Library.Word"
begin

text \<open>
  The prelude of the kernel development: the machine integer types of the C sources, the
  byte-addressed memory that the kernel dereferences its pointers in, little-endian 32-bit
  loads and stores with their round-trip and separation laws, the page arithmetic that
  \<^verbatim>\<open>pmm.c\<close>, \<^verbatim>\<open>paging.c\<close>, \<^verbatim>\<open>kheap.c\<close> and \<^verbatim>\<open>vmm.c\<close> share, and the generic list lemmas
  of the loops.
\<close>

unbundle bit_operations_syntax

section \<open>Types\<close>

type_synonym u8 = "8 word"
type_synonym u16 = "16 word"
type_synonym u32 = "32 word"
type_synonym u64 = "64 word"
type_synonym memory = "u32 \<Rightarrow> u8"

named_theorems kernel_frame \<open>what an operation leaves unchanged\<close>
named_theorems page_arith \<open>page arithmetic read as arithmetic on natural numbers\<close>

section \<open>Byte memory with 32-bit words\<close>

definition load32 :: "memory \<Rightarrow> u32 \<Rightarrow> u32" where
  "load32 m a = ucast (m a) OR push_bit 8 (ucast (m (a + 1)))
     OR push_bit 16 (ucast (m (a + 2))) OR push_bit 24 (ucast (m (a + 3)))"

definition store32 :: "memory \<Rightarrow> u32 \<Rightarrow> u32 \<Rightarrow> memory" where
  "store32 m a v = m(a := ucast v, a + 1 := ucast (drop_bit 8 v),
     a + 2 := ucast (drop_bit 16 v), a + 3 := ucast (drop_bit 24 v))"

text \<open>The bytes \<open>a\<close>, \dots, \<open>a + n - 1\<close>, with addresses taken modulo the address space.\<close>

definition in_range :: "u32 \<Rightarrow> nat \<Rightarrow> u32 \<Rightarrow> bool" where
  "in_range a n x \<longleftrightarrow> unat (x - a) < n"

definition sep4 :: "u32 \<Rightarrow> u32 \<Rightarrow> bool" where
  "sep4 a b \<longleftrightarrow> 4 \<le> unat (b - a) \<and> 4 \<le> unat (a - b)"

text \<open>\<^verbatim>\<open>for (i = 0; i < n; i++) p[i] = 0;\<close> over bytes, and over 32-bit entries with a value.\<close>

fun zero_bytes :: "memory \<Rightarrow> u32 \<Rightarrow> nat \<Rightarrow> memory" where
  "zero_bytes m a 0 = m"
| "zero_bytes m a (Suc n) = zero_bytes (m(a := 0)) (a + 1) n"

fun fill32 :: "memory \<Rightarrow> u32 \<Rightarrow> nat \<Rightarrow> u32 \<Rightarrow> memory" where
  "fill32 m a 0 v = m"
| "fill32 m a (Suc n) v = fill32 (store32 m a v) (a + 4) n v"

section \<open>Page arithmetic\<close>

abbreviation PAGE_SIZE :: u32 where "PAGE_SIZE \<equiv> 4096"

text \<open>\<^verbatim>\<open>(x + PAGE_SIZE - 1) & ~(PAGE_SIZE - 1)\<close>\<close>

definition page_align_up :: "u32 \<Rightarrow> u32" where
  "page_align_up x = (x + PAGE_SIZE - 1) AND NOT (PAGE_SIZE - 1)"

section \<open>Lemmas on words\<close>

lemma byte_join:
  "(ucast (ucast (v :: u32) :: u8) :: u32) OR push_bit 8 (ucast (ucast (drop_bit 8 v) :: u8))
     OR push_bit 16 (ucast (ucast (drop_bit 16 v) :: u8))
     OR push_bit 24 (ucast (ucast (drop_bit 24 v) :: u8)) = v"
proof (rule bit_word_eqI)
  fix n assume "n < LENGTH(32)"
  then show "bit ((ucast (ucast v :: u8) :: u32) OR push_bit 8 (ucast (ucast (drop_bit 8 v) :: u8))
     OR push_bit 16 (ucast (ucast (drop_bit 16 v) :: u8))
     OR push_bit 24 (ucast (ucast (drop_bit 24 v) :: u8))) n = bit v n"
    by (cases "n < 8"; cases "n < 16"; cases "n < 24") (auto simp add: bit_simps)
qed

text \<open>Addition, subtraction and comparison of 32-bit values read through \<open>unat\<close>.\<close>

lemma u32_bound: "unat (a :: u32) < 4294967296"
  using unsigned_less [of a, where ?'a = nat] by simp

lemma u32_add: "unat (a + b :: u32) =
    (if unat a + unat b < 4294967296 then unat a + unat b else unat a + unat b - 4294967296)"
  by (simp add: unat_plus_if_size word_size)

lemma u32_sub: "unat (a - b :: u32) =
    (if unat b \<le> unat a then unat a - unat b else unat a + 4294967296 - unat b)"
  by (simp add: unat_sub_if_size word_size)

lemma u32_eq_iff: "(a :: u32) = b \<longleftrightarrow> unat a = unat b"
  by (rule word_unat_eq_iff)

lemma u32_le_iff: "(a :: u32) \<le> b \<longleftrightarrow> unat a \<le> unat b"
  by (rule word_le_nat_alt)

lemma u32_less_iff: "(a :: u32) < b \<longleftrightarrow> unat a < unat b"
  by (rule word_less_nat_alt)

lemma u32_of_nat: "n < 4294967296 \<Longrightarrow> unat (of_nat n :: u32) = n"
  by (simp add: unat_of_nat)

lemmas u32_order = u32_eq_iff u32_le_iff u32_less_iff

section \<open>Laws of the memory\<close>

lemma load32_store32_same [simp]: "load32 (store32 m a v) a = v"
proof -
  have "a + 1 \<noteq> a" "a + 2 \<noteq> a" "a + 3 \<noteq> a" "a + 2 \<noteq> a + 1" "a + 3 \<noteq> a + 1" "a + 3 \<noteq> a + 2"
    by simp_all
  then show ?thesis
    using byte_join [of v] by (simp add: load32_def store32_def)
qed

lemma store32_byte_other: "\<not> in_range a 4 x \<Longrightarrow> store32 m a v x = m x"
  by (auto simp: store32_def in_range_def)

lemma sep4_sym: "sep4 a b \<longleftrightarrow> sep4 b a"
  by (auto simp: sep4_def)

lemma sep4_bytes:
  assumes "sep4 a b" and "k < 4"
  shows "\<not> in_range a 4 (b + of_nat k)"
  using assms u32_bound [of a] u32_bound [of b]
  by (auto simp: sep4_def in_range_def u32_sub u32_add u32_of_nat split: if_splits)

lemma load32_cong:
  assumes "\<And>k. k < 4 \<Longrightarrow> m (a + of_nat k) = m' (a + of_nat k)"
  shows "load32 m a = load32 m' a"
  using assms [of 0] assms [of 1] assms [of 2] assms [of 3] by (simp add: load32_def)

lemma load32_store32_sep: "sep4 a b \<Longrightarrow> load32 (store32 m a v) b = load32 m b"
  by (rule load32_cong) (simp add: store32_byte_other sep4_bytes)

lemma sep4I: "unat a + 4 \<le> unat b \<or> unat b + 4 \<le> unat a \<Longrightarrow>
    unat a + 4 \<le> 4294967296 \<Longrightarrow> unat b + 4 \<le> 4294967296 \<Longrightarrow> sep4 a b"
  by (auto simp: sep4_def u32_sub)

lemma in_range_iff:
  "unat a + n \<le> 4294967296 \<Longrightarrow> in_range a n x \<longleftrightarrow> unat a \<le> unat x \<and> unat x < unat a + n"
  using u32_bound [of x] by (auto simp: in_range_def u32_sub split: if_splits)

lemma in_range_step: "in_range (a + 1) n x \<Longrightarrow> in_range a (Suc n) x"
  using u32_bound [of x] u32_bound [of a]
  by (auto simp: in_range_def u32_sub u32_add split: if_splits)

lemma zero_bytes_out: "\<not> in_range a n x \<Longrightarrow> zero_bytes m a n x = m x"
proof (induction n arbitrary: m a)
  case (Suc n)
  from Suc.prems have "x \<noteq> a" by (auto simp: in_range_def)
  moreover from Suc.prems have "\<not> in_range (a + 1) n x" using in_range_step by blast
  ultimately show ?case using Suc.IH by simp
qed simp

lemma in_range_split:
  "in_range a (Suc n) x \<Longrightarrow> x = a \<or> in_range (a + 1) n x"
  using u32_bound [of x] u32_bound [of a]
  by (auto simp: in_range_def u32_sub u32_add u32_eq_iff split: if_splits)

lemma zero_bytes_in: "n \<le> 4294967295 \<Longrightarrow> in_range a n x \<Longrightarrow> zero_bytes m a n x = 0"
proof (induction n arbitrary: m a)
  case (Suc n)
  show ?case
  proof (cases "x = a")
    case True
    have m1: "(- 1 :: u32) = 4294967295" by simp
    have "\<not> in_range (a + 1) n a" using Suc.prems(1) by (simp add: in_range_def m1)
    with True show ?thesis by (simp add: zero_bytes_out)
  next
    case False
    with Suc.prems(2) have "in_range (a + 1) n x" using in_range_split by blast
    with Suc show ?thesis by simp
  qed
qed (simp add: in_range_def)

lemma fill32_out: "\<not> in_range a (4 * n) x \<Longrightarrow> fill32 m a n v x = m x"
proof (induction m a n v rule: fill32.induct)
  case (2 m a n v)
  have "\<not> in_range a 4 x" using "2.prems" by (auto simp: in_range_def)
  moreover have "\<not> in_range (a + 4) (4 * n) x"
    using "2.prems" u32_bound [of x] u32_bound [of a]
    by (auto simp: in_range_def u32_sub u32_add split: if_splits)
  ultimately show ?case using "2.IH" by (simp add: store32_byte_other)
qed simp

lemma load32_fill32_out:
  "(\<And>k. k < 4 \<Longrightarrow> \<not> in_range a (4 * n) (b + of_nat k)) \<Longrightarrow> load32 (fill32 m a n v) b = load32 m b"
  by (rule load32_cong) (simp add: fill32_out)

lemma load32_fill32_in:
  "unat a + 4 * n \<le> 4294967296 \<Longrightarrow> i < n \<Longrightarrow>
   load32 (fill32 m a n v) (a + of_nat (4 * i)) = v"
proof (induction m a n v arbitrary: i rule: fill32.induct)
  case (2 m a n v)
  show ?case
  proof (cases "n = 0")
    case True with "2.prems" show ?thesis by simp
  next
    case False
    have a4: "unat (a + 4) = unat a + 4" using "2.prems" False by (simp add: u32_add)
    show ?thesis
    proof (cases i)
      case 0
      have "load32 (fill32 (store32 m a v) (a + 4) n v) a = load32 (store32 m a v) a"
        using "2.prems" False a4
        by (intro load32_fill32_out) (auto simp: in_range_iff u32_add u32_of_nat)
      with 0 show ?thesis by simp
    next
      case (Suc j)
      have "a + of_nat (4 * i) = (a + 4) + of_nat (4 * j)" using Suc by simp
      moreover have "load32 (fill32 (store32 m a v) (a + 4) n v) ((a + 4) + of_nat (4 * j)) = v"
        using "2.prems" Suc a4 by (intro "2.IH") auto
      ultimately show ?thesis by (simp add: add.assoc del: of_nat_mult)
    qed
  qed
qed simp

section \<open>Laws of the page arithmetic\<close>

lemma and_4095: "(x :: u32) AND 4095 = take_bit 12 x"
  by (simp add: take_bit_eq_mask mask_eq_exp_minus_1)

lemma and_page_mask: "(x :: u32) AND 4294963200 = push_bit 12 (drop_bit 12 x)"
proof -
  have "(4294963200 :: u32) = NOT (mask 12)" by (simp add: mask_eq_exp_minus_1)
  moreover have "x AND NOT (mask 12) = push_bit 12 (drop_bit 12 x)"
    by (rule bit_word_eqI) (auto simp: bit_simps)
  ultimately show ?thesis by simp
qed

lemma unat_and_4095 [page_arith]: "unat ((x :: u32) AND 4095) = unat x mod 4096"
  by (simp add: and_4095 take_bit_eq_mod unat_mod_distrib)

lemma unat_and_15 [page_arith]: "unat ((x :: u32) AND 15) = unat x mod 16"
proof -
  have "x AND 15 = take_bit 4 x" by (simp add: take_bit_eq_mask mask_eq_exp_minus_1)
  then show ?thesis by (simp add: take_bit_eq_mod unat_mod_distrib)
qed

lemma unat_and_1023 [page_arith]: "unat ((x :: u32) AND 1023) = unat x mod 1024"
proof -
  have "x AND 1023 = take_bit 10 x" by (simp add: take_bit_eq_mask mask_eq_exp_minus_1)
  then show ?thesis by (simp add: take_bit_eq_mod unat_mod_distrib)
qed

lemma unat_page_base [page_arith]: "unat ((x :: u32) AND 4294963200) = unat x div 4096 * 4096"
proof -
  have "unat x div 4096 * 4096 < 4294967296" using u32_bound [of x] by linarith
  then show ?thesis
    by (simp add: and_page_mask push_bit_eq_mult drop_bit_eq_div unat_mult_lem [THEN iffD1]
        unat_div_distrib)
qed

lemma unat_drop12 [page_arith]: "unat (drop_bit 12 (x :: u32)) = unat x div 4096"
  by (simp add: drop_bit_eq_div unat_div_distrib)

lemma unat_drop22 [page_arith]: "unat (drop_bit 22 (x :: u32)) = unat x div 4194304"
  by (simp add: drop_bit_eq_div unat_div_distrib)

lemma page_align_up_eq: "page_align_up x = (x + 4095) AND 4294963200"
proof -
  have "NOT (4096 - 1 :: u32) = 4294963200" by simp
  moreover have "x + 4096 - 1 = x + (4095 :: u32)" by simp
  ultimately show ?thesis unfolding page_align_up_def by (simp only:)
qed

lemma unat_page_align_up [page_arith]:
  assumes "unat x + 4095 < 4294967296"
  shows "unat (page_align_up x) = (unat x + 4095) div 4096 * 4096"
proof -
  have "page_align_up x = (x + 4095) AND 4294963200" by (rule page_align_up_eq)
  then show ?thesis using assms by (simp add: unat_page_base u32_add)
qed

lemma page_align_up_aligned: "unat (page_align_up x) mod 4096 = 0"
proof -
  have "page_align_up x = (x + 4095) AND 4294963200" by (rule page_align_up_eq)
  then show ?thesis by (simp add: unat_page_base)
qed

section \<open>Bit masks\<close>

text \<open>The masks of the sources as \<open>mask\<close>, so that \<open>bit_simps\<close> decides them bit by bit.\<close>

lemma mask_u32:
  "(0xF :: u32) = mask 4" "(0xFF :: u32) = mask 8" "(0xFFF :: u32) = mask 12"
  "(0xFFFF :: u32) = mask 16" "(0xFFFFF :: u32) = mask 20" "(0xFFFFF000 :: u32) = NOT (mask 12)"
  by (simp_all add: mask_eq_exp_minus_1)

lemma mask_u8: "(0xF :: u8) = mask 4" "(0x1F :: u8) = mask 5" "(0xF0 :: u8) = NOT (mask 4)"
  by (simp_all add: mask_eq_exp_minus_1)

section \<open>Lemmas on loops\<close>

text \<open>A doubly nested loop over rows and columns runs through the cells in order.\<close>

lemma fold_grid:
  "fold (\<lambda>y. fold (\<lambda>x. f (y * w + x)) [0..<w]) [0..<h] s = fold f [0..<h * w] s"
proof (induction h)
  case (Suc h)
  have "[h * w..<w + h * w] = map (\<lambda>i. i + h * w) [0..<w]"
    by (simp add: map_add_upt)
  then have "fold (\<lambda>x. f (h * w + x)) [0..<w] = fold f [h * w..<w + h * w]"
    by (simp add: fold_map comp_def add.commute)
  moreover have "[0..<Suc h * w] = [0..<h * w] @ [h * w..<w + h * w]"
    using upt_add_eq_append [of 0 "h * w" w] by (simp add: add.commute)
  ultimately show ?case using Suc by simp
qed simp

lemma fold_list_update:
  "k + n \<le> length xs \<Longrightarrow>
   fold (\<lambda>x ys. ys[k + x := f x]) [0..<n] xs = take k xs @ map f [0..<n] @ drop (k + n) xs"
proof (induction n)
  case (Suc n)
  have "drop (k + n) xs = xs ! (k + n) # drop (Suc (k + n)) xs"
    using Suc.prems by (simp add: Cons_nth_drop_Suc)
  then show ?case using Suc by (simp add: list_update_append)
qed simp

lemma fold_invariant_set:
  "P s \<Longrightarrow> (\<And>x s. x \<in> set xs \<Longrightarrow> P s \<Longrightarrow> P (f x s)) \<Longrightarrow> P (fold f xs s)"
  by (induction xs arbitrary: s) auto

end
