(* ===== verification/Hardware.thy ===== *)
theory Hardware
  imports Kernel_Prelude
begin

text \<open>
  The machine the kernel runs on, as far as the C code touches it: the I/O ports of
  \<^verbatim>\<open>ports.h\<close>, the privileged instructions of the inline assembly (as a trace of events,
  newest first), and the registers that \<^verbatim>\<open>context_switch.asm\<close> saves and restores. What a
  device answers is not under the kernel's control: \<open>port_in p n\<close> is the byte the \<open>n\<close>-th
  read of port \<open>p\<close> returns, an arbitrary function.

  Every component of the kernel adds its own variables to this record by record extension,
  so that an operation of a lower component applies to the state of a higher one. A C
  access that is out of bounds, a null dereference, a write to a page that was to be mapped
  and is not, a write through the window at 0xC0000000 that reaches another frame, a missing variadic argument, a division by zero, a signed overflow and a loop
  that does not end are recorded in \<open>faults\<close>: an execution is meaningful as long as that list
  does not grow.
\<close>

section \<open>State\<close>

datatype fault =
    Out_Of_Bounds | Null_Deref | Page_Fault | Wrong_Frame | Div_By_Zero | Signed_Overflow | Bad_Vararg | Diverges

datatype hw_event =
    Outb u16 u8
  | Inb u16 u8
  | Invlpg u32
  | Load_CR3 u32
  | Lgdt u32
  | Lidt u16 u32
  | Cli
  | Sti
  | Hlt

record cpu_regs =
  reg_esp :: u32
  reg_ebp :: u32
  reg_ebx :: u32
  reg_esi :: u32
  reg_edi :: u32
  reg_eip :: u32
  reg_cr2 :: u32
  reg_cr3 :: u32

text \<open>The addresses the linker gives to the symbols whose address the C code takes, and the return
  addresses of two calls: the call of \<^verbatim>\<open>context_switch\<close> in \<^verbatim>\<open>schedule\<close> and the call of the thread's
  function in \<^verbatim>\<open>kthread_trampoline\<close>.\<close>

record link_symbols =
  kernel_end_sym :: u32
  gdt_sym :: u32
  gp_sym :: u32
  idt_sym :: u32
  isr_sym :: "nat \<Rightarrow> u32"
  irq_sym :: "nat \<Rightarrow> u32"
  page_directory_sym :: u32
  page_tables_sym :: u32
  kernel_space_sym :: u32
  kthread_trampoline_sym :: u32
  schedule_resume_sym :: u32
  trampoline_resume_sym :: u32
  thread_a_sym :: u32
  thread_b_sym :: u32

record hw_state =
  hw_trace :: "hw_event list"
  port_in :: "u16 \<Rightarrow> nat \<Rightarrow> u8"
  port_reads :: "u16 \<Rightarrow> nat"
  faults :: "fault list"
  cpu :: cpu_regs
  sym :: link_symbols

section \<open>Operations\<close>

definition add_fault :: "fault \<Rightarrow> 'a hw_state_scheme \<Rightarrow> 'a hw_state_scheme" where
  "add_fault f s = s\<lparr>faults := f # faults s\<rparr>"

definition hw_emit :: "hw_event \<Rightarrow> 'a hw_state_scheme \<Rightarrow> 'a hw_state_scheme" where
  "hw_emit e s = s\<lparr>hw_trace := e # hw_trace s\<rparr>"

definition outb :: "u16 \<Rightarrow> u8 \<Rightarrow> 'a hw_state_scheme \<Rightarrow> 'a hw_state_scheme" where
  "outb port val s = hw_emit (Outb port val) s"

definition inb :: "u16 \<Rightarrow> 'a hw_state_scheme \<Rightarrow> u8 \<times> 'a hw_state_scheme" where
  "inb port s =
     (let v = port_in s port (port_reads s port)
      in (v, hw_emit (Inb port v)
               (s\<lparr>port_reads := (port_reads s)(port := Suc (port_reads s port))\<rparr>)))"

definition io_wait :: "'a hw_state_scheme \<Rightarrow> 'a hw_state_scheme" where
  "io_wait s = outb 0x80 0 s"

text \<open>The processor at power-on, for concrete runs.\<close>

definition cpu_reset :: cpu_regs where
  "cpu_reset = \<lparr>reg_esp = 0, reg_ebp = 0, reg_ebx = 0, reg_esi = 0, reg_edi = 0, reg_eip = 0,
     reg_cr2 = 0, reg_cr3 = 0\<rparr>"

text \<open>A layout like the one \<^verbatim>\<open>linker.ld\<close> produces: the kernel image between 0xC0100000 and
  0xC0120000, its tables page-aligned inside it.\<close>

definition sample_symbols :: link_symbols where
  "sample_symbols = \<lparr>kernel_end_sym = 0xC011E8A4, gdt_sym = 0xC0112000, gp_sym = 0xC0112020,
     idt_sym = 0xC0112040, isr_sym = (\<lambda>n. 0xC0100000 + 16 * of_nat n),
     irq_sym = (\<lambda>n. 0xC0100200 + 16 * of_nat n),
     page_directory_sym = 0xC0115000, page_tables_sym = 0xC0116000,
     kernel_space_sym = 0xC011A000, kthread_trampoline_sym = 0xC0100400,
     schedule_resume_sym = 0xC0103210, trampoline_resume_sym = 0xC0100403,
     thread_a_sym = 0xC0101000, thread_b_sym = 0xC0101100\<rparr>"

section \<open>Lemmas\<close>

lemmas hw_defs = add_fault_def hw_emit_def outb_def inb_def io_wait_def

lemma hw_trace_outb [simp]: "hw_trace (outb p v s) = Outb p v # hw_trace s"
  by (simp add: hw_defs)

lemma faults_outb [simp]: "faults (outb p v s) = faults s"
  by (simp add: hw_defs)

lemma faults_hw_emit [simp]: "faults (hw_emit e s) = faults s"
  by (simp add: hw_defs)

lemma faults_add_fault [simp]: "faults (add_fault f s) = f # faults s"
  by (simp add: hw_defs)

end
