(* ===== verification/Terminal.thy ===== *)
theory Terminal
  imports Hardware
begin

text \<open>
  The VGA text terminal of \<^verbatim>\<open>kernel.c\<close> and \<^verbatim>\<open>terminal.h\<close>: cursor, colour and the 80 x 25
  cells of the text buffer at 0xC00B8000, kept as a list of its own because it is device
  memory that nothing else in the kernel points into. An access beyond the 2000 cells is a
  fault. Lemmas: the cursor stays on the screen and the buffer keeps its size under every
  operation, no operation runs out of the buffer, scrolling is a shift by one row, and
  terminal output touches nothing but the terminal and the cursor ports.
\<close>

section \<open>Data\<close>

datatype vga_color =
    VGA_COLOR_BLACK | VGA_COLOR_BLUE | VGA_COLOR_GREEN | VGA_COLOR_CYAN | VGA_COLOR_RED
  | VGA_COLOR_MAGENTA | VGA_COLOR_BROWN | VGA_COLOR_LIGHT_GREY | VGA_COLOR_DARK_GREY
  | VGA_COLOR_LIGHT_BLUE | VGA_COLOR_LIGHT_GREEN | VGA_COLOR_LIGHT_CYAN | VGA_COLOR_LIGHT_RED
  | VGA_COLOR_LIGHT_MAGENTA | VGA_COLOR_LIGHT_BROWN | VGA_COLOR_WHITE

fun vga_color_value :: "vga_color \<Rightarrow> u8" where
  "vga_color_value VGA_COLOR_BLACK = 0"
| "vga_color_value VGA_COLOR_BLUE = 1"
| "vga_color_value VGA_COLOR_GREEN = 2"
| "vga_color_value VGA_COLOR_CYAN = 3"
| "vga_color_value VGA_COLOR_RED = 4"
| "vga_color_value VGA_COLOR_MAGENTA = 5"
| "vga_color_value VGA_COLOR_BROWN = 6"
| "vga_color_value VGA_COLOR_LIGHT_GREY = 7"
| "vga_color_value VGA_COLOR_DARK_GREY = 8"
| "vga_color_value VGA_COLOR_LIGHT_BLUE = 9"
| "vga_color_value VGA_COLOR_LIGHT_GREEN = 10"
| "vga_color_value VGA_COLOR_LIGHT_CYAN = 11"
| "vga_color_value VGA_COLOR_LIGHT_RED = 12"
| "vga_color_value VGA_COLOR_LIGHT_MAGENTA = 13"
| "vga_color_value VGA_COLOR_LIGHT_BROWN = 14"
| "vga_color_value VGA_COLOR_WHITE = 15"

definition vga_entry_color :: "vga_color \<Rightarrow> vga_color \<Rightarrow> u8" where
  "vga_entry_color fg bg = vga_color_value fg OR push_bit 4 (vga_color_value bg)"

definition vga_entry :: "char \<Rightarrow> u8 \<Rightarrow> u16" where
  "vga_entry uc color = of_char uc OR push_bit 8 (ucast color)"

abbreviation VGA_WIDTH :: u32 where "VGA_WIDTH \<equiv> 80"
abbreviation VGA_HEIGHT :: u32 where "VGA_HEIGHT \<equiv> 25"

abbreviation char_nul :: char where "char_nul \<equiv> CHR 0x00"
abbreviation char_bs :: char where "char_bs \<equiv> CHR 0x08"
abbreviation char_tab :: char where "char_tab \<equiv> CHR 0x09"
abbreviation char_nl :: char where "char_nl \<equiv> CHR 0x0A"

record term_state = hw_state +
  terminal_row :: u32
  terminal_column :: u32
  terminal_color :: u8
  terminal_buffer :: "u16 list"

section \<open>Operations\<close>

fun strlen_loop :: "string \<Rightarrow> u32 \<Rightarrow> u32" where
  "strlen_loop [] len = len"
| "strlen_loop (c # cs) len = (if c \<noteq> char_nul then strlen_loop cs (len + 1) else len)"

definition strlen :: "string \<Rightarrow> u32" where
  "strlen str = strlen_loop str 0"

definition vga_write :: "nat \<Rightarrow> u16 \<Rightarrow> 'a term_state_scheme \<Rightarrow> 'a term_state_scheme" where
  "vga_write index v s =
     (if index < length (terminal_buffer s)
      then s\<lparr>terminal_buffer := (terminal_buffer s)[index := v]\<rparr>
      else add_fault Out_Of_Bounds s)"

definition vga_copy :: "nat \<Rightarrow> nat \<Rightarrow> 'a term_state_scheme \<Rightarrow> 'a term_state_scheme" where
  "vga_copy dst src s =
     (if src < length (terminal_buffer s) then vga_write dst (terminal_buffer s ! src) s
      else add_fault Out_Of_Bounds s)"

definition terminal_initialize :: "'a term_state_scheme \<Rightarrow> 'a term_state_scheme" where
  "terminal_initialize s =
     (let s1 = s\<lparr>terminal_row := 0, terminal_column := 0,
                 terminal_color := vga_entry_color VGA_COLOR_LIGHT_GREY VGA_COLOR_BLACK\<rparr>
      in fold (\<lambda>y. fold (\<lambda>x st. vga_write (y * 80 + x) (vga_entry CHR '' '' (terminal_color st)) st)
                        [0..<80])
              [0..<25] s1)"

definition terminal_setcolor :: "u8 \<Rightarrow> 'a term_state_scheme \<Rightarrow> 'a term_state_scheme" where
  "terminal_setcolor color s = s\<lparr>terminal_color := color\<rparr>"

definition terminal_update_cursor :: "'a term_state_scheme \<Rightarrow> 'a term_state_scheme" where
  "terminal_update_cursor s =
     (let pos = ucast (terminal_row s * VGA_WIDTH + terminal_column s) :: u16;
          s1 = outb 0x3D4 0x0F s;
          s2 = outb 0x3D5 (ucast (pos AND 0xFF)) s1;
          s3 = outb 0x3D4 0x0E s2
      in outb 0x3D5 (ucast (drop_bit 8 pos AND 0xFF)) s3)"

definition terminal_putentryat ::
    "char \<Rightarrow> u8 \<Rightarrow> u32 \<Rightarrow> u32 \<Rightarrow> 'a term_state_scheme \<Rightarrow> 'a term_state_scheme" where
  "terminal_putentryat c color x y s = vga_write (unat (y * VGA_WIDTH + x)) (vga_entry c color) s"

definition terminal_scroll :: "'a term_state_scheme \<Rightarrow> 'a term_state_scheme" where
  "terminal_scroll s =
     (let s1 = fold (\<lambda>y. fold (\<lambda>x. vga_copy (y * 80 + x) ((y + 1) * 80 + x)) [0..<80]) [0..<24] s
      in fold (\<lambda>x st. vga_write (24 * 80 + x) (vga_entry CHR '' '' (terminal_color st)) st)
              [0..<80] s1)"

text \<open>\<^verbatim>\<open>if (++terminal_row == VGA_HEIGHT) { terminal_scroll(); terminal_row = VGA_HEIGHT - 1; }\<close>\<close>

definition terminal_advance_row :: "'a term_state_scheme \<Rightarrow> 'a term_state_scheme" where
  "terminal_advance_row s =
     (let s1 = s\<lparr>terminal_row := terminal_row s + 1\<rparr>
      in if terminal_row s1 = VGA_HEIGHT
         then (terminal_scroll s1)\<lparr>terminal_row := VGA_HEIGHT - 1\<rparr>
         else s1)"

definition terminal_putchar :: "char \<Rightarrow> 'a term_state_scheme \<Rightarrow> 'a term_state_scheme" where
  "terminal_putchar c s =
     (if c = char_bs then
        let s1 = (if terminal_column s > 0 then s\<lparr>terminal_column := terminal_column s - 1\<rparr>
                  else if terminal_row s > 0
                  then s\<lparr>terminal_row := terminal_row s - 1, terminal_column := VGA_WIDTH - 1\<rparr>
                  else s);
            s2 = terminal_putentryat CHR '' '' (terminal_color s1) (terminal_column s1)
                   (terminal_row s1) s1
        in terminal_update_cursor s2
      else if c = char_nl then terminal_advance_row (s\<lparr>terminal_column := 0\<rparr>)
      else
        let s1 = terminal_putentryat c (terminal_color s) (terminal_column s) (terminal_row s) s;
            s2 = s1\<lparr>terminal_column := terminal_column s1 + 1\<rparr>;
            s3 = (if terminal_column s2 = VGA_WIDTH
                  then terminal_advance_row (s2\<lparr>terminal_column := 0\<rparr>)
                  else s2)
        in terminal_update_cursor s3)"

fun terminal_write :: "string \<Rightarrow> nat \<Rightarrow> 'a term_state_scheme \<Rightarrow> 'a term_state_scheme" where
  "terminal_write data 0 s = s"
| "terminal_write [] (Suc n) s = add_fault Out_Of_Bounds s"
| "terminal_write (c # data) (Suc n) s = terminal_write data n (terminal_putchar c s)"

definition terminal_writestring :: "string \<Rightarrow> 'a term_state_scheme \<Rightarrow> 'a term_state_scheme" where
  "terminal_writestring data s = terminal_write data (unat (strlen data)) s"

text \<open>The cursor as an index into the buffer.\<close>

definition term_pos :: "'a term_state_scheme \<Rightarrow> nat" where
  "term_pos s = unat (terminal_row s) * 80 + unat (terminal_column s)"

text \<open>A screen whose cells are numbered and whose cursor is at the start of the last row.\<close>

definition numbered_screen :: term_state where
  "numbered_screen = \<lparr>hw_trace = [], port_in = (\<lambda>_ _. 0), port_reads = (\<lambda>_. 0), faults = [],
     cpu = cpu_reset, sym = sample_symbols, terminal_row = 24, terminal_column = 79, terminal_color = 7,
     terminal_buffer = map of_nat [0..<2000]\<rparr>"

section \<open>Invariant and frame\<close>

definition term_inv :: "'a term_state_scheme \<Rightarrow> bool" where
  "term_inv s \<longleftrightarrow> terminal_row s < VGA_HEIGHT \<and> terminal_column s < VGA_WIDTH
     \<and> length (terminal_buffer s) = 2000"

text \<open>
  The state without the terminal, the event trace and the fault log: two states that agree
  on it differ in console output only.
\<close>

definition console_erase :: "'a term_state_scheme \<Rightarrow> 'a term_state_scheme" where
  "console_erase s = s\<lparr>hw_trace := [], faults := [], terminal_row := 0, terminal_column := 0,
     terminal_color := 0, terminal_buffer := []\<rparr>"

text \<open>What every output operation of the kernel guarantees: it touches the console only, keeps
  the cursor on the screen and never writes outside the text buffer.\<close>

locale console_output =
  fixes op :: "'a term_state_scheme \<Rightarrow> 'a term_state_scheme"
  assumes only_console: "console_erase (op s) = console_erase s"
    and keeps_inv: "term_inv s \<Longrightarrow> term_inv (op s)"
    and no_fault: "term_inv s \<Longrightarrow> faults (op s) = faults s"
begin

lemma cpu_kept: "cpu (op s) = cpu s"
  using arg_cong [OF only_console [of s], of cpu] by (simp add: console_erase_def)

lemma sym_kept: "sym (op s) = sym s"
  using arg_cong [OF only_console [of s], of sym] by (simp add: console_erase_def)

lemma ports_kept: "port_in (op s) = port_in s" "port_reads (op s) = port_reads s"
  using arg_cong [OF only_console [of s], of port_in]
    arg_cong [OF only_console [of s], of port_reads] by (simp_all add: console_erase_def)

end

section \<open>Composition of output operations\<close>

lemma console_output_id: "console_output (\<lambda>s. s)"
  by unfold_locales auto

lemma console_output_comp:
  assumes "console_output f" and "console_output g"
  shows "console_output (\<lambda>s. g (f s))"
  using assms unfolding console_output_def by simp

lemma console_output_if:
  assumes "console_output f" and "console_output g"
  shows "console_output (\<lambda>s. if b then f s else g s)"
  using assms by (cases b) simp_all

lemma console_output_fold:
  assumes "\<And>x. console_output (f x)"
  shows "console_output (fold f xs)"
proof (induction xs)
  case Nil
  then show ?case using console_output_id by (simp add: id_def)
next
  case (Cons x xs)
  then show ?case using console_output_comp [OF assms [of x] Cons] by (simp add: comp_def)
qed

section \<open>Erasure of single updates\<close>

lemma console_erase_upd [simp]:
  "console_erase (s\<lparr>hw_trace := t\<rparr>) = console_erase s"
  "console_erase (s\<lparr>faults := f\<rparr>) = console_erase s"
  "console_erase (s\<lparr>terminal_row := r\<rparr>) = console_erase s"
  "console_erase (s\<lparr>terminal_column := c\<rparr>) = console_erase s"
  "console_erase (s\<lparr>terminal_color := k\<rparr>) = console_erase s"
  "console_erase (s\<lparr>terminal_buffer := b\<rparr>) = console_erase s"
  by (simp_all add: console_erase_def)

lemma console_erase_hw [simp]:
  "console_erase (outb p v s) = console_erase s"
  "console_erase (add_fault f s) = console_erase s"
  by (simp_all add: hw_defs)

lemma console_erase_vga [simp]:
  "console_erase (vga_write i v s) = console_erase s"
  "console_erase (vga_copy i j s) = console_erase s"
  by (simp_all add: vga_write_def vga_copy_def)

lemma console_erase_fold:
  "(\<And>x s. console_erase (f x s) = console_erase s) \<Longrightarrow> console_erase (fold f xs s) = console_erase s"
  by (induction xs arbitrary: s) auto

lemma console_erase_terminal [simp]:
  "console_erase (terminal_initialize s) = console_erase s"
  "console_erase (terminal_setcolor k s) = console_erase s"
  "console_erase (terminal_update_cursor s) = console_erase s"
  "console_erase (terminal_putentryat c k x y s) = console_erase s"
  "console_erase (terminal_scroll s) = console_erase s"
  "console_erase (terminal_advance_row s) = console_erase s"
  "console_erase (terminal_putchar c s) = console_erase s"
proof -
  show scroll: "console_erase (terminal_scroll s) = console_erase s" for s :: "'a term_state_scheme"
    by (simp add: terminal_scroll_def Let_def console_erase_fold)
  show row: "console_erase (terminal_advance_row s) = console_erase s" for s :: "'a term_state_scheme"
    by (simp add: terminal_advance_row_def Let_def scroll)
  show cursor: "console_erase (terminal_update_cursor s) = console_erase s"
    for s :: "'a term_state_scheme"
    by (simp add: terminal_update_cursor_def Let_def)
  show put: "console_erase (terminal_putentryat c k x y s) = console_erase s"
    for c k x y and s :: "'a term_state_scheme"
    by (simp add: terminal_putentryat_def)
  show "console_erase (terminal_putchar c s) = console_erase s"
    by (simp add: terminal_putchar_def Let_def row cursor put)
  show "console_erase (terminal_initialize s) = console_erase s"
    by (simp add: terminal_initialize_def Let_def console_erase_fold)
  show "console_erase (terminal_setcolor k s) = console_erase s"
    by (simp add: terminal_setcolor_def)
qed

lemma console_erase_terminal_write [simp]:
  "console_erase (terminal_write data n s) = console_erase s"
  by (induction data n s rule: terminal_write.induct) auto

lemma console_erase_terminal_writestring [simp]:
  "console_erase (terminal_writestring data s) = console_erase s"
  by (simp add: terminal_writestring_def)

section \<open>The text buffer\<close>

lemma vga_write_fill:
  assumes "k + n \<le> length (terminal_buffer s)"
  shows "fold (\<lambda>x st. vga_write (k + x) (vga_entry c (terminal_color st)) st) [0..<n] s =
    s\<lparr>terminal_buffer := take k (terminal_buffer s)
        @ replicate n (vga_entry c (terminal_color s)) @ drop (k + n) (terminal_buffer s)\<rparr>"
  using assms
proof (induction n)
  case (Suc n)
  let ?b = "terminal_buffer s" and ?v = "vga_entry c (terminal_color s)"
  have d: "drop (k + n) ?b = ?b ! (k + n) # drop (Suc (k + n)) ?b"
    using Suc.prems by (simp add: Cons_nth_drop_Suc)
  have "(take k ?b @ replicate n ?v @ drop (k + n) ?b)[k + n := ?v]
      = take k ?b @ replicate n ?v @ ?v # drop (Suc (k + n)) ?b"
    using Suc.prems by (simp add: list_update_append d)
  then show ?case using Suc
    by (simp add: vga_write_def replicate_app_Cons_same)
qed simp

lemma vga_copy_shift:
  assumes "n + w \<le> length (terminal_buffer s)"
  shows "fold (\<lambda>i. vga_copy i (i + w)) [0..<n] s =
    s\<lparr>terminal_buffer := take n (drop w (terminal_buffer s)) @ drop n (terminal_buffer s)\<rparr>"
  using assms
proof (induction n)
  case (Suc n)
  let ?b = "terminal_buffer s"
  have d: "drop n ?b = ?b ! n # drop (Suc n) ?b"
    using Suc.prems by (simp add: Cons_nth_drop_Suc)
  have nth: "(take n (drop w ?b) @ drop n ?b) ! (n + w) = ?b ! (n + w)"
    using Suc.prems by (simp add: nth_append)
  have "(take n (drop w ?b) @ drop n ?b)[n := ?b ! (n + w)]
      = take (Suc n) (drop w ?b) @ drop (Suc n) ?b"
    using Suc.prems by (simp add: list_update_append d take_Suc_conv_app_nth add.commute)
  then show ?case using Suc nth by (simp add: vga_copy_def vga_write_def)
qed simp

lemma scroll_shift:
  assumes "length (terminal_buffer s) = 2000"
  shows "terminal_scroll s = s\<lparr>terminal_buffer := drop 80 (terminal_buffer s)
           @ replicate 80 (vga_entry CHR '' '' (terminal_color s))\<rparr>"
proof -
  have grid: "fold (\<lambda>y. fold (\<lambda>x. vga_copy (y * 80 + x) ((y + 1) * 80 + x)) [0..<80]) [0..<24] s
      = fold (\<lambda>i. vga_copy i (i + 80)) [0..<1920] s"
    using fold_grid [of "\<lambda>i. vga_copy i (i + 80)" 80 24 s] by (simp add: algebra_simps)
  let ?s1 = "s\<lparr>terminal_buffer := take 1920 (drop 80 (terminal_buffer s)) @ drop 1920 (terminal_buffer s)\<rparr>"
  have "fold (\<lambda>i. vga_copy i (i + 80)) [0..<1920] s = ?s1"
    using assms by (simp add: vga_copy_shift)
  moreover have "fold (\<lambda>x st. vga_write (24 * 80 + x) (vga_entry CHR '' '' (terminal_color st)) st)
      [0..<80] ?s1 = ?s1\<lparr>terminal_buffer := take 1920 (drop 80 (terminal_buffer s))
        @ replicate 80 (vga_entry CHR '' '' (terminal_color s))\<rparr>"
    using assms vga_write_fill [of 1920 80 ?s1] by simp
  ultimately show ?thesis unfolding terminal_scroll_def Let_def grid using assms by simp
qed

section \<open>The cursor\<close>

lemma terminal_row_col_bounds:
  assumes "term_inv s"
  shows "unat (terminal_row s) < 25" and "unat (terminal_column s) < 80"
  using assms by (auto simp: term_inv_def u32_less_iff)

lemma term_index:
  assumes "unat (y :: u32) < 25" and "unat (x :: u32) < 80"
  shows "unat (y * 80 + x) = unat y * 80 + unat x"
proof -
  have "unat (y * 80) = unat y * 80"
    using assms unat_mult_lem [of y 80] by simp
  then show ?thesis using assms by (simp add: u32_add)
qed

lemma terminal_putentryat_inv:
  assumes "length (terminal_buffer s) = 2000" and "unat y < 25" and "unat x < 80"
  shows "terminal_putentryat c k x y s =
    s\<lparr>terminal_buffer := (terminal_buffer s)[unat y * 80 + unat x := vga_entry c k]\<rparr>"
  using assms by (simp add: terminal_putentryat_def vga_write_def term_index)

lemma terminal_update_cursor_fields [simp]:
  "terminal_row (terminal_update_cursor s) = terminal_row s"
  "terminal_column (terminal_update_cursor s) = terminal_column s"
  "terminal_color (terminal_update_cursor s) = terminal_color s"
  "terminal_buffer (terminal_update_cursor s) = terminal_buffer s"
  "faults (terminal_update_cursor s) = faults s"
  by (simp_all add: terminal_update_cursor_def Let_def hw_defs)

lemma terminal_advance_row_cases:
  assumes "length (terminal_buffer s) = 2000" and "terminal_row s < VGA_HEIGHT"
  shows "terminal_advance_row s =
    (if unat (terminal_row s) = 24
     then s\<lparr>terminal_row := 24, terminal_buffer := drop 80 (terminal_buffer s)
              @ replicate 80 (vga_entry CHR '' '' (terminal_color s))\<rparr>
     else s\<lparr>terminal_row := terminal_row s + 1\<rparr>)"
proof -
  have "unat (terminal_row s) < 25" using assms by (simp add: u32_less_iff)
  then have "terminal_row s + 1 = VGA_HEIGHT \<longleftrightarrow> unat (terminal_row s) = 24"
    by (auto simp: u32_eq_iff u32_add)
  with assms show ?thesis
    by (simp add: terminal_advance_row_def Let_def scroll_shift)
qed

lemma putchar_inv:
  assumes "term_inv s"
  shows "term_inv (terminal_putchar c s)" and "faults (terminal_putchar c s) = faults s"
proof -
  have len: "length (terminal_buffer s) = 2000" and row: "terminal_row s < VGA_HEIGHT"
    and col: "terminal_column s < VGA_WIDTH" using assms by (auto simp: term_inv_def)
  note b = terminal_row_col_bounds [OF assms]
  have "term_inv (terminal_putchar c s) \<and> faults (terminal_putchar c s) = faults s"
  proof (cases "c = char_bs")
    case True
    then show ?thesis using len b u32_bound [of "terminal_row s"]
      by (auto simp: terminal_putchar_def Let_def terminal_putentryat_inv term_inv_def
          u32_less_iff u32_sub)
  next
    case False
    show ?thesis
    proof (cases "c = char_nl")
      case True
      with False show ?thesis using len row b
        by (auto simp: terminal_putchar_def terminal_advance_row_cases term_inv_def
            u32_less_iff u32_add)
    next
      case nl: False
      have "terminal_column s + 1 = VGA_WIDTH \<longleftrightarrow> unat (terminal_column s) = 79"
        using b by (auto simp: u32_eq_iff u32_add)
      with False nl show ?thesis using len row col b
        by (auto simp: terminal_putchar_def Let_def terminal_putentryat_inv
            terminal_advance_row_cases term_inv_def u32_less_iff u32_add)
    qed
  qed
  then show "term_inv (terminal_putchar c s)" and "faults (terminal_putchar c s) = faults s"
    by auto
qed

lemma putchar_linear:
  assumes "term_inv s" and "c \<noteq> char_bs" and "c \<noteq> char_nl"
  defines "b \<equiv> (terminal_buffer s)[term_pos s := vga_entry c (terminal_color s)]"
  shows "terminal_buffer (terminal_putchar c s) =
      (if term_pos s = 1999
       then drop 80 b @ replicate 80 (vga_entry CHR '' '' (terminal_color s)) else b)"
    and "term_pos (terminal_putchar c s) = (if term_pos s = 1999 then 1920 else term_pos s + 1)"
proof -
  have len: "length (terminal_buffer s) = 2000" and row: "terminal_row s < VGA_HEIGHT"
    and col: "terminal_column s < VGA_WIDTH" using assms by (auto simp: term_inv_def)
  note bd = terminal_row_col_bounds [OF assms(1)]
  have wrap: "terminal_column s + 1 = VGA_WIDTH \<longleftrightarrow> unat (terminal_column s) = 79"
    using bd by (auto simp: u32_eq_iff u32_add)
  have last: "term_pos s = 1999 \<longleftrightarrow> unat (terminal_column s) = 79 \<and> unat (terminal_row s) = 24"
    using bd unfolding term_pos_def by presburger
  show "terminal_buffer (terminal_putchar c s) =
      (if term_pos s = 1999
       then drop 80 b @ replicate 80 (vga_entry CHR '' '' (terminal_color s)) else b)"
    using assms len row bd wrap last
    by (auto simp: terminal_putchar_def Let_def terminal_putentryat_inv terminal_advance_row_cases
        b_def term_pos_def)
  show "term_pos (terminal_putchar c s) = (if term_pos s = 1999 then 1920 else term_pos s + 1)"
    using assms(1-3) len row bd wrap last
    by (auto simp: terminal_putchar_def Let_def terminal_putentryat_inv terminal_advance_row_cases
        term_pos_def u32_add)
qed

section \<open>Strings\<close>

lemma strlen_loop_eq: "strlen_loop str n = n + of_nat (length (takeWhile (\<lambda>c. c \<noteq> char_nul) str))"
  by (induction str n rule: strlen_loop.induct) auto

lemma strlen_le: "unat (strlen str) \<le> length str"
proof -
  have "unat (strlen str) \<le> length (takeWhile (\<lambda>c. c \<noteq> char_nul) str)"
    by (simp add: strlen_def strlen_loop_eq unat_of_nat)
  also have "\<dots> \<le> length str" by (rule length_takeWhile_le)
  finally show ?thesis .
qed

lemma terminal_write_fold:
  "n \<le> length data \<Longrightarrow> terminal_write data n s = fold terminal_putchar (take n data) s"
  by (induction data n s rule: terminal_write.induct) auto

lemma strlen_literal:
  assumes "char_nul \<notin> set str" and "length str < 4294967296"
  shows "unat (strlen str) = length str"
proof -
  have "takeWhile (\<lambda>c. c \<noteq> char_nul) str = str" using assms by (auto simp: takeWhile_eq_all_conv)
  then show ?thesis using assms(2) by (simp only: strlen_def strlen_loop_eq u32_of_nat add_0)
qed

lemma terminal_writestring_fold:
  "char_nul \<notin> set str \<Longrightarrow> length str < 4294967296 \<Longrightarrow>
   terminal_writestring str s = fold terminal_putchar str s"
  by (simp add: terminal_writestring_def terminal_write_fold strlen_literal)

section \<open>The console contract\<close>

interpretation putchar: console_output "terminal_putchar c" for c
  by unfold_locales (simp_all add: putchar_inv)

interpretation puts: console_output "fold terminal_putchar str" for str
  by (rule console_output_fold) (rule putchar.console_output_axioms)

lemma console_output_writestring:
  "console_output (terminal_writestring str :: 'a term_state_scheme \<Rightarrow> _)"
proof -
  have "(terminal_writestring str :: 'a term_state_scheme \<Rightarrow> _)
      = fold terminal_putchar (take (unat (strlen str)) str)"
    by (rule ext) (simp add: terminal_writestring_def terminal_write_fold strlen_le)
  then show ?thesis using puts.console_output_axioms by simp
qed

interpretation writestring: console_output "terminal_writestring str" for str
  by (rule console_output_writestring)

lemma initialize_eq:
  assumes "length (terminal_buffer s) = 2000"
  shows "terminal_initialize s = s\<lparr>terminal_row := 0, terminal_column := 0, terminal_color := 7,
           terminal_buffer := replicate 2000 (vga_entry CHR '' '' 7)\<rparr>"
proof -
  have col: "vga_entry_color VGA_COLOR_LIGHT_GREY VGA_COLOR_BLACK = 7"
    by (simp add: vga_entry_color_def)
  let ?s1 = "s\<lparr>terminal_row := 0, terminal_column := 0, terminal_color := 7\<rparr>"
  let ?f = "\<lambda>x st. vga_write x (vga_entry CHR '' '' (terminal_color st)) st"
  have "fold (\<lambda>y. fold (\<lambda>x. ?f (y * 80 + x)) [0..<80]) [0..<25] ?s1 = fold ?f [0..<25 * 80] ?s1"
    by (rule fold_grid)
  then have "terminal_initialize s = fold ?f [0..<2000] ?s1"
    by (simp add: terminal_initialize_def Let_def col)
  also have "\<dots> = ?s1\<lparr>terminal_buffer := replicate 2000 (vga_entry CHR '' '' 7)\<rparr>"
    using vga_write_fill [of 0 2000 ?s1 "CHR '' ''"] assms by simp
  finally show ?thesis by simp
qed

interpretation initialize: console_output terminal_initialize
  by unfold_locales (auto simp: term_inv_def initialize_eq)

section \<open>Properties\<close>

text \<open>
  Scrolling, written in \<^verbatim>\<open>kernel.c\<close> as two nested loops that copy the buffer cell by cell in
  place and a loop that blanks the last row, is a shift of the screen by one row: the top row
  is dropped, every other row moves up, and the bottom row is blank in the current colour.
  Nothing else changes.
\<close>

lemma terminal_scroll_shift:
  assumes "length (terminal_buffer s) = 2000"
  shows "terminal_scroll s = s\<lparr>terminal_buffer := drop 80 (terminal_buffer s)
           @ replicate 80 (vga_entry CHR '' '' (terminal_color s))\<rparr>"
  using assms by (rule scroll_shift)

lemma terminal_scroll_shift_example:
  "length (terminal_buffer numbered_screen) = 2000
   \<and> terminal_buffer (terminal_scroll numbered_screen) ! 0 = 80
   \<and> terminal_buffer (terminal_scroll numbered_screen) ! 1999 = vga_entry CHR '' '' 7"
proof -
  have len: "length (terminal_buffer numbered_screen) = 2000" by (simp add: numbered_screen_def)
  show ?thesis
    using len by (simp add: terminal_scroll_shift [OF len] nth_append) (simp add: numbered_screen_def)
qed

text \<open>
  C36. Whatever character is printed, the cursor stays on the 80 x 25 screen, the buffer keeps
  its 2000 cells, and no cell outside the buffer is written (no fault is recorded).
\<close>

theorem terminal_putchar_safe:
  assumes "term_inv s"
  shows "term_inv (terminal_putchar c s) \<and> faults (terminal_putchar c s) = faults s"
  using putchar_inv [OF assms] by simp

theorem terminal_putchar_safe_witness:
  "term_inv numbered_screen \<and> term_inv (terminal_putchar CHR ''x'' numbered_screen)
   \<and> faults (terminal_putchar CHR ''x'' numbered_screen) = []"
proof -
  have inv: "term_inv numbered_screen" by (simp add: term_inv_def numbered_screen_def)
  then show ?thesis using terminal_putchar_safe [OF inv, of "CHR ''x''"]
    by (simp add: numbered_screen_def)
qed

text \<open>
  A character that is neither backspace nor newline is written in the cell under the
  cursor and the cursor moves to the next cell; in the last cell of the screen the screen
  scrolls after the write and the cursor goes to the start of the last row.
\<close>

lemma terminal_putchar_advances:
  assumes "term_inv s" and "c \<noteq> char_bs" and "c \<noteq> char_nl"
  shows "let b = (terminal_buffer s)[term_pos s := vga_entry c (terminal_color s)] in
     if term_pos s = 1999
     then term_pos (terminal_putchar c s) = 1920
        \<and> terminal_buffer (terminal_putchar c s) =
            drop 80 b @ replicate 80 (vga_entry CHR '' '' (terminal_color s))
     else term_pos (terminal_putchar c s) = term_pos s + 1
        \<and> terminal_buffer (terminal_putchar c s) = b"
  using putchar_linear [OF assms] by (simp add: Let_def)

lemma terminal_putchar_advances_example:
  "term_inv numbered_screen \<and> term_pos numbered_screen = 1999
   \<and> term_pos (terminal_putchar CHR ''x'' numbered_screen) = 1920
   \<and> terminal_buffer (terminal_putchar CHR ''x'' numbered_screen) ! 1919 = vga_entry CHR ''x'' 7"
proof -
  have inv: "term_inv numbered_screen" by (simp add: term_inv_def numbered_screen_def)
  have pos: "term_pos numbered_screen = 1999" by (simp add: term_pos_def numbered_screen_def)
  show ?thesis using terminal_putchar_advances [OF inv, of "CHR ''x''"] inv pos
    by (simp add: Let_def nth_append) (simp add: numbered_screen_def)
qed

end
