(* ===== verification/Kprintf.thy ===== *)
theory Kprintf
  imports Terminal
begin

text \<open>
  Formatted output to the terminal, \<^verbatim>\<open>kprintf.c\<close>. The digit loops fill a local buffer from
  its start (12 characters for decimal, 8 for hexadecimal) and print it backwards; writing
  past the buffer is a fault. A C string is the list of its characters up to the
  terminator, so the end of the list is the terminating zero. Variadic arguments are a list
  of integers and strings; fetching one that is not there, or of the other kind, is a fault.
  Lemmas: the digit buffers never overflow, the digits printed are the decimal and the
  hexadecimal numeral of the number, and \<^verbatim>\<open>kprintf\<close> writes what the comment of
  \<^verbatim>\<open>kprintf.h\<close> promises, except for the literal percent sign.
\<close>

section \<open>Operations\<close>

datatype va_arg = VInt u32 | VStr string

text \<open>\<^verbatim>\<open>while (num > 0) { buffer[i++] = '0' + (num % 10); num /= 10; }\<close>, with the capacity of
  the buffer; \<open>None\<close> is a write past its end.\<close>

function uint_fill :: "nat \<Rightarrow> u32 \<Rightarrow> string \<Rightarrow> string option" where
  "uint_fill cap num buf =
     (if num > 0 then
        if length buf < cap
        then uint_fill cap (num div 10) (buf @ [char_of (48 + unat (num mod 10))])
        else None
      else Some buf)"
  by pat_completeness auto
termination
  by (relation "measure (\<lambda>(cap, num, buf). unat num)")
    (auto simp: unat_div_distrib word_less_nat_alt)

declare uint_fill.simps [simp del]

definition hex_digit :: "u8 \<Rightarrow> char" where
  "hex_digit digit = (if digit < 10 then char_of (48 + unat digit)
                      else char_of (65 + unat digit - 10))"

function hex_fill :: "nat \<Rightarrow> u32 \<Rightarrow> string \<Rightarrow> string option" where
  "hex_fill cap num buf =
     (if num > 0 then
        if length buf < cap
        then hex_fill cap (drop_bit 4 num) (buf @ [hex_digit (ucast (num AND 0xF))])
        else None
      else Some buf)"
  by pat_completeness auto
termination
  by (relation "measure (\<lambda>(cap, num, buf). unat num)")
    (auto simp: drop_bit_eq_div unat_div_distrib word_less_nat_alt)

declare hex_fill.simps [simp del]

definition print_uint :: "u32 \<Rightarrow> 'a term_state_scheme \<Rightarrow> 'a term_state_scheme" where
  "print_uint num s =
     (if num = 0 then terminal_putchar CHR ''0'' s
      else case uint_fill 12 num [] of
             None \<Rightarrow> add_fault Out_Of_Bounds s
           | Some buffer \<Rightarrow> fold terminal_putchar (rev buffer) s)"

text \<open>\<^verbatim>\<open>num = -num\<close> on the smallest 32-bit integer is a signed overflow; the bits stay.\<close>

definition print_int :: "u32 \<Rightarrow> 'a term_state_scheme \<Rightarrow> 'a term_state_scheme" where
  "print_int num s =
     (if sint num < 0 then
        let s1 = terminal_putchar CHR ''-'' s;
            s2 = (if num = 0x80000000 then add_fault Signed_Overflow s1 else s1)
        in print_uint (- num) s2
      else print_uint num s)"

definition print_hex :: "u32 \<Rightarrow> 'a term_state_scheme \<Rightarrow> 'a term_state_scheme" where
  "print_hex num s =
     (if num = 0 then terminal_putchar CHR ''0'' s
      else case hex_fill 8 num [] of
             None \<Rightarrow> add_fault Out_Of_Bounds s
           | Some buffer \<Rightarrow> fold terminal_putchar (rev buffer) s)"

fun kprintf :: "string \<Rightarrow> va_arg list \<Rightarrow> 'a term_state_scheme \<Rightarrow> 'a term_state_scheme" where
  "kprintf [] args s = s"
| "kprintf (c # fmt) args s =
     (if c = CHR ''%'' then
        (case fmt of
           [] \<Rightarrow> add_fault Out_Of_Bounds s
         | d # fmt' \<Rightarrow>
             if d = CHR ''d'' then
               (case args of VInt n # args' \<Rightarrow> kprintf fmt' args' (print_int n s)
                           | _ \<Rightarrow> add_fault Bad_Vararg s)
             else if d = CHR ''u'' then
               (case args of VInt n # args' \<Rightarrow> kprintf fmt' args' (print_uint n s)
                           | _ \<Rightarrow> add_fault Bad_Vararg s)
             else if d = CHR ''x'' then
               (case args of VInt n # args' \<Rightarrow> kprintf fmt' args' (print_hex n s)
                           | _ \<Rightarrow> add_fault Bad_Vararg s)
             else if d = CHR ''s'' then
               (case args of VStr str # args' \<Rightarrow> kprintf fmt' args' (terminal_writestring str s)
                           | _ \<Rightarrow> add_fault Bad_Vararg s)
             else if d = CHR ''%'' then
               kprintf fmt' args (terminal_putchar d (terminal_putchar CHR ''%'' s))
             else kprintf fmt' args s)
      else kprintf fmt args (terminal_putchar c s))"

section \<open>Reference definitions\<close>

text \<open>The decimal and the hexadecimal numeral of a number, and their values.\<close>

fun dec_numeral :: "nat \<Rightarrow> string" where
  "dec_numeral n = (if n < 10 then [char_of (48 + n)]
                    else dec_numeral (n div 10) @ [char_of (48 + n mod 10)])"

declare dec_numeral.simps [simp del]

definition hex_char :: "nat \<Rightarrow> char" where
  "hex_char d = (if d < 10 then char_of (48 + d) else char_of (55 + d))"

fun hex_numeral :: "nat \<Rightarrow> string" where
  "hex_numeral n = (if n < 16 then [hex_char n] else hex_numeral (n div 16) @ [hex_char (n mod 16)])"

declare hex_numeral.simps [simp del]

definition dec_value :: "string \<Rightarrow> nat" where
  "dec_value str = foldl (\<lambda>a c. 10 * a + (of_char c - 48)) 0 str"

definition hex_char_value :: "char \<Rightarrow> nat" where
  "hex_char_value c = (if of_char c < (65 :: nat) then of_char c - 48 else of_char c - 55)"

definition hex_value :: "string \<Rightarrow> nat" where
  "hex_value str = foldl (\<lambda>a c. 16 * a + hex_char_value c) 0 str"

definition int_numeral :: "u32 \<Rightarrow> string" where
  "int_numeral n = (if sint n < 0 then ''-'' else []) @ dec_numeral (nat \<bar>sint n\<bar>)"

text \<open>What a call prints according to \<^verbatim>\<open>kprintf.h\<close>; \<open>None\<close> for a call outside its contract.\<close>

fun kprintf_text :: "string \<Rightarrow> va_arg list \<Rightarrow> string option" where
  "kprintf_text [] args = Some []"
| "kprintf_text (c # fmt) args =
     (if c \<noteq> CHR ''%'' then map_option ((#) c) (kprintf_text fmt args)
      else case fmt of
        [] \<Rightarrow> None
      | d # fmt' \<Rightarrow>
        (if d = CHR ''%'' then map_option ((#) CHR ''%'') (kprintf_text fmt' args)
         else case args of
             VInt n # args' \<Rightarrow>
               (if d = CHR ''u'' then map_option ((@) (dec_numeral (unat n))) (kprintf_text fmt' args')
                else if d = CHR ''x'' then map_option ((@) (hex_numeral (unat n))) (kprintf_text fmt' args')
                else if d = CHR ''d'' \<and> n \<noteq> 0x80000000 then
                  map_option ((@) (int_numeral n)) (kprintf_text fmt' args')
                else None)
           | VStr str # args' \<Rightarrow>
               (if d = CHR ''s'' \<and> char_nul \<notin> set str \<and> length str < 4294967296
                then map_option ((@) str) (kprintf_text fmt' args') else None)
           | [] \<Rightarrow> None))"

text \<open>The format with every literal percent sign written twice, which is what the code prints.\<close>

fun double_percents :: "string \<Rightarrow> string" where
  "double_percents [] = []"
| "double_percents (c # fmt) =
     (if c \<noteq> CHR ''%'' then c # double_percents fmt
      else case fmt of
        [] \<Rightarrow> [c]
      | d # fmt' \<Rightarrow> (if d = CHR ''%'' then ''%%%%'' @ double_percents fmt' else c # d # double_percents fmt'))"

text \<open>The format has no literal percent sign: no \<^verbatim>\<open>%%\<close> pair.\<close>

fun no_literal_percent :: "string \<Rightarrow> bool" where
  "no_literal_percent [] = True"
| "no_literal_percent (c # fmt) =
     (if c \<noteq> CHR ''%'' then no_literal_percent fmt
      else case fmt of [] \<Rightarrow> True | d # fmt' \<Rightarrow> d \<noteq> CHR ''%'' \<and> no_literal_percent fmt')"

text \<open>A call whose arguments fit its format; the specifiers \<^verbatim>\<open>kprintf\<close> does not know are skipped.\<close>

fun kprintf_ok :: "string \<Rightarrow> va_arg list \<Rightarrow> bool" where
  "kprintf_ok [] args = True"
| "kprintf_ok (c # fmt) args =
     (if c \<noteq> CHR ''%'' then kprintf_ok fmt args
      else case fmt of
        [] \<Rightarrow> False
      | d # fmt' \<Rightarrow>
        (if d = CHR ''d'' then
           (case args of VInt n # args' \<Rightarrow> n \<noteq> 0x80000000 \<and> kprintf_ok fmt' args' | _ \<Rightarrow> False)
         else if d = CHR ''u'' \<or> d = CHR ''x'' then
           (case args of VInt n # args' \<Rightarrow> kprintf_ok fmt' args' | _ \<Rightarrow> False)
         else if d = CHR ''s'' then
           (case args of VStr str # args' \<Rightarrow> kprintf_ok fmt' args' | _ \<Rightarrow> False)
         else kprintf_ok fmt' args))"

section \<open>Digits\<close>

lemma dec_numeral_small: "n < 10 \<Longrightarrow> dec_numeral n = [char_of (48 + n)]"
  by (subst dec_numeral.simps) simp

lemma dec_numeral_big:
  "10 \<le> n \<Longrightarrow> dec_numeral n = dec_numeral (n div 10) @ [char_of (48 + n mod 10)]"
  by (subst dec_numeral.simps) simp

lemma hex_numeral_small: "n < 16 \<Longrightarrow> hex_numeral n = [hex_char n]"
  by (subst hex_numeral.simps) simp

lemma hex_numeral_big:
  "16 \<le> n \<Longrightarrow> hex_numeral n = hex_numeral (n div 16) @ [hex_char (n mod 16)]"
  by (subst hex_numeral.simps) simp

lemma length_dec_numeral: "n < 10 ^ Suc k \<Longrightarrow> length (dec_numeral n) \<le> Suc k"
proof (induction k arbitrary: n)
  case (Suc k)
  show ?case
  proof (cases "n < 10")
    case False
    have "n div 10 < 10 ^ Suc k" using Suc.prems by (simp add: less_mult_imp_div_less)
    then show ?thesis using Suc.IH False by (simp add: dec_numeral_big)
  qed (simp add: dec_numeral_small)
qed (simp add: dec_numeral_small)

lemma length_hex_numeral: "n < 16 ^ Suc k \<Longrightarrow> length (hex_numeral n) \<le> Suc k"
proof (induction k arbitrary: n)
  case (Suc k)
  show ?case
  proof (cases "n < 16")
    case False
    have "n div 16 < 16 ^ Suc k" using Suc.prems by (simp add: less_mult_imp_div_less)
    then show ?thesis using Suc.IH False by (simp add: hex_numeral_big)
  qed (simp add: hex_numeral_small)
qed (simp add: hex_numeral_small)

lemma length_dec_numeral_u32: "length (dec_numeral (unat (n :: u32))) \<le> 10"
  using length_dec_numeral [of "unat n" 9] u32_bound [of n] by simp

lemma length_hex_numeral_u32: "length (hex_numeral (unat (n :: u32))) \<le> 8"
  using length_hex_numeral [of "unat n" 7] u32_bound [of n] by simp

lemma uint_fill_numeral:
  "num \<noteq> 0 \<Longrightarrow> length buf + length (dec_numeral (unat num)) \<le> cap \<Longrightarrow>
   uint_fill cap num buf = Some (buf @ rev (dec_numeral (unat num)))"
proof (induction cap num buf rule: uint_fill.induct)
  case (1 cap num buf)
  let ?d = "char_of (48 + unat (num mod 10)) :: char"
  have d: "unat (num mod 10) = unat num mod 10" "unat (num div 10) = unat num div 10"
    by (simp_all add: unat_mod_distrib unat_div_distrib)
  have pos: "num > 0" using "1.prems" by (simp add: word_neq_0_conv)
  show ?case
  proof (cases "unat num < 10")
    case True
    then have "num div 10 = 0" using d by (simp add: u32_eq_iff)
    then show ?thesis
      using True pos "1.prems" d
      by (simp add: uint_fill.simps [of cap num] uint_fill.simps [of cap 0] dec_numeral_small)
  next
    case False
    then have big: "dec_numeral (unat num) = dec_numeral (unat (num div 10)) @ [?d]"
      using d by (simp add: dec_numeral_big)
    have "num div 10 \<noteq> 0" using False d by (auto simp: u32_eq_iff)
    then have "uint_fill cap (num div 10) (buf @ [?d])
        = Some ((buf @ [?d]) @ rev (dec_numeral (unat (num div 10))))"
      using "1.prems" pos big by (intro "1.IH") auto
    then show ?thesis using pos "1.prems" big by (simp add: uint_fill.simps [of cap num])
  qed
qed

lemma hex_digit_char: "hex_digit (ucast (num AND 0xF :: u32)) = hex_char (unat num mod 16)"
proof -
  have "unat (ucast (num AND 0xF) :: u8) = unat num mod 16"
    by (simp add: unsigned_ucast_eq unat_and_15 take_bit_eq_mod)
  moreover from this have "(ucast (num AND 0xF) :: u8) < 10 \<longleftrightarrow> unat num mod 16 < 10"
    by (simp add: word_less_nat_alt)
  ultimately show ?thesis by (auto simp: hex_digit_def hex_char_def)
qed

lemma hex_fill_numeral:
  "num \<noteq> 0 \<Longrightarrow> length buf + length (hex_numeral (unat num)) \<le> cap \<Longrightarrow>
   hex_fill cap num buf = Some (buf @ rev (hex_numeral (unat num)))"
proof (induction cap num buf rule: hex_fill.induct)
  case (1 cap num buf)
  let ?d = "hex_digit (ucast (num AND 0xF))"
  have d: "unat (drop_bit 4 num) = unat num div 16"
    by (simp add: drop_bit_eq_div unat_div_distrib)
  have pos: "num > 0" using "1.prems" by (simp add: word_neq_0_conv)
  show ?case
  proof (cases "unat num < 16")
    case True
    then have "drop_bit 4 num = 0" using d by (simp add: u32_eq_iff)
    then show ?thesis
      using True pos "1.prems"
      by (simp add: hex_fill.simps [of cap num] hex_fill.simps [of cap 0] hex_numeral_small
          hex_digit_char)
  next
    case False
    then have big: "hex_numeral (unat num) = hex_numeral (unat (drop_bit 4 num)) @ [?d]"
      using d by (simp add: hex_numeral_big hex_digit_char)
    have "drop_bit 4 num \<noteq> 0" using False d by (auto simp: u32_eq_iff)
    then have "hex_fill cap (drop_bit 4 num) (buf @ [?d])
        = Some ((buf @ [?d]) @ rev (hex_numeral (unat (drop_bit 4 num))))"
      using "1.prems" pos big by (intro "1.IH") auto
    then show ?thesis using pos "1.prems" big by (simp add: hex_fill.simps [of cap num])
  qed
qed

lemmas char_eval = char_of_def bit_Suc_0_iff

lemma char_of_48: "(char_of (48 :: nat) :: char) = CHR ''0''"
  by (simp add: char_eval)

lemma print_uint_eq: "print_uint num s = fold terminal_putchar (dec_numeral (unat num)) s"
proof (cases "num = 0")
  case False
  then have "uint_fill 12 num [] = Some (rev (dec_numeral (unat num)))"
    using uint_fill_numeral [of num "[]" 12] length_dec_numeral_u32 [of num] by simp
  then show ?thesis using False by (simp add: print_uint_def)
qed (simp add: print_uint_def dec_numeral_small char_of_48)

lemma print_hex_eq: "print_hex num s = fold terminal_putchar (hex_numeral (unat num)) s"
proof (cases "num = 0")
  case False
  then have "hex_fill 8 num [] = Some (rev (hex_numeral (unat num)))"
    using hex_fill_numeral [of num "[]" 8] length_hex_numeral_u32 [of num] by simp
  then show ?thesis using False by (simp add: print_hex_def)
qed (simp add: print_hex_def hex_numeral_small hex_char_def char_of_48)

lemma unat_abs_sint:
  "unat (if sint (n :: u32) < 0 then - n else n) = nat \<bar>sint n\<bar>"
proof -
  have "uint n = uint (word_of_int (sint n) :: u32)" by simp
  also have "\<dots> = sint n mod 4294967296" by (simp only: uint_word_of_int) simp
  finally have eq: "uint n = sint n mod 4294967296" .
  have b: "- 2147483648 \<le> sint n" "sint n < 2147483648" using sint_range_size [of n]
    by (simp_all add: word_size)
  have neg: "uint (- n) = (- uint n) mod 4294967296" by (simp add: uint_word_ariths)
  show ?thesis
  proof (cases "sint n < 0")
    case True
    then have "(sint n + 4294967296) mod 4294967296 = sint n + 4294967296"
      using b by (intro mod_pos_pos_trivial) auto
    then have "uint n = sint n + 4294967296" using eq by simp
    then have "uint (- n) = - sint n" using neg b True by simp
    then show ?thesis using True by (simp add: unat_eq_nat_uint)
  next
    case False
    then have "uint n = sint n" using b eq by simp
    then show ?thesis using False by (simp add: unat_eq_nat_uint)
  qed
qed

lemma print_int_eq:
  assumes "n \<noteq> 0x80000000"
  shows "print_int n s = fold terminal_putchar (int_numeral n) s"
  using unat_abs_sint [of n] assms by (auto simp: print_int_def print_uint_eq int_numeral_def)

section \<open>The console contract\<close>

lemma console_erase_print [simp]:
  "console_erase (print_uint n s) = console_erase s"
  "console_erase (print_hex n s) = console_erase s"
  "console_erase (print_int n s) = console_erase s"
proof -
  show u: "console_erase (print_uint n s) = console_erase s" for n and s :: "'a term_state_scheme"
    by (simp add: print_uint_eq console_erase_fold)
  show "console_erase (print_hex n s) = console_erase s"
    by (simp add: print_hex_eq console_erase_fold)
  show "console_erase (print_int n s) = console_erase s"
    by (simp add: print_int_def Let_def u)
qed

lemma console_erase_kprintf [simp]: "console_erase (kprintf fmt args s) = console_erase s"
  by (induction fmt args s rule: kprintf.induct)
    (auto split: list.splits va_arg.splits)

interpretation puint: console_output "print_uint n" for n
  by unfold_locales (simp_all add: print_uint_eq puts.only_console puts.keeps_inv puts.no_fault)

lemmas console_pieces = putchar_inv writestring.keeps_inv writestring.no_fault puts.keeps_inv
  puts.no_fault

lemma kprintf_safe_aux:
  "kprintf_ok fmt args \<Longrightarrow> term_inv s \<Longrightarrow>
   term_inv (kprintf fmt args s) \<and> faults (kprintf fmt args s) = faults s"
proof (induction fmt args s rule: kprintf.induct)
  case (2 c fmt args s)
  show ?case
  proof (cases "c = CHR ''%''")
    case False
    then show ?thesis using "2.prems" "2.IH" by (simp add: console_pieces print_uint_eq print_hex_eq print_int_eq)
  next
    case True
    then obtain d fmt' where fmt: "fmt = d # fmt'" using "2.prems" by (cases fmt) auto
    consider "d = CHR ''d''" | "d = CHR ''u''" | "d = CHR ''x''" | "d = CHR ''s''" | "d = CHR ''%''"
      | "d \<notin> {CHR ''d'', CHR ''u'', CHR ''x'', CHR ''s'', CHR ''%''}" by blast
    then show ?thesis
      using "2.prems" "2.IH" True fmt
      by cases (auto simp: console_pieces print_uint_eq print_hex_eq print_int_eq simp del: fold_append split: list.splits va_arg.splits if_splits)
  qed
qed simp

lemma kprintf_safe:
  assumes "kprintf_ok fmt args" and "term_inv s"
  shows "term_inv (kprintf fmt args s)" and "faults (kprintf fmt args s) = faults s"
  using kprintf_safe_aux [OF assms] by auto

lemma console_output_kprintf: "kprintf_ok fmt args \<Longrightarrow> console_output (kprintf fmt args)"
  by unfold_locales (simp_all add: kprintf_safe)

lemma kprintf_text_eq:
  "kprintf_text (double_percents fmt) args = Some t \<Longrightarrow>
   kprintf fmt args s = fold terminal_putchar t s"
proof (induction "length fmt" arbitrary: fmt args s t rule: less_induct)
  case less
  show ?case
  proof (cases fmt)
    case Nil
    then show ?thesis using less.prems by simp
  next
    case (Cons c fmt1)
    show ?thesis
    proof (cases "c = CHR ''%''")
      case False
      then obtain t1 where "kprintf_text (double_percents fmt1) args = Some t1" "t = c # t1"
        using less.prems Cons by auto
      then show ?thesis using less.hyps [of fmt1 args t1] less.prems Cons False by simp
    next
      case True
      then obtain d fmt' where fmt: "fmt = c # d # fmt'" using less.prems Cons by (cases fmt1) auto
      have IH: "kprintf_text (double_percents fmt') args' = Some t' \<Longrightarrow> kprintf fmt' args' s' = fold terminal_putchar t' s'"
        for args' t' and s' :: "'a term_state_scheme"
        using less.hyps [of fmt' args' t' s'] fmt by simp
      show ?thesis
      proof (cases "d = CHR ''%''")
        case d: True
        have "double_percents fmt = ''%%%%'' @ double_percents fmt'" by (simp add: fmt True d)
        then obtain t' where "kprintf_text (double_percents fmt') args = Some t'" "t = ''%%'' @ t'"
          using less.prems by auto
        then show ?thesis using IH by (simp add: fmt True d)
      next
        case d: False
        have "double_percents fmt = c # d # double_percents fmt'" using d by (simp add: fmt True)
        then have "kprintf_text (c # d # double_percents fmt') args = Some t" using less.prems by simp
        then consider
            (int) n as t' where "args = VInt n # as" "kprintf_text (double_percents fmt') as = Some t'" "d = CHR ''d''"
              "n \<noteq> 0x80000000" "t = int_numeral n @ t'"
          | (uint) n as t' where "args = VInt n # as" "kprintf_text (double_percents fmt') as = Some t'" "d = CHR ''u''"
              "t = dec_numeral (unat n) @ t'"
          | (hex) n as t' where "args = VInt n # as" "kprintf_text (double_percents fmt') as = Some t'" "d = CHR ''x''"
              "t = hex_numeral (unat n) @ t'"
          | (str) str as t' where "args = VStr str # as" "kprintf_text (double_percents fmt') as = Some t'" "d = CHR ''s''"
              "char_nul \<notin> set str" "length str < 4294967296" "t = str @ t'"
          using True d by (auto split: list.splits va_arg.splits if_splits)
        then show ?thesis
          by cases (simp_all add: fmt True IH print_uint_eq print_hex_eq print_int_eq terminal_writestring_fold)
      qed
    qed
  qed
qed

lemma double_percents_id: "no_literal_percent fmt \<Longrightarrow> double_percents fmt = fmt"
proof (induction fmt rule: no_literal_percent.induct)
  case (2 c fmt)
  show ?case
  proof (cases "c = CHR ''%''")
    case True
    then show ?thesis using 2 by (cases fmt) simp_all
  qed (use 2 in simp)
qed simp

section \<open>Numerals and their values\<close>

lemma of_char_digit: "d < 10 \<Longrightarrow> (of_char (char_of (48 + d) :: char) :: nat) - 48 = d"
  by simp

lemma dec_value_snoc: "dec_value (xs @ [c]) = 10 * dec_value xs + (of_char c - 48)"
  by (simp add: dec_value_def)

lemma dec_value_numeral: "dec_value (dec_numeral n) = n"
proof (induction n rule: dec_numeral.induct)
  case (1 n)
  show ?case
  proof (cases "n < 10")
    case True
    then show ?thesis by (simp add: dec_numeral_small dec_value_def)
  next
    case False
    then show ?thesis using 1 by (simp add: dec_numeral_big dec_value_snoc)
  qed
qed

lemma hex_char_value_char: "d < 16 \<Longrightarrow> hex_char_value (hex_char d) = d"
  by (auto simp: hex_char_value_def hex_char_def)

lemma hex_value_numeral: "hex_value (hex_numeral n) = n"
proof (induction n rule: hex_numeral.induct)
  case (1 n)
  show ?case
  proof (cases "n < 16")
    case True
    then show ?thesis by (simp add: hex_numeral_small hex_value_def hex_char_value_char)
  next
    case False
    then show ?thesis using 1 by (simp add: hex_numeral_big hex_value_def hex_char_value_char)
  qed
qed

section \<open>Properties\<close>

text \<open>
  C28. A call of \<^verbatim>\<open>kprintf\<close> whose arguments fit the format writes, character by character, the text of the format with
  every literal percent sign doubled: decimal numerals for \<^verbatim>\<open>%u\<close> and \<^verbatim>\<open>%d\<close>, hexadecimal ones for \<^verbatim>\<open>%x\<close>, the string for
  \<^verbatim>\<open>%s\<close>, and two percent signs for \<^verbatim>\<open>%%\<close>. Without a literal percent sign this is the text that \<^verbatim>\<open>kprintf.h\<close> promises.
\<close>

theorem kprintf_prints_text:
  assumes "kprintf_text (double_percents fmt) args = Some t"
  shows "kprintf fmt args s = fold terminal_putchar t s \<and> (no_literal_percent fmt \<longrightarrow> kprintf_text fmt args = Some t)"
  using kprintf_text_eq [OF assms] assms double_percents_id by auto

theorem kprintf_prints_text_witness:
  "kprintf ''PID %u (%s) at 0x%x, %d, 5%%'' [VInt 73, VStr ''idle'', VInt 0xC0DE, VInt (- 5)] numbered_screen
   = fold terminal_putchar ''PID 73 (idle) at 0xC0DE, -5, 5%%'' numbered_screen"
proof -
  have "kprintf_text (double_percents ''PID %u (%s) at 0x%x, %d, 5%%'')
      [VInt 73, VStr ''idle'', VInt 0xC0DE, VInt (- 5)] = Some ''PID 73 (idle) at 0xC0DE, -5, 5%%''"
    by (simp add: dec_numeral.simps hex_numeral.simps int_numeral_def hex_char_def char_eval)
  from kprintf_prints_text [OF this] show ?thesis by blast
qed

text \<open>
  The digit loops of \<^verbatim>\<open>print_uint\<close> and \<^verbatim>\<open>print_hex\<close> stay within their buffers of 12 and 8
  characters for every 32-bit number, and what they print reads back as the number.
\<close>

lemma print_digits_read_back:
  "\<exists>dec hex. print_uint n s = fold terminal_putchar dec s \<and> dec_value dec = unat n \<and> length dec \<le> 12
     \<and> print_hex n s = fold terminal_putchar hex s \<and> hex_value hex = unat n \<and> length hex \<le> 8"
  using print_uint_eq [of n s] dec_value_numeral [of "unat n"] length_dec_numeral_u32 [of n]
    print_hex_eq [of n s] hex_value_numeral [of "unat n"] length_hex_numeral_u32 [of n]
  by (intro exI [of _ "dec_numeral (unat n)"] exI [of _ "hex_numeral (unat n)"]) simp

text \<open>
  The literal percent sign is printed twice: \<^verbatim>\<open>kprintf.h\<close> documents \<^verbatim>\<open>%%\<close> as a literal percent
  sign, and the code prints one for the pair and then the second character of the pair again.
\<close>

lemma kprintf_percent_doubled:
  "kprintf_text ''%%'' [] = Some ''%'' \<and> kprintf ''%%'' [] s = fold terminal_putchar ''%%'' s"
  by simp

text \<open>
  A format that ends in a lone percent sign makes \<^verbatim>\<open>kprintf\<close> read beyond the terminator of the
  format string: the pointer is advanced over the terminating zero.
\<close>

lemma kprintf_trailing_percent_overruns:
  "kprintf ''100%'' [] s = add_fault Out_Of_Bounds (fold terminal_putchar ''100'' s)"
  by simp

text \<open>Clients reason about whole calls, not about the characters of a literal format.\<close>

declare kprintf.simps [simp del]

end
