(* ===== verification/Interrupts.thy ===== *)
theory Interrupts
  imports Kprintf
begin

text \<open>
  Segment and interrupt descriptors and the interrupt controller: \<^verbatim>\<open>gdt.c\<close>, \<^verbatim>\<open>idt.c\<close> and
  their headers. A descriptor is the record of its packed fields; the descriptor tables are
  lists of 3 and of 256 records. The assembly stubs are known by their addresses. A
  registered C handler is a value of the type \<open>handler\<close>; \<open>interrupt_handler\<close> takes as its
  argument the function that runs one, since the handlers belong to components above this
  one. Lemmas: the scattered base and limit fields hold the base and the limit, the GDT is
  flat, the IDT has a present ring-0 interrupt gate for each of the 48 vectors, the PIC is
  remapped by the 8259 protocol with its masks restored, and an end of interrupt is sent to
  exactly the controllers that need it.
\<close>

section \<open>Data\<close>

record gdt_entry =
  g_limit_low :: u16
  g_base_low :: u16
  g_base_middle :: u8
  g_access :: u8
  g_granularity :: u8
  g_base_high :: u8

record idt_entry =
  i_base_low :: u16
  i_selector :: u16
  i_zero :: u8
  i_flags :: u8
  i_base_high :: u16

record table_ptr =
  tp_limit :: u16
  tp_base :: u32

record interrupt_frame =
  f_ds :: u32
  f_edi :: u32
  f_esi :: u32
  f_ebp :: u32
  f_esp :: u32
  f_ebx :: u32
  f_edx :: u32
  f_ecx :: u32
  f_eax :: u32
  interrupt_number :: u32
  error_code :: u32
  f_eip :: u32
  f_cs :: u32
  f_eflags :: u32
  f_user_esp :: u32
  f_user_ss :: u32

datatype handler = Timer_handler | Keyboard_handler | Page_fault_handler

record intr_state = term_state +
  gdt :: "gdt_entry list"
  gp :: table_ptr
  idt :: "idt_entry list"
  idtp :: table_ptr
  handlers :: "handler option list"

section \<open>Operations\<close>

definition gdt_set_entry ::
    "nat \<Rightarrow> u32 \<Rightarrow> u32 \<Rightarrow> u8 \<Rightarrow> u8 \<Rightarrow> 'a intr_state_scheme \<Rightarrow> 'a intr_state_scheme" where
  "gdt_set_entry index base limit access gran s =
     (if index < length (gdt s) then
        s\<lparr>gdt := (gdt s)[index :=
            \<lparr>g_limit_low = ucast (limit AND 0xFFFF),
             g_base_low = ucast (base AND 0xFFFF),
             g_base_middle = ucast (drop_bit 16 base AND 0xFF),
             g_access = access,
             g_granularity = ucast (drop_bit 16 limit AND 0x0F) OR (gran AND 0xF0),
             g_base_high = ucast (drop_bit 24 base AND 0xFF)\<rparr>]\<rparr>
      else add_fault Out_Of_Bounds s)"

definition gdt_init :: "'a intr_state_scheme \<Rightarrow> 'a intr_state_scheme" where
  "gdt_init s =
     (let s1 = s\<lparr>gp := \<lparr>tp_limit = 8 * 3 - 1, tp_base = gdt_sym (sym s)\<rparr>\<rparr>;
          s2 = gdt_set_entry 0 0 0 0 0 s1;
          s3 = gdt_set_entry 1 0 0xFFFFFFFF 0x9A 0xCF s2;
          s4 = gdt_set_entry 2 0 0xFFFFFFFF 0x92 0xCF s3
      in hw_emit (Lgdt (gp_sym (sym s))) s4)"

definition idt_set_entry ::
    "u8 \<Rightarrow> u32 \<Rightarrow> u16 \<Rightarrow> u8 \<Rightarrow> 'a intr_state_scheme \<Rightarrow> 'a intr_state_scheme" where
  "idt_set_entry index base selector flags s =
     (if unat index < length (idt s) then
        s\<lparr>idt := (idt s)[unat index :=
            \<lparr>i_base_low = ucast (base AND 0xFFFF),
             i_selector = selector,
             i_zero = 0,
             i_flags = flags,
             i_base_high = ucast (drop_bit 16 base AND 0xFFFF)\<rparr>]\<rparr>
      else add_fault Out_Of_Bounds s)"

definition pic_remap :: "'a intr_state_scheme \<Rightarrow> 'a intr_state_scheme" where
  "pic_remap s =
     (let (mask_master, s1) = inb 0x21 s;
          (mask_slave, s2) = inb 0xA1 s1;
          s3 = io_wait (outb 0xA0 0x11 (io_wait (outb 0x20 0x11 s2)));
          s4 = io_wait (outb 0xA1 0x28 (io_wait (outb 0x21 0x20 s3)));
          s5 = io_wait (outb 0xA1 0x02 (io_wait (outb 0x21 0x04 s4)));
          s6 = io_wait (outb 0xA1 0x01 (io_wait (outb 0x21 0x01 s5)))
      in outb 0xA1 mask_slave (outb 0x21 mask_master s6))"

definition idt_register_handler :: "u8 \<Rightarrow> handler \<Rightarrow> 'a intr_state_scheme \<Rightarrow> 'a intr_state_scheme" where
  "idt_register_handler interrupt h s =
     (if unat interrupt < length (handlers s)
      then s\<lparr>handlers := (handlers s)[unat interrupt := Some h]\<rparr>
      else add_fault Out_Of_Bounds s)"

text \<open>The end-of-interrupt part of \<^verbatim>\<open>interrupt_handler\<close>.\<close>

definition send_eoi :: "u32 \<Rightarrow> 'a intr_state_scheme \<Rightarrow> 'a intr_state_scheme" where
  "send_eoi n s =
     (if n \<ge> 32 \<and> n \<le> 47
      then outb 0x20 0x20 (if n \<ge> 40 then outb 0xA0 0x20 s else s)
      else s)"

definition interrupt_handler ::
    "(handler \<Rightarrow> interrupt_frame \<Rightarrow> 'a intr_state_scheme \<Rightarrow> 'a intr_state_scheme) \<Rightarrow>
     interrupt_frame \<Rightarrow> 'a intr_state_scheme \<Rightarrow> 'a intr_state_scheme" where
  "interrupt_handler run frame s =
     (let n = interrupt_number frame;
          s1 = (if unat n < length (handlers s) then
                  (case handlers s ! unat n of Some h \<Rightarrow> run h frame s | None \<Rightarrow> s)
                else add_fault Out_Of_Bounds s)
      in send_eoi n s1)"

definition idt_init :: "'a intr_state_scheme \<Rightarrow> 'a intr_state_scheme" where
  "idt_init s =
     (let s1 = pic_remap s;
          s2 = s1\<lparr>idtp := \<lparr>tp_limit = 8 * 256 - 1, tp_base = idt_sym (sym s1)\<rparr>\<rparr>;
          s3 = fold (\<lambda>n st. idt_set_entry (of_nat n) (isr_sym (sym st) n) 0x08 0x8E st) [0..<32] s2;
          s4 = fold (\<lambda>n st. idt_set_entry (32 + of_nat n) (irq_sym (sym st) n) 0x08 0x8E st) [0..<16] s3
      in hw_emit Sti (hw_emit (Lidt (tp_limit (idtp s4)) (tp_base (idtp s4))) s4))"

section \<open>How the processor reads a descriptor\<close>

definition gdt_base :: "gdt_entry \<Rightarrow> u32" where
  "gdt_base e = ucast (g_base_low e) OR push_bit 16 (ucast (g_base_middle e))
     OR push_bit 24 (ucast (g_base_high e))"

definition gdt_limit :: "gdt_entry \<Rightarrow> u32" where
  "gdt_limit e = ucast (g_limit_low e) OR push_bit 16 (ucast (g_granularity e AND 0x0F))"

text \<open>The number of bytes a segment covers: its limit counts pages when the granularity bit is set.\<close>

definition gdt_bytes :: "gdt_entry \<Rightarrow> nat" where
  "gdt_bytes e = (if bit (g_granularity e) 7 then (unat (gdt_limit e) + 1) * 4096
                  else unat (gdt_limit e) + 1)"

definition gate_offset :: "idt_entry \<Rightarrow> u32" where
  "gate_offset e = ucast (i_base_low e) OR push_bit 16 (ucast (i_base_high e))"

text \<open>A present interrupt gate of ring 0 in the kernel code segment.\<close>

definition kernel_gate :: "u32 \<Rightarrow> idt_entry \<Rightarrow> bool" where
  "kernel_gate addr e \<longleftrightarrow> gate_offset e = addr \<and> i_selector e = 0x08 \<and> i_zero e = 0
     \<and> bit (i_flags e) 7 \<and> drop_bit 5 (i_flags e) AND 3 = 0 \<and> i_flags e AND 0x1F = 0x0E"

text \<open>The gate that \<^verbatim>\<open>idt_init\<close> writes for a stub.\<close>

definition gate :: "u32 \<Rightarrow> idt_entry" where
  "gate base = \<lparr>i_base_low = ucast (base AND 0xFFFF), i_selector = 0x08, i_zero = 0, i_flags = 0x8E,
     i_base_high = ucast (drop_bit 16 base AND 0xFFFF)\<rparr>"

section \<open>The 8259 interrupt controller\<close>

text \<open>
  The documented behaviour of one controller: a command with bit 4 set starts the
  initialisation, the next three bytes on the data port are the vector base, the wiring and
  the mode, and any other byte on the data port is the interrupt mask.
\<close>

datatype pic_phase = Pic_ready | Want_ICW2 | Want_ICW3 | Want_ICW4

record pic =
  pic_phase :: pic_phase
  pic_base :: u8
  pic_mask :: u8

definition pic_command :: "u8 \<Rightarrow> pic \<Rightarrow> pic" where
  "pic_command v p = (if bit v 4 then p\<lparr>pic_phase := Want_ICW2, pic_mask := 0\<rparr> else p)"

definition pic_data :: "u8 \<Rightarrow> pic \<Rightarrow> pic" where
  "pic_data v p = (case pic_phase p of
       Want_ICW2 \<Rightarrow> p\<lparr>pic_base := v, pic_phase := Want_ICW3\<rparr>
     | Want_ICW3 \<Rightarrow> p\<lparr>pic_phase := Want_ICW4\<rparr>
     | Want_ICW4 \<Rightarrow> p\<lparr>pic_phase := Pic_ready\<rparr>
     | Pic_ready \<Rightarrow> p\<lparr>pic_mask := v\<rparr>)"

text \<open>The controller with command port \<open>port\<close> and data port \<open>port + 1\<close> sees an event.\<close>

fun pic_event :: "u16 \<Rightarrow> hw_event \<Rightarrow> pic \<Rightarrow> pic" where
  "pic_event port (Outb q v) p =
     (if q = port then pic_command v p else if q = port + 1 then pic_data v p else p)"
| "pic_event port _ p = p"

text \<open>An interrupt table before \<^verbatim>\<open>idt_init\<close>, on a machine that answers 0xB8 and 0x8F for the masks.\<close>

definition sample_intr :: intr_state where
  "sample_intr = \<lparr>hw_trace = [], port_in = (\<lambda>p n. if p = 0x21 then 0xB8 else 0x8F),
     port_reads = (\<lambda>_. 0), faults = [], cpu = cpu_reset, sym = sample_symbols,
     terminal_row = 0, terminal_column = 0, terminal_color = 7, terminal_buffer = replicate 2000 0,
     gdt = replicate 3 (\<lparr>g_limit_low = 0, g_base_low = 0, g_base_middle = 0, g_access = 0,
       g_granularity = 0, g_base_high = 0\<rparr>),
     gp = \<lparr>tp_limit = 0, tp_base = 0\<rparr>,
     idt = replicate 256 (\<lparr>i_base_low = 0, i_selector = 0, i_zero = 0, i_flags = 0, i_base_high = 0\<rparr>),
     idtp = \<lparr>tp_limit = 0, tp_base = 0\<rparr>, handlers = replicate 256 None\<rparr>"

section \<open>Descriptors\<close>

lemma base_split: "(ucast (ucast (b AND 0xFFFF) :: u16) :: u32)
    OR push_bit 16 (ucast (ucast (drop_bit 16 b AND 0xFF) :: u8))
    OR push_bit 24 (ucast (ucast (drop_bit 24 b AND 0xFF) :: u8)) = b"
proof (rule bit_word_eqI)
  fix n assume "n < LENGTH(32)"
  then show "bit ((ucast (ucast (b AND 0xFFFF) :: u16) :: u32)
    OR push_bit 16 (ucast (ucast (drop_bit 16 b AND 0xFF) :: u8))
    OR push_bit 24 (ucast (ucast (drop_bit 24 b AND 0xFF) :: u8))) n = bit b n"
    unfolding mask_u32
    by (cases "n < 16"; cases "n < 24") (auto simp add: bit_simps)
qed

lemma limit_split: "(ucast (ucast (l AND 0xFFFF) :: u16) :: u32)
    OR push_bit 16 (ucast ((ucast (drop_bit 16 l AND 0x0F) OR (g AND 0xF0)) AND 0x0F :: u8))
    = l AND 0xFFFFF"
proof (rule bit_word_eqI)
  fix n assume "n < LENGTH(32)"
  then show "bit ((ucast (ucast (l AND 0xFFFF) :: u16) :: u32)
    OR push_bit 16 (ucast ((ucast (drop_bit 16 l AND 0x0F) OR (g AND 0xF0)) AND 0x0F :: u8))) n
    = bit (l AND 0xFFFFF) n"
    unfolding mask_u32 mask_u8
    by (cases "n < 16"; cases "n < 20") (auto simp add: bit_simps)
qed

lemma gran_split: "(ucast (drop_bit 16 (l :: u32) AND 0x0F) OR (g AND 0xF0)) AND 0xF0 = (g :: u8) AND 0xF0"
  unfolding mask_u32 mask_u8 by (rule bit_word_eqI) (auto simp add: bit_simps)

lemma gate_split: "(ucast (ucast (b AND 0xFFFF) :: u16) :: u32)
    OR push_bit 16 (ucast (ucast (drop_bit 16 b AND 0xFFFF) :: u16)) = b"
proof (rule bit_word_eqI)
  fix n assume "n < LENGTH(32)"
  then show "bit ((ucast (ucast (b AND 0xFFFF) :: u16) :: u32)
    OR push_bit 16 (ucast (ucast (drop_bit 16 b AND 0xFFFF) :: u16))) n = bit b n"
    unfolding mask_u32 by (cases "n < 16") (auto simp add: bit_simps)
qed

section \<open>The interrupt table\<close>

lemma kernel_gate_gate: "kernel_gate a (gate a)"
  using gate_split [of a] by (simp add: kernel_gate_def gate_def gate_offset_def)

lemma idt_set_entry_gate:
  "unat index < length (idt s) \<Longrightarrow>
   idt_set_entry index base 0x08 0x8E s = s\<lparr>idt := (idt s)[unat index := gate base]\<rparr>"
  by (simp add: idt_set_entry_def gate_def)

lemma idt_fill:
  assumes "length (idt s) = 256" and "k + n \<le> 256"
  shows "fold (\<lambda>i st. idt_set_entry (of_nat k + of_nat i) (f (sym st) i) 0x08 0x8E st) [0..<n] s =
     s\<lparr>idt := take k (idt s) @ map (\<lambda>i. gate (f (sym s) i)) [0..<n] @ drop (k + n) (idt s)\<rparr>"
proof -
  have "fold (\<lambda>i st. idt_set_entry (of_nat k + of_nat i) (f (sym st) i) 0x08 0x8E st) [0..<n] s =
     s\<lparr>idt := fold (\<lambda>i ys. ys[k + i := gate (f (sym s) i)]) [0..<n] (idt s)\<rparr>"
    using assms
  proof (induction n)
    case (Suc n)
    have len: "length (fold (\<lambda>i ys. ys[k + i := gate (f (sym s) i)]) [0..<n] (idt s)) = 256"
      using Suc.prems by (subst fold_list_update) auto
    have "unat (of_nat k + of_nat n :: u8) = k + n"
      using Suc.prems by (simp flip: of_nat_add add: unat_of_nat)
    then show ?case using Suc len by (simp add: idt_set_entry_gate)
  qed simp
  then show ?thesis using assms by (simp add: fold_list_update)
qed

lemma pic_remap_kept [simp]:
  "idt (pic_remap s) = idt s" "sym (pic_remap s) = sym s" "faults (pic_remap s) = faults s"
  "handlers (pic_remap s) = handlers s" "gdt (pic_remap s) = gdt s"
  by (simp_all add: pic_remap_def hw_defs Let_def)

lemma idt_init_eq:
  assumes "length (idt s) = 256"
  shows "idt_init s = hw_emit Sti (hw_emit (Lidt 2047 (idt_sym (sym s))) ((pic_remap s)\<lparr>idtp := \<lparr>tp_limit = 2047, tp_base = idt_sym (sym s)\<rparr>,
      idt := map (\<lambda>i. gate (isr_sym (sym s) i)) [0..<32] @ map (\<lambda>i. gate (irq_sym (sym s) i)) [0..<16] @ drop 48 (idt s)\<rparr>))"
proof -
  let ?s2 = "(pic_remap s)\<lparr>idtp := \<lparr>tp_limit = 8 * 256 - 1, tp_base = idt_sym (sym s)\<rparr>\<rparr>"
  let ?s3 = "?s2\<lparr>idt := map (\<lambda>i. gate (isr_sym (sym s) i)) [0..<32] @ drop 32 (idt s)\<rparr>"
  have 1: "fold (\<lambda>i st. idt_set_entry (of_nat i) (isr_sym (sym st) i) 0x08 0x8E st) [0..<32] ?s2 = ?s3"
    using idt_fill [of ?s2 0 32 isr_sym] assms by simp
  have 2: "fold (\<lambda>i st. idt_set_entry (32 + of_nat i) (irq_sym (sym st) i) 0x08 0x8E st) [0..<16] ?s3
      = ?s3\<lparr>idt := map (\<lambda>i. gate (isr_sym (sym s) i)) [0..<32]
      @ map (\<lambda>i. gate (irq_sym (sym s) i)) [0..<16] @ drop 48 (idt s)\<rparr>"
    using idt_fill [of ?s3 32 16 irq_sym] assms by simp
  show ?thesis using 1 2 by (simp add: idt_init_def Let_def)
qed

lemma idt_init_tables:
  assumes "length (idt s) = 256"
  shows "idt (idt_init s) = map (\<lambda>i. gate (isr_sym (sym s) i)) [0..<32]
      @ map (\<lambda>i. gate (irq_sym (sym s) i)) [0..<16] @ drop 48 (idt s)"
    and "faults (idt_init s) = faults s"
  by (simp_all add: idt_init_eq [OF assms] hw_emit_def)

section \<open>Properties\<close>

text \<open>
  The base and the limit that \<^verbatim>\<open>gdt_set_entry\<close> scatters over the packed descriptor are the
  ones the processor reassembles: the whole 32-bit base, the low 20 bits of the limit, the
  access byte and the flag nibble.
\<close>

lemma gdt_set_entry_reads_back:
  assumes "index < length (gdt s)"
  shows "let e = gdt (gdt_set_entry index base limit access gran s) ! index in
     gdt_base e = base \<and> gdt_limit e = limit AND 0xFFFFF \<and> g_access e = access
     \<and> g_granularity e AND 0xF0 = gran AND 0xF0"
  using assms base_split [of base] limit_split [of limit gran] gran_split [of limit gran]
  by (simp add: gdt_set_entry_def gdt_base_def gdt_limit_def Let_def)

lemma gdt_set_entry_reads_back_example:
  "1 < length (gdt sample_intr) \<and>
   gdt_base (gdt (gdt_set_entry 1 0x12345678 0x000FFFFF 0x9A 0xCF sample_intr) ! 1) = 0x12345678"
proof -
  have "1 < length (gdt sample_intr)" by (simp add: sample_intr_def)
  from gdt_set_entry_reads_back [OF this, of "0x12345678" "0x000FFFFF" "0x9A" "0xCF"] this
  show ?thesis by (simp add: Let_def)
qed

text \<open>
  After \<^verbatim>\<open>gdt_init\<close> segmentation is flat: entry 0 is the null descriptor, and the code and
  the data segment are present, belong to ring 0, start at 0 and cover all of the 4 GB. The
  table pointer loaded covers exactly the three entries.
\<close>

lemma gdt_init_flat:
  assumes "length (gdt s) = 3"
  shows "gdt (gdt_init s) ! 0 = \<lparr>g_limit_low = 0, g_base_low = 0, g_base_middle = 0, g_access = 0,
           g_granularity = 0, g_base_high = 0\<rparr>
     \<and> (\<forall>i \<in> {1, 2}. gdt_base (gdt (gdt_init s) ! i) = 0 \<and> gdt_bytes (gdt (gdt_init s) ! i) = 2 ^ 32
          \<and> bit (g_access (gdt (gdt_init s) ! i)) 7 \<and> drop_bit 5 (g_access (gdt (gdt_init s) ! i)) AND 3 = 0)
     \<and> unat (tp_limit (gp (gdt_init s))) + 1 = 8 * length (gdt (gdt_init s))
     \<and> faults (gdt_init s) = faults s"
proof -
  have "gdt s \<noteq> []" using assms by auto
  with assms show ?thesis
    by (simp add: gdt_init_def gdt_set_entry_def Let_def hw_emit_def gdt_base_def gdt_bytes_def
        gdt_limit_def)
qed

lemma gdt_init_flat_example:
  "length (gdt sample_intr) = 3 \<and> gdt_bytes (gdt (gdt_init sample_intr) ! 1) = 2 ^ 32"
proof -
  have "length (gdt sample_intr) = 3" by (simp add: sample_intr_def)
  from gdt_init_flat [OF this] this show ?thesis by simp
qed

text \<open>
  After \<^verbatim>\<open>idt_init\<close> each of the 32 exception vectors leads to its \<^verbatim>\<open>isr\<close> stub and each of the
  vectors 32 to 47 to its \<^verbatim>\<open>irq\<close> stub, through a present ring-0 interrupt gate in the kernel
  code segment; the remaining vectors are as they were.
\<close>

lemma idt_init_gates:
  assumes "length (idt s) = 256"
  shows "(\<forall>n < 32. kernel_gate (isr_sym (sym s) n) (idt (idt_init s) ! n))
     \<and> (\<forall>n < 16. kernel_gate (irq_sym (sym s) n) (idt (idt_init s) ! (32 + n)))
     \<and> (\<forall>n. 48 \<le> n \<and> n < 256 \<longrightarrow> idt (idt_init s) ! n = idt s ! n)
     \<and> faults (idt_init s) = faults s"
  using assms by (auto simp: idt_init_tables nth_append kernel_gate_gate)

lemma idt_init_gates_example:
  "length (idt sample_intr) = 256 \<and> kernel_gate (irq_sym (sym sample_intr) 1) (idt (idt_init sample_intr) ! 33)"
proof -
  have len: "length (idt sample_intr) = 256" by (simp add: sample_intr_def)
  have "(1 :: nat) < 16" by simp
  with idt_init_gates [OF len]
  have "kernel_gate (irq_sym (sym sample_intr) 1) (idt (idt_init sample_intr) ! (32 + 1))" by blast
  with len show ?thesis by simp
qed

text \<open>
  The byte sequence of \<^verbatim>\<open>pic_remap\<close> is a correct programming of the two 8259 controllers:
  when a read of a data port returns the controller's mask, both controllers end ready, the
  master with vector base 32, the slave with vector base 40, and each with the interrupt mask
  it had before.
\<close>

lemma pic_remap_programs_controllers:
  assumes "pic_phase m = Pic_ready" and "pic_phase v = Pic_ready"
    and "port_in s 0x21 (port_reads s 0x21) = pic_mask m"
    and "port_in s 0xA1 (port_reads s 0xA1) = pic_mask v"
  shows "\<exists>evs. hw_trace (pic_remap s) = rev evs @ hw_trace s
     \<and> fold (pic_event 0x20) evs m = m\<lparr>pic_base := 32\<rparr>
     \<and> fold (pic_event 0xA0) evs v = v\<lparr>pic_base := 40\<rparr>"
proof -
  let ?evs = "[Inb 0x21 (pic_mask m), Inb 0xA1 (pic_mask v), Outb 0x20 0x11, Outb 0x80 0,
    Outb 0xA0 0x11, Outb 0x80 0, Outb 0x21 0x20, Outb 0x80 0, Outb 0xA1 0x28, Outb 0x80 0,
    Outb 0x21 0x04, Outb 0x80 0, Outb 0xA1 0x02, Outb 0x80 0, Outb 0x21 0x01, Outb 0x80 0,
    Outb 0xA1 0x01, Outb 0x80 0, Outb 0x21 (pic_mask m), Outb 0xA1 (pic_mask v)]"
  have "hw_trace (pic_remap s) = rev ?evs @ hw_trace s"
    using assms by (simp add: pic_remap_def hw_defs Let_def)
  moreover have "fold (pic_event 0x20) ?evs m = m\<lparr>pic_base := 32\<rparr>"
    using assms(1) by (cases m) (simp add: pic_command_def pic_data_def)
  moreover have "fold (pic_event 0xA0) ?evs v = v\<lparr>pic_base := 40\<rparr>"
    using assms(2) by (cases v) (simp add: pic_command_def pic_data_def)
  ultimately show ?thesis by blast
qed

lemma pic_remap_programs_controllers_example:
  "\<exists>evs. hw_trace (pic_remap sample_intr) = rev evs
     \<and> pic_base (fold (pic_event 0x20) evs \<lparr>pic_phase = Pic_ready, pic_base = 8, pic_mask = 0xB8\<rparr>) = 32
     \<and> pic_mask (fold (pic_event 0xA0) evs \<lparr>pic_phase = Pic_ready, pic_base = 0x70, pic_mask = 0x8F\<rparr>) = 0x8F"
proof -
  have tr: "hw_trace sample_intr = []" by (simp add: sample_intr_def)
  have "port_in sample_intr 0x21 (port_reads sample_intr 0x21) = 0xB8"
    "port_in sample_intr 0xA1 (port_reads sample_intr 0xA1) = 0x8F"
    by (simp_all add: sample_intr_def)
  then obtain evs where "hw_trace (pic_remap sample_intr) = rev evs @ hw_trace sample_intr"
    and "fold (pic_event 0x20) evs \<lparr>pic_phase = Pic_ready, pic_base = 8, pic_mask = 0xB8\<rparr>
      = \<lparr>pic_phase = Pic_ready, pic_base = 32, pic_mask = 0xB8\<rparr>"
    and "fold (pic_event 0xA0) evs \<lparr>pic_phase = Pic_ready, pic_base = 0x70, pic_mask = 0x8F\<rparr>
      = \<lparr>pic_phase = Pic_ready, pic_base = 40, pic_mask = 0x8F\<rparr>"
    using pic_remap_programs_controllers [of "\<lparr>pic_phase = Pic_ready, pic_base = 8, pic_mask = 0xB8\<rparr>"
      "\<lparr>pic_phase = Pic_ready, pic_base = 0x70, pic_mask = 0x8F\<rparr>" sample_intr] by auto
  then show ?thesis using tr by (intro exI [of _ evs]) simp
qed

end
