(* ===== verification/Pmm.thy ===== *)
theory Pmm
  imports Interrupts
begin

text \<open>
  The physical memory manager, \<^verbatim>\<open>pmm.c\<close>, and the structures of \<^verbatim>\<open>multiboot.h\<close> it reads. The
  state gains the memory that the kernel dereferences pointers in, the frame bitmap (4098
  bytes, \<^verbatim>\<open>MAX_FRAMES / 8\<close> for the \<^verbatim>\<open>MAX_FRAMES\<close> of 32786 in the source) and the two counters.
  The Multiboot information and its memory map are read from memory at their packed
  offsets; a bitmap access beyond the 4098 bytes is a fault.

  The walk over the memory map has fuel 2^32. It does not write memory, so what it does
  next depends on its pointer alone, and a walk that takes more steps than there are
  pointers never ends: running out of fuel is exactly divergence, recorded as a fault.

  Lemmas: the bitmap operations act on the set of free frames as expected; an allocation
  takes the least free frame of the scanned part of the bitmap; the free-memory counter
  counts the free frames; \<^verbatim>\<open>pmm_init\<close> frees exactly the frames of available memory above
  1 MB and above the kernel.
\<close>

section \<open>Data\<close>

abbreviation MAX_FRAMES :: nat where "MAX_FRAMES \<equiv> 32786"

record pmm_state = intr_state +
  mem :: memory
  frame_bitmap :: "u8 list"
  total_frames :: u32
  used_frames :: u32

text \<open>The fields of \<^verbatim>\<open>multiboot_info_t\<close> and \<^verbatim>\<open>multiboot_mmap_entry_t\<close> the kernel reads, at their
  offsets in the packed structures; the 64-bit fields are cast to 32 bits by the code.\<close>

definition mbi_flags :: "memory \<Rightarrow> u32 \<Rightarrow> u32" where "mbi_flags m mbi = load32 m mbi"
definition mbi_mmap_length :: "memory \<Rightarrow> u32 \<Rightarrow> u32" where "mbi_mmap_length m mbi = load32 m (mbi + 44)"
definition mbi_mmap_addr :: "memory \<Rightarrow> u32 \<Rightarrow> u32" where "mbi_mmap_addr m mbi = load32 m (mbi + 48)"

definition mmap_size :: "memory \<Rightarrow> u32 \<Rightarrow> u32" where "mmap_size m e = load32 m e"
definition mmap_base :: "memory \<Rightarrow> u32 \<Rightarrow> u32" where "mmap_base m e = load32 m (e + 4)"
definition mmap_length :: "memory \<Rightarrow> u32 \<Rightarrow> u32" where "mmap_length m e = load32 m (e + 12)"
definition mmap_type :: "memory \<Rightarrow> u32 \<Rightarrow> u32" where "mmap_type m e = load32 m (e + 20)"

abbreviation (input) MULTIBOOT_FLAG_MMAP :: u32 where "MULTIBOOT_FLAG_MMAP \<equiv> 64"
abbreviation (input) MULTIBOOT_MEMORY_AVAILABLE :: u32 where "MULTIBOOT_MEMORY_AVAILABLE \<equiv> 1"

section \<open>The bitmap\<close>

definition bitmap_set :: "u32 \<Rightarrow> 'a pmm_state_scheme \<Rightarrow> 'a pmm_state_scheme" where
  "bitmap_set frame s =
     (let i = unat (frame div 8) in
      if i < length (frame_bitmap s)
      then s\<lparr>frame_bitmap := (frame_bitmap s)[i := frame_bitmap s ! i OR push_bit (unat (frame mod 8)) 1]\<rparr>
      else add_fault Out_Of_Bounds s)"

definition bitmap_clear :: "u32 \<Rightarrow> 'a pmm_state_scheme \<Rightarrow> 'a pmm_state_scheme" where
  "bitmap_clear frame s =
     (let i = unat (frame div 8) in
      if i < length (frame_bitmap s)
      then s\<lparr>frame_bitmap := (frame_bitmap s)[i := frame_bitmap s ! i AND NOT (push_bit (unat (frame mod 8)) 1)]\<rparr>
      else add_fault Out_Of_Bounds s)"

definition bitmap_test :: "u32 \<Rightarrow> 'a pmm_state_scheme \<Rightarrow> bool \<times> 'a pmm_state_scheme" where
  "bitmap_test frame s =
     (let i = unat (frame div 8) in
      if i < length (frame_bitmap s)
      then (frame_bitmap s ! i AND push_bit (unat (frame mod 8)) 1 \<noteq> 0, s)
      else (False, add_fault Out_Of_Bounds s))"

datatype scan_result = Scan_found nat | Scan_none | Scan_overrun

text \<open>The outer loop of \<^verbatim>\<open>bitmap_first_free\<close> from byte \<open>i\<close> on; the inner one tries the eight bits.\<close>

function bitmap_scan :: "u8 list \<Rightarrow> nat \<Rightarrow> nat \<Rightarrow> scan_result" where
  "bitmap_scan bm i n =
     (if i < n then
        if i < length bm then
          if bm ! i \<noteq> 0xFF then
            (case find (\<lambda>j. bm ! i AND push_bit j 1 = 0) [0..<8] of
               Some j \<Rightarrow> Scan_found (i * 8 + j)
             | None \<Rightarrow> bitmap_scan bm (i + 1) n)
          else bitmap_scan bm (i + 1) n
        else Scan_overrun
      else Scan_none)"
  by pat_completeness auto
termination
  by (relation "measure (\<lambda>(bm, i, n). n - i)") auto

declare bitmap_scan.simps [simp del]

definition bitmap_first_free :: "'a pmm_state_scheme \<Rightarrow> scan_result" where
  "bitmap_first_free s = bitmap_scan (frame_bitmap s) 0 (unat (total_frames s div 8))"

section \<open>Operations\<close>

definition pmm_alloc_frame :: "'a pmm_state_scheme \<Rightarrow> u32 \<times> 'a pmm_state_scheme" where
  "pmm_alloc_frame s =
     (case bitmap_first_free s of
        Scan_none \<Rightarrow> (0, kprintf ''PMM: Out of memory!\<newline>'' [] s)
      | Scan_overrun \<Rightarrow> (0, add_fault Out_Of_Bounds s)
      | Scan_found frame \<Rightarrow>
          (let s1 = bitmap_set (of_nat frame) s
           in (of_nat frame * PAGE_SIZE, s1\<lparr>used_frames := used_frames s1 + 1\<rparr>)))"

definition pmm_free_frame :: "u32 \<Rightarrow> 'a pmm_state_scheme \<Rightarrow> 'a pmm_state_scheme" where
  "pmm_free_frame frame_addr s =
     (let frame = frame_addr div PAGE_SIZE in
      if unat frame \<ge> MAX_FRAMES then s
      else case bitmap_test frame s of
        (used, s1) \<Rightarrow>
          if used then
            (let s2 = bitmap_clear frame s1 in s2\<lparr>used_frames := used_frames s2 - 1\<rparr>)
          else s1)"

definition pmm_get_total_memory :: "'a pmm_state_scheme \<Rightarrow> u32" where
  "pmm_get_total_memory s = total_frames s * PAGE_SIZE"

definition pmm_get_free_memory :: "'a pmm_state_scheme \<Rightarrow> u32" where
  "pmm_get_free_memory s = (total_frames s - used_frames s) * PAGE_SIZE"

text \<open>The body of the innermost loop of \<^verbatim>\<open>pmm_init\<close>.\<close>

definition pmm_release :: "u32 \<Rightarrow> nat \<Rightarrow> 'a pmm_state_scheme \<Rightarrow> 'a pmm_state_scheme" where
  "pmm_release kernel_end frame s =
     (let addr = of_nat frame * PAGE_SIZE in
      if addr < 0x100000 \<or> addr < kernel_end then s
      else let s1 = bitmap_clear (of_nat frame) s in s1\<lparr>total_frames := total_frames s1 + 1\<rparr>)"

definition pmm_add_region :: "u32 \<Rightarrow> u32 \<Rightarrow> u32 \<Rightarrow> 'a pmm_state_scheme \<Rightarrow> 'a pmm_state_scheme" where
  "pmm_add_region kernel_end base len s =
     (let s1 = kprintf ''Available: 0x%x - 0x%x (%u KB)\<newline>''
                 [VInt base, VInt (base + len), VInt (len div 1024)] s;
          start_frame = (base + PAGE_SIZE - 1) div PAGE_SIZE;
          end_frame = (base + len) div PAGE_SIZE
      in fold (pmm_release kernel_end) [unat start_frame..<min (unat end_frame) MAX_FRAMES] s1)"

fun mmap_walk :: "nat \<Rightarrow> u32 \<Rightarrow> u32 \<Rightarrow> u32 \<Rightarrow> 'a pmm_state_scheme \<Rightarrow> 'a pmm_state_scheme" where
  "mmap_walk 0 kernel_end mmap mmap_end s = (if mmap < mmap_end then add_fault Diverges s else s)"
| "mmap_walk (Suc fuel) kernel_end mmap mmap_end s =
     (if mmap < mmap_end then
        let s1 = (if mmap_type (mem s) mmap = MULTIBOOT_MEMORY_AVAILABLE
                  then pmm_add_region kernel_end (mmap_base (mem s) mmap) (mmap_length (mem s) mmap) s
                  else s)
        in mmap_walk fuel kernel_end (mmap + mmap_size (mem s1) mmap + 4) mmap_end s1
      else s)"

text \<open>\<^verbatim>\<open>((uint32_t)&_kernel_end - 0xC0000000 + PAGE_SIZE - 1) & ~(PAGE_SIZE - 1)\<close>\<close>

definition kernel_end_phys :: "'a pmm_state_scheme \<Rightarrow> u32" where
  "kernel_end_phys s = page_align_up (kernel_end_sym (sym s) - 0xC0000000)"

definition pmm_init :: "u32 \<Rightarrow> 'a pmm_state_scheme \<Rightarrow> 'a pmm_state_scheme" where
  "pmm_init mbi s =
     (let s1 = s\<lparr>frame_bitmap := map (\<lambda>_. 0xFF) (frame_bitmap s)\<rparr> in
      if mbi_flags (mem s1) mbi AND MULTIBOOT_FLAG_MMAP = 0
      then kprintf ''PMM: No memory map available\<newline>'' [] s1
      else
        let s2 = kprintf ''PMM: Parsing memory map...\<newline>'' [] s1;
            kernel_end = kernel_end_phys s2;
            mmap_addr = mbi_mmap_addr (mem s2) mbi;
            mmap_end = mmap_addr + mbi_mmap_length (mem s2) mbi;
            s3 = mmap_walk 4294967296 kernel_end mmap_addr mmap_end s2
        in kprintf ''PMM: %u frame (%u MB) available\<newline>''
             [VInt (total_frames s3), VInt (total_frames s3 * PAGE_SIZE div (1024 * 1024))] s3)"

text \<open>A machine with 128 MB as the loader describes it: one available entry from 1 MB on; and the
  bitmap before and after the initialisation has run (in the latter two frames are free).\<close>

definition sample_memory :: memory where
  "sample_memory = store32 (store32 (store32 (store32 (store32 (store32 (store32 (\<lambda>_. 0)
     0x10000 64) 0x1002C 24) 0x10030 0x20000) 0x20000 20) 0x20004 0x100000) 0x2000C 0x7F00000) 0x20014 1"

definition sample_boot :: pmm_state where
  "sample_boot = intr_state.extend sample_intr
     \<lparr>mem = sample_memory, frame_bitmap = replicate 4098 0, total_frames = 0, used_frames = 0\<rparr>"

definition sample_pmm :: pmm_state where
  "sample_pmm = intr_state.extend sample_intr
     \<lparr>mem = sample_memory, frame_bitmap = (replicate 4098 0xFF)[40 := 0xFB, 41 := 0xFE],
       total_frames = 336, used_frames = 334\<rparr>"

section \<open>The set of free frames\<close>

definition frame_free :: "'a pmm_state_scheme \<Rightarrow> nat \<Rightarrow> bool" where
  "frame_free s f \<longleftrightarrow> f div 8 < length (frame_bitmap s) \<and> \<not> bit (frame_bitmap s ! (f div 8)) (f mod 8)"

definition free_frames :: "'a pmm_state_scheme \<Rightarrow> nat set" where
  "free_frames s = {f. frame_free s f}"

text \<open>A state the manager works in: the bitmap and the terminal are intact, no more frames are
  counted than the bitmap has, and frame 0 (whose address is the null pointer) is not free.\<close>

definition pmm_inv :: "'a pmm_state_scheme \<Rightarrow> bool" where
  "pmm_inv s \<longleftrightarrow> term_inv s \<and> length (frame_bitmap s) = 4098 \<and> unat (total_frames s) \<le> 32784
     \<and> \<not> frame_free s 0"

text \<open>The part of the bitmap that \<^verbatim>\<open>bitmap_first_free\<close> looks at.\<close>

definition scan_limit :: "'a pmm_state_scheme \<Rightarrow> nat" where
  "scan_limit s = 8 * (unat (total_frames s) div 8)"

text \<open>The counters agree with the bitmap.\<close>

definition pmm_counted :: "'a pmm_state_scheme \<Rightarrow> bool" where
  "pmm_counted s \<longleftrightarrow> total_frames s - used_frames s = of_nat (card (free_frames s))"

section \<open>What console output leaves alone\<close>

lemma console_erase_pmm:
  assumes "console_erase s' = console_erase s"
  shows "mem s' = mem s" "frame_bitmap s' = frame_bitmap s" "total_frames s' = total_frames s"
    "used_frames s' = used_frames s" "sym s' = sym s" "cpu s' = cpu s" "handlers s' = handlers s"
proof -
  have "f (console_erase s') = f (console_erase s)" for f :: "'a pmm_state_scheme \<Rightarrow> 'b"
    using assms by simp
  from this [of mem] this [of frame_bitmap] this [of total_frames]
    this [of used_frames] this [of sym] this [of cpu] this [of handlers]
  show "mem s' = mem s" "frame_bitmap s' = frame_bitmap s" "total_frames s' = total_frames s"
    "used_frames s' = used_frames s" "sym s' = sym s" "cpu s' = cpu s" "handlers s' = handlers s"
    by (simp_all add: console_erase_def)
qed

lemmas kprintf_kept_pmm [simp] = console_erase_pmm [OF console_erase_kprintf]

lemma frame_free_kprintf [simp]: "frame_free (kprintf fmt args s) = frame_free s"
  by (simp add: fun_eq_iff frame_free_def)

section \<open>Bits of the bitmap\<close>

lemma byte_set:
  "k < 8 \<Longrightarrow> j < 8 \<Longrightarrow> bit ((b :: u8) OR 2 ^ k) j \<longleftrightarrow> bit b j \<or> j = k"
  "k < 8 \<Longrightarrow> j < 8 \<Longrightarrow> bit ((b :: u8) OR push_bit k 1) j \<longleftrightarrow> bit b j \<or> j = k"
  by (auto simp: bit_simps)

lemma byte_clear:
  "k < 8 \<Longrightarrow> j < 8 \<Longrightarrow> bit ((b :: u8) AND NOT (2 ^ k)) j \<longleftrightarrow> bit b j \<and> j \<noteq> k"
  "k < 8 \<Longrightarrow> j < 8 \<Longrightarrow> bit ((b :: u8) AND NOT (push_bit k 1)) j \<longleftrightarrow> bit b j \<and> j \<noteq> k"
  by (auto simp: bit_simps)

lemma byte_test: "(b :: u8) AND push_bit k 1 = 0 \<longleftrightarrow> \<not> bit b k" "(b :: u8) AND 2 ^ k = 0 \<longleftrightarrow> \<not> bit b k"
  by (simp_all add: push_bit_eq_mult and_exp_eq_0_iff_not_bit)

lemma byte_full: "(b :: u8) = 0xFF \<longleftrightarrow> (\<forall>j < 8. bit b j)"
proof -
  have "(0xFF :: u8) = mask 8" by (simp add: mask_eq_exp_minus_1)
  then show ?thesis by (auto simp: bit_eq_iff bit_simps)
qed

lemma frame_index:
  assumes "f < 4294967296"
  shows "unat (of_nat f div 8 :: u32) = f div 8" and "unat (of_nat f mod 8 :: u32) = f mod 8"
  using assms by (simp_all add: unat_div_distrib unat_mod_distrib u32_of_nat)

lemma bitmap_set_frames:
  assumes "f div 8 < length (frame_bitmap s)" and "f < 4294967296"
  shows "frame_free (bitmap_set (of_nat f) s) g \<longleftrightarrow> frame_free s g \<and> g \<noteq> f"
    and "length (frame_bitmap (bitmap_set (of_nat f) s)) = length (frame_bitmap s)"
proof -
  have "f = g" if "f div 8 = g div 8" "f mod 8 = g mod 8"
    using that by (metis div_mult_mod_eq)
  then show "frame_free (bitmap_set (of_nat f) s) g \<longleftrightarrow> frame_free s g \<and> g \<noteq> f"
    using assms by (auto simp: bitmap_set_def Let_def frame_index frame_free_def nth_list_update byte_set)
  show "length (frame_bitmap (bitmap_set (of_nat f) s)) = length (frame_bitmap s)"
    by (simp add: bitmap_set_def Let_def hw_defs)
qed

lemma bitmap_clear_frames:
  assumes "f div 8 < length (frame_bitmap s)" and "f < 4294967296"
  shows "frame_free (bitmap_clear (of_nat f) s) g \<longleftrightarrow> frame_free s g \<or> g = f"
    and "length (frame_bitmap (bitmap_clear (of_nat f) s)) = length (frame_bitmap s)"
proof -
  let ?bm = "frame_bitmap s" and ?b = "frame_bitmap s ! (f div 8) AND NOT (push_bit (f mod 8) 1)"
  have upd: "frame_bitmap (bitmap_clear (of_nat f) s) = ?bm[f div 8 := ?b]"
    unfolding bitmap_clear_def Let_def frame_index [OF assms(2)] using assms(1) by (simp only: if_True) simp
  show "frame_free (bitmap_clear (of_nat f) s) g \<longleftrightarrow> frame_free s g \<or> g = f"
  proof (cases "f div 8 = g div 8")
    case True
    have "bit ?b (g mod 8) \<longleftrightarrow> bit (?bm ! (f div 8)) (g mod 8) \<and> g mod 8 \<noteq> f mod 8"
      by (rule byte_clear(2)) simp_all
    moreover have "g mod 8 = f mod 8 \<longleftrightarrow> g = f" using True by (metis div_mult_mod_eq)
    ultimately show ?thesis using assms(1) True unfolding frame_free_def upd by (simp only: nth_list_update_eq length_list_update) blast
  next
    case False
    then show ?thesis unfolding frame_free_def upd by auto
  qed
  show "length (frame_bitmap (bitmap_clear (of_nat f) s)) = length (frame_bitmap s)"
    by (simp add: bitmap_clear_def Let_def hw_defs)
qed

lemma bitmap_test_frames:
  assumes "f div 8 < length (frame_bitmap s)" and "f < 4294967296"
  shows "bitmap_test (of_nat f) s = (\<not> frame_free s f, s)"
  using assms by (simp add: bitmap_test_def Let_def frame_index frame_free_def byte_test)

section \<open>The scan\<close>

text \<open>The least frame whose bit is clear among those of the bytes \<open>i\<close> to \<open>n - 1\<close>.\<close>

lemma find_upt_Some:
  "find P [0..<n] = Some j \<longleftrightarrow> j < n \<and> P j \<and> (\<forall>k < j. \<not> P k)"
  by (auto simp: find_Some_iff)

lemma bitmap_scan_spec:
  assumes "n \<le> length bm" and "i \<le> n"
  shows "(\<exists>f. bitmap_scan bm i n = Scan_found f \<and> 8 * i \<le> f \<and> f < 8 * n
            \<and> \<not> bit (bm ! (f div 8)) (f mod 8)
            \<and> (\<forall>g. 8 * i \<le> g \<and> g < f \<longrightarrow> bit (bm ! (g div 8)) (g mod 8)))
       \<or> bitmap_scan bm i n = Scan_none
            \<and> (\<forall>g. 8 * i \<le> g \<and> g < 8 * n \<longrightarrow> bit (bm ! (g div 8)) (g mod 8))"
  using assms
proof (induction bm i n rule: bitmap_scan.induct)
  case (1 bm i n)
  show ?case
  proof (cases "i < n")
    case False
    then have "bitmap_scan bm i n = Scan_none" by (subst bitmap_scan.simps) simp
    then show ?thesis using False "1.prems" by auto
  next
    case True
    show ?thesis
    proof (cases "bm ! i = 0xFF")
      case full: True
      have row: "bit (bm ! (g div 8)) (g mod 8)" if "8 * i \<le> g" "g < 8 * Suc i" for g
      proof -
        have "g div 8 = i" using that by auto
        then show ?thesis using full by (simp add: byte_full)
      qed
      have eq: "bitmap_scan bm i n = bitmap_scan bm (i + 1) n"
        using True full "1.prems" by (subst bitmap_scan.simps) simp
      have all: "bit (bm ! (g div 8)) (g mod 8)"
        if "\<forall>g. 8 * (i + 1) \<le> g \<and> g < m \<longrightarrow> bit (bm ! (g div 8)) (g mod 8)" "8 * i \<le> g" "g < m"
        for g m using that row [of g] by (cases "g < 8 * Suc i") auto
      from "1.IH"(2) True full "1.prems"
      consider f where "bitmap_scan bm (i + 1) n = Scan_found f" "8 * (i + 1) \<le> f" "f < 8 * n"
          "\<not> bit (bm ! (f div 8)) (f mod 8)"
          "\<forall>g. 8 * (i + 1) \<le> g \<and> g < f \<longrightarrow> bit (bm ! (g div 8)) (g mod 8)"
        | "bitmap_scan bm (i + 1) n = Scan_none"
          "\<forall>g. 8 * (i + 1) \<le> g \<and> g < 8 * n \<longrightarrow> bit (bm ! (g div 8)) (g mod 8)"
        by auto
      then show ?thesis
      proof cases
        case (1 f)
        then show ?thesis unfolding eq using all [OF 1(5)]
          by (intro disjI1 exI [of _ f]) auto
      next
        case 2
        then show ?thesis unfolding eq using all [OF 2(2)] by auto
      qed
    next
      case False
      then obtain j0 where "j0 < 8" "\<not> bit (bm ! i) j0" by (auto simp: byte_full)
      then obtain j where j: "find (\<lambda>j. bm ! i AND push_bit j 1 = 0) [0..<8] = Some j"
        by (cases "find (\<lambda>j. bm ! i AND push_bit j 1 = 0) [0..<8]") (auto simp: find_None_iff byte_test)
      then have jj: "j < 8" "\<not> bit (bm ! i) j" "\<forall>k < j. bit (bm ! i) k"
        by (auto simp: find_upt_Some byte_test)
      have "bitmap_scan bm i n = Scan_found (i * 8 + j)"
        using True False j "1.prems" by (subst bitmap_scan.simps) simp
      moreover have "bit (bm ! (g div 8)) (g mod 8)" if lo: "8 * i \<le> g" and hi: "g < i * 8 + j" for g
      proof -
        obtain k where k: "g = 8 * i + k" using lo by (auto simp: le_iff_add)
        with hi have "k < j" by simp
        with k have "g div 8 = i" "g mod 8 < j" using jj(1) by auto
        then show ?thesis using jj(3) by simp
      qed
      ultimately show ?thesis using jj True
        by (intro disjI1 exI [of _ "i * 8 + j"]) auto
    qed
  qed
qed

section \<open>Allocation and release\<close>

text \<open>The two outcomes of an allocation: the least free frame below the scan limit, or none.\<close>

lemma scan_cases:
  assumes "pmm_inv s"
  obtains (found) f where "bitmap_first_free s = Scan_found f" "f < scan_limit s" "frame_free s f"
      "\<And>g. g < f \<Longrightarrow> \<not> frame_free s g" "0 < f" "f < 32784"
    | (none) "bitmap_first_free s = Scan_none" "\<And>g. g < scan_limit s \<Longrightarrow> \<not> frame_free s g"
proof -
  let ?n = "unat (total_frames s div 8)"
  have n: "?n = unat (total_frames s) div 8" by (simp add: unat_div_distrib)
  have len: "?n \<le> length (frame_bitmap s)" using assms by (auto simp: pmm_inv_def n)
  have lim: "8 * ?n = scan_limit s" by (simp add: n scan_limit_def)
  have small: "scan_limit s \<le> 32784" using assms by (auto simp: scan_limit_def pmm_inv_def)
  have ff: "frame_free s g \<longleftrightarrow> \<not> bit (frame_bitmap s ! (g div 8)) (g mod 8)" if "g < scan_limit s" for g
  proof -
    have "g div 8 < ?n" using that lim by (simp add: div_less_iff_less_mult)
    then show ?thesis using len by (simp add: frame_free_def)
  qed
  from bitmap_scan_spec [OF len, of 0] lim
  consider f where "bitmap_first_free s = Scan_found f" "f < scan_limit s"
      "\<not> bit (frame_bitmap s ! (f div 8)) (f mod 8)"
      "\<forall>g < f. bit (frame_bitmap s ! (g div 8)) (g mod 8)"
    | "bitmap_first_free s = Scan_none" "\<forall>g < scan_limit s. bit (frame_bitmap s ! (g div 8)) (g mod 8)"
    by (auto simp: bitmap_first_free_def)
  then show thesis
  proof cases
    case (1 f)
    then have "frame_free s f" by (simp add: ff)
    moreover have "f \<noteq> 0" using \<open>frame_free s f\<close> assms by (metis pmm_inv_def)
    ultimately show thesis using 1 small by (intro found) (auto simp: ff)
  next
    case 2
    then show thesis by (intro none) (auto simp: ff)
  qed
qed

text \<open>What the allocator and the release may change: the bitmap, the counter and the console.\<close>

definition pmm_erase :: "'a pmm_state_scheme \<Rightarrow> 'a pmm_state_scheme" where
  "pmm_erase s = (console_erase s)\<lparr>frame_bitmap := [], used_frames := 0\<rparr>"

lemma pmm_erase_fields:
  assumes "pmm_erase s' = pmm_erase s"
  shows "mem s' = mem s" "total_frames s' = total_frames s" "sym s' = sym s" "cpu s' = cpu s"
    "handlers s' = handlers s"
proof -
  have "f (pmm_erase s') = f (pmm_erase s)" for f :: "'a pmm_state_scheme \<Rightarrow> 'b"
    using assms by simp
  from this [of mem] this [of total_frames] this [of sym] this [of cpu] this [of handlers]
  show "mem s' = mem s" "total_frames s' = total_frames s" "sym s' = sym s" "cpu s' = cpu s"
    "handlers s' = handlers s"
    by (simp_all add: pmm_erase_def console_erase_def)
qed

lemma pmm_erase_console: "console_erase s' = console_erase s \<Longrightarrow> pmm_erase s' = pmm_erase s"
  by (simp add: pmm_erase_def)

lemma pmm_erase_upd [simp]:
  "pmm_erase (s\<lparr>used_frames := u\<rparr>) = pmm_erase s" "pmm_erase (s\<lparr>frame_bitmap := b\<rparr>) = pmm_erase s"
  "pmm_erase (add_fault f s) = pmm_erase s" "pmm_erase (kprintf fmt args s) = pmm_erase s"
  by (simp add: pmm_erase_def console_erase_def, simp add: pmm_erase_def console_erase_def, simp_all add: pmm_erase_def)

lemma pmm_erase_bitmap [simp]:
  "pmm_erase (bitmap_set f s) = pmm_erase s" "pmm_erase (bitmap_clear f s) = pmm_erase s"
  "bitmap_test f s = (b, s') \<Longrightarrow> pmm_erase s' = pmm_erase s"
proof -
  show "pmm_erase (bitmap_set f s) = pmm_erase s" unfolding bitmap_set_def Let_def by (simp split: if_split)
  show "pmm_erase (bitmap_clear f s) = pmm_erase s" unfolding bitmap_clear_def Let_def by (simp split: if_split)
  show "bitmap_test f s = (b, s') \<Longrightarrow> pmm_erase s' = pmm_erase s" by (auto simp: bitmap_test_def Let_def split: if_splits)
qed

text \<open>Inside the bitmap, setting and clearing a bit change one byte and nothing else.\<close>

lemma bitmap_set_in:
  assumes "f < 32784" and "length (frame_bitmap s) = 4098"
  shows "bitmap_set (of_nat f) s =
    s\<lparr>frame_bitmap := (frame_bitmap s)[f div 8 := frame_bitmap s ! (f div 8) OR push_bit (f mod 8) 1]\<rparr>"
proof -
  have "f div 8 < length (frame_bitmap s)" "f < 4294967296" using assms by auto
  then show ?thesis unfolding bitmap_set_def Let_def frame_index [OF \<open>f < 4294967296\<close>] by (simp only: if_True)
qed

lemma bitmap_clear_in:
  assumes "f < 32784" and "length (frame_bitmap s) = 4098"
  shows "bitmap_clear (of_nat f) s =
    s\<lparr>frame_bitmap := (frame_bitmap s)[f div 8 := frame_bitmap s ! (f div 8) AND NOT (push_bit (f mod 8) 1)]\<rparr>"
proof -
  have "f div 8 < length (frame_bitmap s)" "f < 4294967296" using assms by auto
  then show ?thesis unfolding bitmap_clear_def Let_def frame_index [OF \<open>f < 4294967296\<close>] by (simp only: if_True)
qed

lemma frame_free_used [simp]:
  "frame_free (s\<lparr>used_frames := u\<rparr>) = frame_free s" "frame_free (s\<lparr>total_frames := u\<rparr>) = frame_free s"
  by (simp_all add: fun_eq_iff frame_free_def)

lemma frame_free_bound: "length (frame_bitmap s) = 4098 \<Longrightarrow> frame_free s f \<Longrightarrow> f < 32784"
  by (auto simp: frame_free_def)

lemma free_frames_finite: "length (frame_bitmap s) = 4098 \<Longrightarrow> finite (free_frames s)"
  by (rule finite_subset [of _ "{..<32784}"]) (auto simp: free_frames_def dest: frame_free_bound)

lemma free_frames_set:
  "f < 32784 \<Longrightarrow> length (frame_bitmap s) = 4098 \<Longrightarrow> free_frames (bitmap_set (of_nat f) s) = free_frames s - {f}"
  by (auto simp: free_frames_def bitmap_set_frames)

lemma free_frames_clear:
  "f < 32784 \<Longrightarrow> length (frame_bitmap s) = 4098 \<Longrightarrow> free_frames (bitmap_clear (of_nat f) s) = insert f (free_frames s)"
  by (auto simp: free_frames_def bitmap_clear_frames)

lemma free_frames_upd [simp]:
  "free_frames (s\<lparr>used_frames := u\<rparr>) = free_frames s" "free_frames (s\<lparr>total_frames := u\<rparr>) = free_frames s"
  "free_frames (kprintf fmt args s) = free_frames s"
  by (simp_all add: free_frames_def)

lemma pmm_alloc_cases:
  assumes "pmm_inv s"
  obtains (frame) f where
      "pmm_alloc_frame s = (of_nat f * 4096, (bitmap_set (of_nat f) s)\<lparr>used_frames := used_frames s + 1\<rparr>)"
      "f < scan_limit s" "frame_free s f" "\<And>g. g < f \<Longrightarrow> \<not> frame_free s g" "0 < f" "f < 32784"
    | (none) "pmm_alloc_frame s = (0, kprintf ''PMM: Out of memory!\<newline>'' [] s)"
      "\<And>g. g < scan_limit s \<Longrightarrow> \<not> frame_free s g"
  using assms
proof (cases rule: scan_cases)
  case (found f)
  have "length (frame_bitmap s) = 4098" using assms by (simp add: pmm_inv_def)
  then have "used_frames (bitmap_set (of_nat f) s) = used_frames s" using found by (simp add: bitmap_set_in)
  then show thesis using found by (intro frame [of f]) (auto simp: pmm_alloc_frame_def Let_def)
next
  case none
  then show thesis by (intro that(2)) (auto simp: pmm_alloc_frame_def)
qed

lemma frame_addr:
  assumes "f < 32784"
  shows "unat (of_nat f * 4096 :: u32) = f * 4096" and "of_nat f * 4096 div 4096 = (of_nat f :: u32)"
proof -
  have "unat (of_nat (f * 4096) :: u32) = f * 4096" using assms by (intro u32_of_nat) simp
  then show 1: "unat (of_nat f * 4096 :: u32) = f * 4096" by simp
  have "unat (of_nat f :: u32) = f" using assms by (intro u32_of_nat) simp
  then show "of_nat f * 4096 div 4096 = (of_nat f :: u32)"
    by (simp add: u32_eq_iff unat_div_distrib 1)
qed

lemma term_inv_pmm [simp]:
  "term_inv (s\<lparr>frame_bitmap := b\<rparr>) = term_inv s" "term_inv (s\<lparr>used_frames := u\<rparr>) = term_inv s"
  "term_inv (s\<lparr>total_frames := u\<rparr>) = term_inv s" "term_inv (s\<lparr>mem := m\<rparr>) = term_inv s"
  by (simp_all add: term_inv_def)

lemma pmm_inv_mem [simp]: "pmm_inv (s\<lparr>mem := m\<rparr>) = pmm_inv s"
  by (simp add: pmm_inv_def frame_free_def)

lemma free_frames_mem [simp]: "free_frames (s\<lparr>mem := m\<rparr>) = free_frames s"
  by (simp add: free_frames_def frame_free_def)

lemma scan_limit_upd [simp]:
  "scan_limit (s\<lparr>mem := m\<rparr>) = scan_limit s" "scan_limit (s\<lparr>used_frames := u\<rparr>) = scan_limit s"
  "scan_limit (s\<lparr>frame_bitmap := b\<rparr>) = scan_limit s" "scan_limit (kprintf fmt args s) = scan_limit s"
  by (simp_all add: scan_limit_def)

lemma pmm_inv_kprintf: "kprintf_ok fmt args \<Longrightarrow> pmm_inv s \<Longrightarrow> pmm_inv (kprintf fmt args s)"
  by (simp add: pmm_inv_def kprintf_safe)

lemma pmm_inv_set:
  assumes "pmm_inv s" and "f < 32784"
  shows "pmm_inv ((bitmap_set (of_nat f) s)\<lparr>used_frames := u\<rparr>)"
    and "faults ((bitmap_set (of_nat f) s)\<lparr>used_frames := u\<rparr>) = faults s"
proof -
  have len: "length (frame_bitmap s) = 4098" using assms by (simp add: pmm_inv_def)
  have "\<not> frame_free (bitmap_set (of_nat f) s) 0"
    using assms len by (simp add: bitmap_set_frames pmm_inv_def)
  then show "pmm_inv ((bitmap_set (of_nat f) s)\<lparr>used_frames := u\<rparr>)"
    using assms len by (simp add: pmm_inv_def bitmap_set_in)
  show "faults ((bitmap_set (of_nat f) s)\<lparr>used_frames := u\<rparr>) = faults s"
    using assms len by (simp add: bitmap_set_in)
qed

lemma pmm_alloc_inv:
  assumes "pmm_inv s" and "pmm_alloc_frame s = (a, s')"
  shows "pmm_inv s'" and "faults s' = faults s" and "pmm_erase s' = pmm_erase s"
proof -
  have "pmm_inv s' \<and> faults s' = faults s \<and> pmm_erase s' = pmm_erase s"
    using assms(1)
  proof (cases rule: pmm_alloc_cases)
    case (frame f)
    then show ?thesis using assms pmm_inv_set [of s f] by auto
  next
    case none
    then show ?thesis using assms by (auto simp: pmm_inv_kprintf kprintf_safe pmm_inv_def)
  qed
  then show "pmm_inv s'" "faults s' = faults s" "pmm_erase s' = pmm_erase s" by auto
qed

lemma pmm_free_cases:
  assumes "pmm_inv s" and "f < 32784" and "unat a div 4096 = f"
  shows "pmm_free_frame a s =
    (if frame_free s f then s
     else (bitmap_clear (of_nat f) s)\<lparr>used_frames := used_frames s - 1\<rparr>)"
proof -
  have len: "length (frame_bitmap s) = 4098" using assms by (simp add: pmm_inv_def)
  have f: "a div 4096 = of_nat f" "unat (a div 4096) = f" 
    using assms by (simp_all add: u32_eq_iff unat_div_distrib u32_of_nat)
  have "used_frames (bitmap_clear (of_nat f) s) = used_frames s"
    using assms len by (simp add: bitmap_clear_in)
  then show ?thesis
    using assms len f by (simp add: pmm_free_frame_def Let_def bitmap_test_frames)
qed

text \<open>Setting the bit of a free frame and clearing it again restores the byte.\<close>

lemma byte_set_clear:
  "\<not> bit (b :: u8) k \<Longrightarrow> (b OR push_bit k 1) AND NOT (push_bit k 1) = b"
  by (rule bit_word_eqI) (auto simp: bit_simps)

lemma bitmap_set_clear:
  assumes "f < 32784" and "length (frame_bitmap s) = 4098" and "frame_free s f"
  shows "(bitmap_clear (of_nat f) ((bitmap_set (of_nat f) s)\<lparr>used_frames := u\<rparr>))\<lparr>used_frames := used_frames s\<rparr> = s"
proof -
  let ?k = "f mod 8" and ?b = "frame_bitmap s ! (f div 8)"
  have i: "f div 8 < length (frame_bitmap s)" using assms by auto
  have b: "(?b OR push_bit ?k 1) AND NOT (push_bit ?k 1) = ?b"
    using assms(3) by (intro byte_set_clear) (simp add: frame_free_def)
  have "bitmap_clear (of_nat f) ((bitmap_set (of_nat f) s)\<lparr>used_frames := u\<rparr>)
      = s\<lparr>frame_bitmap := (frame_bitmap s)[f div 8 := ?b], used_frames := u\<rparr>"
    unfolding bitmap_set_in [OF assms(1,2)]
    by (subst bitmap_clear_in) (use assms i b in simp_all)
  then show ?thesis by simp
qed

section \<open>The contract of a frame allocator\<close>

text \<open>What \<^verbatim>\<open>paging.c\<close>, \<^verbatim>\<open>kheap.c\<close> and \<^verbatim>\<open>vmm.c\<close> rely on when they ask for frames: an address
  that is handed out was available and no longer is, and giving it back makes it available.\<close>

fun take_frames :: "('s \<Rightarrow> u32 \<times> 's) \<Rightarrow> nat \<Rightarrow> 's \<Rightarrow> u32 list \<times> 's" where
  "take_frames alloc 0 s = ([], s)"
| "take_frames alloc (Suc n) s =
     (let (a, s1) = alloc s; (as, s2) = take_frames alloc n s1 in (a # as, s2))"

locale frame_source =
  fixes alloc :: "'s \<Rightarrow> u32 \<times> 's"
    and avail :: "'s \<Rightarrow> u32 set"
    and inv :: "'s \<Rightarrow> bool"
  assumes alloc_inv: "inv s \<Longrightarrow> alloc s = (a, s') \<Longrightarrow> inv s'"
    and alloc_takes: "inv s \<Longrightarrow> alloc s = (a, s') \<Longrightarrow> a \<noteq> 0 \<Longrightarrow> a \<in> avail s \<and> avail s' = avail s - {a}"
    and alloc_fails: "inv s \<Longrightarrow> alloc s = (0, s') \<Longrightarrow> avail s' = avail s"
    and avail_aligned: "inv s \<Longrightarrow> a \<in> avail s \<Longrightarrow> unat a mod 4096 = 0"
begin

lemma take_frames_spec:
  "inv s \<Longrightarrow> take_frames alloc n s = (as, s') \<Longrightarrow> 0 \<notin> set as \<Longrightarrow>
   length as = n \<and> distinct as \<and> set as \<subseteq> avail s \<and> avail s' = avail s - set as \<and> inv s'"
proof (induction n arbitrary: s as)
  case (Suc n)
  obtain a s1 where a: "alloc s = (a, s1)" by fastforce
  obtain bs s2 where bs: "take_frames alloc n s1 = (bs, s2)" by fastforce
  have as: "as = a # bs" "s' = s2" using Suc.prems(2) a bs by auto
  have s1: "inv s1" "a \<in> avail s" "avail s1 = avail s - {a}"
    using alloc_inv [OF Suc.prems(1) a] alloc_takes [OF Suc.prems(1) a] Suc.prems(3) as by auto
  have "length bs = n \<and> distinct bs \<and> set bs \<subseteq> avail s1 \<and> avail s2 = avail s1 - set bs \<and> inv s2"
    using Suc.IH [OF s1(1)] bs Suc.prems(3) as by auto
  then show ?case using as s1 by auto
qed simp

end

locale frame_allocator = frame_source alloc avail inv
  for alloc :: "'s \<Rightarrow> u32 \<times> 's" and avail :: "'s \<Rightarrow> u32 set" and inv :: "'s \<Rightarrow> bool" +
  fixes release :: "u32 \<Rightarrow> 's \<Rightarrow> 's"
    and managed :: "u32 \<Rightarrow> bool"
  assumes avail_managed: "inv s \<Longrightarrow> a \<in> avail s \<Longrightarrow> managed a"
    and release_inv: "inv s \<Longrightarrow> managed a \<Longrightarrow> inv (release a s)"
    and release_gives: "inv s \<Longrightarrow> managed a \<Longrightarrow> avail (release a s) = insert a (avail s)"
begin

lemma release_alloc:
  assumes "inv s" and "alloc s = (a, s')" and "a \<noteq> 0"
  shows "avail (release a s') = avail s"
proof -
  have a: "a \<in> avail s" "avail s' = avail s - {a}" using alloc_takes [OF assms] by auto
  have "avail (release a s') = insert a (avail s')"
    by (rule release_gives [OF alloc_inv [OF assms(1,2)] avail_managed [OF assms(1) a(1)]])
  then show ?thesis using a by auto
qed

end

definition managed_frame :: "u32 \<Rightarrow> bool" where
  "managed_frame a \<longleftrightarrow> a \<noteq> 0 \<and> unat a mod 4096 = 0 \<and> unat a div 4096 < 32784"

definition avail_frames :: "'a pmm_state_scheme \<Rightarrow> u32 set" where
  "avail_frames s = (\<lambda>f. of_nat f * 4096) ` free_frames s"

lemma frame_div_eq:
  assumes "unat (a :: u32) mod 4096 = 0" and "f < 32784"
  shows "unat a div 4096 = f \<longleftrightarrow> a = of_nat f * 4096"
proof -
  have "unat a = unat a div 4096 * 4096" using assms(1) by (metis add_0_right div_mult_mod_eq)
  then have "unat a div 4096 = f \<longleftrightarrow> unat a = f * 4096" by auto
  then show ?thesis using frame_addr(1) [OF assms(2)] by (simp add: u32_eq_iff)
qed

lemma avail_frames_iff:
  assumes "length (frame_bitmap s) = 4098"
  shows "a \<in> avail_frames s \<longleftrightarrow> unat a mod 4096 = 0 \<and> frame_free s (unat a div 4096)"
proof
  assume "a \<in> avail_frames s"
  then obtain f where f: "frame_free s f" "a = of_nat f * 4096" by (auto simp: avail_frames_def free_frames_def)
  then show "unat a mod 4096 = 0 \<and> frame_free s (unat a div 4096)"
    using frame_free_bound [OF assms f(1)] by (simp add: frame_addr)
next
  assume a: "unat a mod 4096 = 0 \<and> frame_free s (unat a div 4096)"
  then have "a = of_nat (unat a div 4096) * 4096"
    using frame_free_bound [OF assms] by (intro iffD1 [OF frame_div_eq refl]) auto
  then show "a \<in> avail_frames s" using a by (auto simp: avail_frames_def free_frames_def)
qed

lemma managed_frameE:
  assumes "managed_frame a"
  obtains f where "a = of_nat f * 4096" "0 < f" "f < 32784"
proof
  let ?f = "unat a div 4096"
  show f: "?f < 32784" "a = of_nat ?f * 4096"
    using assms frame_div_eq [of a ?f] by (auto simp: managed_frame_def)
  show "0 < ?f" using f(2) assms by (cases "?f = 0") (auto simp: managed_frame_def)
qed

lemma pmm_alloc_avail:
  assumes "pmm_inv s" and "pmm_alloc_frame s = (a, s')"
  shows "a \<noteq> 0 \<Longrightarrow> a \<in> avail_frames s \<and> avail_frames s' = avail_frames s - {a}"
    and "a = 0 \<Longrightarrow> avail_frames s' = avail_frames s"
proof -
  have len: "length (frame_bitmap s) = 4098" "length (frame_bitmap s') = 4098"
    using assms pmm_alloc_inv by (auto simp: pmm_inv_def)
  have "(a \<noteq> 0 \<longrightarrow> a \<in> avail_frames s \<and> avail_frames s' = avail_frames s - {a})
      \<and> (a = 0 \<longrightarrow> avail_frames s' = avail_frames s)"
    using assms(1)
  proof (cases rule: pmm_alloc_cases)
    case (frame f)
    then have a: "a = of_nat f * 4096" "unat a = f * 4096" and free: "\<And>g. frame_free s' g \<longleftrightarrow> frame_free s g \<and> g \<noteq> f"
      using assms len by (auto simp: frame_addr bitmap_set_frames)
    then have "a \<noteq> 0" using frame(5) by (metis mult_eq_0_iff not_less0 unat_0 zero_neq_numeral)
    moreover have "x \<in> avail_frames s' \<longleftrightarrow> x \<in> avail_frames s - {a}" for x
      using frame_div_eq [of x f] frame(6) by (auto simp: avail_frames_iff len free a(1))
    moreover have "a \<in> avail_frames s"
      using frame(3) a(1) by (auto simp: avail_frames_def free_frames_def)
    ultimately show ?thesis by blast
  next
    case none
    then show ?thesis using assms by (auto simp: avail_frames_def)
  qed
  then show "a \<noteq> 0 \<Longrightarrow> a \<in> avail_frames s \<and> avail_frames s' = avail_frames s - {a}"
    and "a = 0 \<Longrightarrow> avail_frames s' = avail_frames s" by auto
qed

lemma pmm_free_inv:
  assumes "pmm_inv s" and "managed_frame a"
  shows "pmm_inv (pmm_free_frame a s)" and "faults (pmm_free_frame a s) = faults s"
    and "avail_frames (pmm_free_frame a s) = insert a (avail_frames s)"
    and "pmm_erase (pmm_free_frame a s) = pmm_erase s"
proof -
  obtain f where f: "a = of_nat f * 4096" "0 < f" "f < 32784" using assms(2) by (rule managed_frameE)
  have len: "length (frame_bitmap s) = 4098" using assms by (simp add: pmm_inv_def)
  have "unat a div 4096 = f" using f by (simp add: frame_addr)
  note eq = pmm_free_cases [OF assms(1) f(3) this]
  have "\<not> frame_free (bitmap_clear (of_nat f) s) 0"
    using assms(1) len f by (simp add: bitmap_clear_frames pmm_inv_def)
  then show "pmm_inv (pmm_free_frame a s)"
    using assms(1) len f unfolding eq by (simp add: pmm_inv_def bitmap_clear_in)
  show "faults (pmm_free_frame a s) = faults s" using len f unfolding eq by (simp add: bitmap_clear_in)
  have "free_frames (pmm_free_frame a s) = insert f (free_frames s)"
    using len f unfolding eq by (auto simp: free_frames_clear) (simp_all add: free_frames_def)
  then show "avail_frames (pmm_free_frame a s) = insert a (avail_frames s)"
    using f(1) by (simp add: avail_frames_def)
  show "pmm_erase (pmm_free_frame a s) = pmm_erase s" unfolding eq by simp
qed

lemma frame_allocator_pmm:
  "frame_allocator (pmm_alloc_frame :: 'a pmm_state_scheme \<Rightarrow> _) avail_frames pmm_inv pmm_free_frame managed_frame"
proof
  fix s :: "'a pmm_state_scheme" and a s'
  assume inv: "pmm_inv s"
  then have len: "length (frame_bitmap s) = 4098" by (simp add: pmm_inv_def)
  show "pmm_inv s'" if "pmm_alloc_frame s = (a, s')" using pmm_alloc_inv inv that by blast
  show "a \<in> avail_frames s \<and> avail_frames s' = avail_frames s - {a}"
    if "pmm_alloc_frame s = (a, s')" "a \<noteq> 0" using pmm_alloc_avail inv that by blast
  show "avail_frames s' = avail_frames s" if "pmm_alloc_frame s = (0, s')"
    using pmm_alloc_avail inv that by blast
  show managed: "managed_frame a" if a: "a \<in> avail_frames s"
  proof -
    have "unat a mod 4096 = 0" "frame_free s (unat a div 4096)"
      using a by (auto simp: avail_frames_iff len)
    moreover have "a \<noteq> 0" using calculation inv by (auto simp: pmm_inv_def)
    ultimately show ?thesis using frame_free_bound [OF len] by (simp add: managed_frame_def)
  qed
  show "unat a mod 4096 = 0" if "a \<in> avail_frames s" using managed [OF that] by (simp add: managed_frame_def)
  show "pmm_inv (pmm_free_frame a s)" if "managed_frame a" using pmm_free_inv(1) inv that by blast
  show "avail_frames (pmm_free_frame a s) = insert a (avail_frames s)" if "managed_frame a"
    using pmm_free_inv(3) inv that by blast
qed

interpretation pmm: frame_allocator "pmm_alloc_frame :: 'a pmm_state_scheme \<Rightarrow> _" avail_frames pmm_inv
    pmm_free_frame managed_frame
  by (rule frame_allocator_pmm)

section \<open>The memory map\<close>

text \<open>An entry of the Multiboot memory map as the kernel reads it, and the memory holding a list
  of entries from a pointer to the end of the map. The frames of an available entry are those
  whose 4096 bytes lie in it.\<close>

record mmap_entry =
  entry_size :: u32
  entry_base :: u32
  entry_length :: u32
  entry_type :: u32

fun mmap_at :: "memory \<Rightarrow> u32 \<Rightarrow> u32 \<Rightarrow> mmap_entry list \<Rightarrow> bool" where
  "mmap_at m p mmap_end [] = (\<not> p < mmap_end)"
| "mmap_at m p mmap_end (e # es) =
     (p < mmap_end \<and> mmap_size m p = entry_size e \<and> mmap_base m p = entry_base e
      \<and> mmap_length m p = entry_length e \<and> mmap_type m p = entry_type e
      \<and> mmap_at m (p + entry_size e + 4) mmap_end es)"

definition entry_frames :: "mmap_entry \<Rightarrow> nat set" where
  "entry_frames e =
     (if entry_type e = MULTIBOOT_MEMORY_AVAILABLE
      then {f. unat (entry_base e) \<le> f * 4096 \<and> f * 4096 + 4096 \<le> unat (entry_base e) + unat (entry_length e)}
      else {})"

definition released :: "u32 \<Rightarrow> nat set \<Rightarrow> nat set" where
  "released ke F = {f \<in> F. 0x100000 \<le> f * 4096 \<and> unat ke \<le> f * 4096}"

definition usable_frames :: "u32 \<Rightarrow> mmap_entry list \<Rightarrow> nat set" where
  "usable_frames kernel_end es = released kernel_end (\<Union>e \<in> set es. entry_frames e)"

text \<open>The entries end below 4 GB, as the kernel's 32-bit arithmetic needs, and the available ones
  below the 128 MB and 64 KB the bitmap covers.\<close>

definition entry_ok :: "mmap_entry \<Rightarrow> bool" where
  "entry_ok e \<longleftrightarrow> entry_type e = MULTIBOOT_MEMORY_AVAILABLE
     \<longrightarrow> unat (entry_base e) + unat (entry_length e) \<le> 32784 * 4096"

text \<open>Without the second condition: the arithmetic does not wrap.\<close>

definition entry_fits :: "mmap_entry \<Rightarrow> bool" where
  "entry_fits e \<longleftrightarrow> entry_type e = MULTIBOOT_MEMORY_AVAILABLE
     \<longrightarrow> unat (entry_base e) + unat (entry_length e) + 4096 \<le> 4294967296"

text \<open>The frames of an entry that the guard of the loop lets through.\<close>

definition guarded :: "u32 \<Rightarrow> mmap_entry \<Rightarrow> nat set" where
  "guarded ke e = released ke (entry_frames e \<inter> {..<32786})"

text \<open>The pointers of a map are distinct, since a repeated one would give a walk without end: so
  the fuel of the walk is never what stops it.\<close>

fun entry_ptrs :: "u32 \<Rightarrow> mmap_entry list \<Rightarrow> u32 list" where
  "entry_ptrs p [] = []"
| "entry_ptrs p (e # es) = p # entry_ptrs (p + entry_size e + 4) es"

lemma mmap_at_unique: "mmap_at m p e es \<Longrightarrow> mmap_at m p e es' \<Longrightarrow> es = es'"
proof (induction es arbitrary: p es')
  case Nil then show ?case by (cases es') auto
next
  case (Cons x xs) then show ?case by (cases es') (auto intro: mmap_entry.equality)
qed

lemma entry_ptrs_suffix:
  "mmap_at m p e es \<Longrightarrow> q \<in> set (entry_ptrs p es) \<Longrightarrow> \<exists>es'. mmap_at m q e es' \<and> length es' \<le> length es"
proof (induction es arbitrary: p)
  case (Cons x xs)
  show ?case
  proof (cases "q = p")
    case True then show ?thesis using Cons.prems(1) by blast
  next
    case False
    then obtain es' where "mmap_at m q e es'" "length es' \<le> length xs" using Cons by auto
    then show ?thesis by (auto intro: le_SucI)
  qed
qed simp

lemma entry_ptrs_distinct: "mmap_at m p e es \<Longrightarrow> distinct (entry_ptrs p es)"
proof (induction es arbitrary: p)
  case (Cons x xs)
  have rest: "mmap_at m (p + entry_size x + 4) e xs" using Cons.prems by simp
  have "p \<notin> set (entry_ptrs (p + entry_size x + 4) xs)"
  proof
    assume "p \<in> set (entry_ptrs (p + entry_size x + 4) xs)"
    then obtain es' where "mmap_at m p e es'" "length es' \<le> length xs"
      using entry_ptrs_suffix [OF rest] by blast
    then show False using mmap_at_unique [OF Cons.prems] by fastforce
  qed
  then show ?case using Cons.IH [OF rest] by simp
qed simp

lemma mmap_at_length:
  assumes "mmap_at m p e es"
  shows "length es \<le> 4294967296"
proof -
  have "length (entry_ptrs p es) = length es" by (induction es arbitrary: p) auto
  moreover have "card (set (entry_ptrs p es)) = length (entry_ptrs p es)"
    using assms by (intro distinct_card entry_ptrs_distinct)
  moreover have "card (set (entry_ptrs p es)) \<le> card (UNIV :: u32 set)" by (intro card_mono) auto
  moreover have "card (UNIV :: u32 set) = 4294967296" by (simp add: card_word)
  ultimately show ?thesis by simp
qed

text \<open>The initialisation between two states: memory and linker symbols kept, the frames of \<open>F\<close> that have a
  bit freed, \<open>n\<close> frames counted, and \<open>k\<close> writes beyond the bitmap.\<close>

definition pmm_grows :: "'a pmm_state_scheme \<Rightarrow> 'a pmm_state_scheme \<Rightarrow> nat set \<Rightarrow> nat \<Rightarrow> nat \<Rightarrow> bool" where
  "pmm_grows s s' F n k \<longleftrightarrow> mem s' = mem s \<and> sym s' = sym s \<and> used_frames s' = used_frames s
     \<and> faults s' = replicate k Out_Of_Bounds @ faults s \<and> term_inv s' \<and> length (frame_bitmap s') = 4098
     \<and> free_frames s' = free_frames s \<union> {f \<in> F. f < 32784} \<and> total_frames s' = total_frames s + of_nat n"

lemma pmm_grows_refl: "term_inv s \<Longrightarrow> length (frame_bitmap s) = 4098 \<Longrightarrow> pmm_grows s s {} 0 0"
  by (simp add: pmm_grows_def)

lemma pmm_grows_trans: "pmm_grows s s1 F n k \<Longrightarrow> pmm_grows s1 s2 G m l \<Longrightarrow> pmm_grows s s2 (F \<union> G) (n + m) (k + l)"
  by (auto simp: pmm_grows_def replicate_add [symmetric] add.commute)

lemma pmm_grows_kprintf:
  "term_inv s \<Longrightarrow> length (frame_bitmap s) = 4098 \<Longrightarrow> kprintf_ok fmt args \<Longrightarrow> pmm_grows s (kprintf fmt args s) {} 0 0"
  by (simp add: pmm_grows_def kprintf_safe)

lemma bitmap_clear_out:
  assumes "length (frame_bitmap s) = 4098" and "32784 \<le> f" and "f < 32786"
  shows "bitmap_clear (of_nat f) s = add_fault Out_Of_Bounds s"
proof -
  have "f = 32784 \<or> f = 32785" using assms(2,3) by auto
  then show ?thesis using assms(1) by (auto simp: bitmap_clear_def Let_def unat_div_distrib)
qed

lemma pmm_release_grows:
  fixes ke :: u32
  assumes "term_inv s" and "length (frame_bitmap s) = 4098" and "f < 32786"
  defines "R \<equiv> released ke {f}"
  shows "pmm_grows s (pmm_release ke f s) R (card R) (card (R \<inter> {32784..}))"
proof -
  have a: "unat (of_nat f * 4096 :: u32) = f * 4096" using assms(3) u32_of_nat [of "f * 4096"] by simp
  have lt: "(of_nat f * 4096 < (0x100000 :: u32) \<or> of_nat f * 4096 < ke)
      \<longleftrightarrow> \<not> (0x100000 \<le> f * 4096 \<and> unat ke \<le> f * 4096)"
    unfolding u32_less_iff a by (simp add: not_le)
  show ?thesis
  proof (cases "0x100000 \<le> f * 4096 \<and> unat ke \<le> f * 4096")
    case True
    then have R: "R = {f}" by (auto simp: R_def released_def)
    have eq: "pmm_release ke f s = (bitmap_clear (of_nat f) s)\<lparr>total_frames := total_frames (bitmap_clear (of_nat f) s) + 1\<rparr>"
      using True by (simp add: pmm_release_def lt Let_def del: not_less)
    show ?thesis
    proof (cases "f < 32784")
      case low: True
      then have "free_frames (pmm_release ke f s) = insert f (free_frames s)"
        unfolding eq using assms by (simp add: free_frames_clear)
      then show ?thesis using low assms unfolding eq R by (auto simp: pmm_grows_def bitmap_clear_in)
    next
      case False
      then have "bitmap_clear (of_nat f) s = add_fault Out_Of_Bounds s" using assms by (intro bitmap_clear_out) simp_all
      then show ?thesis using False assms(1,2) unfolding eq R pmm_grows_def
        by (auto simp: add_fault_def term_inv_def free_frames_def frame_free_def)
    qed
  next
    case False
    then have "pmm_release ke f s = s" unfolding pmm_release_def Let_def lt
      by (simp only: if_True not_False_eq_True)
    moreover have "R = {}" using False by (auto simp: R_def released_def)
    ultimately show ?thesis using pmm_grows_refl [OF assms(1,2)] by simp
  qed
qed

lemma released_Un: "released ke (A \<union> B) = released ke A \<union> released ke B"
  by (auto simp: released_def)

lemma pmm_release_fold:
  "term_inv s \<Longrightarrow> length (frame_bitmap s) = 4098 \<Longrightarrow> b \<le> 32786 \<Longrightarrow>
   pmm_grows s (fold (pmm_release ke) [a..<b] s) (released ke {a..<b}) (card (released ke {a..<b}))
     (card (released ke {a..<b} \<inter> {32784..}))"
proof (induction b)
  case 0 then show ?case by (simp add: pmm_grows_refl released_def)
next
  case (Suc b)
  show ?case
  proof (cases "a \<le> b")
    case False
    then show ?thesis using Suc.prems by (simp add: pmm_grows_refl released_def)
  next
    case True
    let ?s = "fold (pmm_release ke) [a..<b] s" and ?A = "released ke {a..<b}" and ?B = "released ke {b}"
    have IH: "pmm_grows s ?s ?A (card ?A) (card (?A \<inter> {32784..}))" using Suc by simp
    have step: "pmm_grows ?s (pmm_release ke b ?s) ?B (card ?B) (card (?B \<inter> {32784..}))"
      using IH Suc.prems by (intro pmm_release_grows) (auto simp: pmm_grows_def)
    have set: "released ke {a..<Suc b} = ?A \<union> ?B" using True by (auto simp: released_def less_Suc_eq)
    have fin: "finite ?A" "finite ?B" "?A \<inter> ?B = {}" by (auto simp: released_def)
    then have "card (released ke {a..<Suc b}) = card ?A + card ?B" unfolding set by (rule card_Un_disjoint)
    moreover have "card (released ke {a..<Suc b} \<inter> {32784..}) = card (?A \<inter> {32784..}) + card (?B \<inter> {32784..})"
      unfolding set Int_Un_distrib2 using fin by (intro card_Un_disjoint) auto
    ultimately show ?thesis using pmm_grows_trans [OF IH step] True unfolding set by simp
  qed
qed

lemma entry_frames_upt:
  assumes "entry_type e = 1" and "entry_fits e"
  shows "entry_frames e \<inter> {..<32786} = {unat ((entry_base e + 4096 - 1) div 4096) ..<
           min (unat ((entry_base e + entry_length e) div 4096)) 32786}"
proof -
  let ?b = "unat (entry_base e)" and ?l = "unat (entry_length e)"
  have le: "?b + ?l + 4096 \<le> 4294967296" using assms by (simp add: entry_fits_def)
  have st: "unat ((entry_base e + 4096 - 1) div 4096) = (?b + 4095) div 4096"
    using le by (simp add: unat_div_distrib u32_add)
  have en: "unat ((entry_base e + entry_length e) div 4096) = (?b + ?l) div 4096"
    using le by (simp add: unat_div_distrib u32_add)
  have "?b \<le> f * 4096 \<longleftrightarrow> (?b + 4095) div 4096 \<le> f" for f
    using less_eq_div_iff_mult_less_eq [of 4096 "Suc f" "?b + 4095"] by auto
  moreover have "f * 4096 + 4096 \<le> ?b + ?l \<longleftrightarrow> f < (?b + ?l) div 4096" for f
    using less_eq_div_iff_mult_less_eq [of 4096 "Suc f" "?b + ?l"] by auto
  ultimately show ?thesis unfolding st en using assms(1) by (auto simp: entry_frames_def)
qed

lemma pmm_add_region_grows:
  assumes "term_inv s" and "length (frame_bitmap s) = 4098" and "entry_type e = 1" and "entry_fits e"
  shows "pmm_grows s (pmm_add_region ke (entry_base e) (entry_length e) s)
    (guarded ke e) (card (guarded ke e)) (card (guarded ke e \<inter> {32784..}))"
proof -
  let ?k = "kprintf ''Available: 0x%x - 0x%x (%u KB)\<newline>'' [VInt (entry_base e),
      VInt (entry_base e + entry_length e), VInt (entry_length e div 1024)] s"
  have k: "pmm_grows s ?k {} 0 0" using assms by (intro pmm_grows_kprintf) auto
  then have "pmm_grows ?k (pmm_add_region ke (entry_base e) (entry_length e) s)
      (guarded ke e) (card (guarded ke e)) (card (guarded ke e \<inter> {32784..}))"
    unfolding pmm_add_region_def Let_def guarded_def entry_frames_upt [OF assms(3,4)]
    by (intro pmm_release_fold) (auto simp: pmm_grows_def)
  from pmm_grows_trans [OF k this] show ?thesis by simp
qed

lemma guarded_usable: "guarded ke x \<union> (usable_frames ke xs \<inter> {..<32786}) = usable_frames ke (x # xs) \<inter> {..<32786}"
  by (auto simp: usable_frames_def released_def guarded_def)

lemma mmap_walk_grows:
  "term_inv s \<Longrightarrow> length (frame_bitmap s) = 4098 \<Longrightarrow> mmap_at (mem s) p e es \<Longrightarrow>
   length es \<le> fuel \<Longrightarrow> (\<forall>x \<in> set es. entry_fits x) \<Longrightarrow>
   pmm_grows s (mmap_walk fuel ke p e s) (usable_frames ke es \<inter> {..<32786})
     (sum_list (map (\<lambda>x. card (guarded ke x)) es)) (sum_list (map (\<lambda>x. card (guarded ke x \<inter> {32784..})) es))"
proof (induction es arbitrary: s p fuel)
  case Nil
  then show ?case by (cases fuel) (auto simp: usable_frames_def released_def pmm_grows_refl)
next
  case (Cons x xs)
  obtain fu where fuel: "fuel = Suc fu" using Cons.prems(4) by (cases fuel) auto
  define s1 where "s1 = (if mmap_type (mem s) p = 1
      then pmm_add_region ke (mmap_base (mem s) p) (mmap_length (mem s) p) s else s)"
  have here: "pmm_grows s s1 (guarded ke x) (card (guarded ke x)) (card (guarded ke x \<inter> {32784..}))"
  proof (cases "entry_type x = 1")
    case True
    then show ?thesis using Cons.prems by (simp add: s1_def pmm_add_region_grows)
  next
    case False
    then show ?thesis using Cons.prems by (simp add: s1_def guarded_def entry_frames_def released_def pmm_grows_refl)
  qed
  have walk: "mmap_walk fuel ke p e s = mmap_walk fu ke (p + entry_size x + 4) e s1"
    using Cons.prems here by (simp add: fuel s1_def Let_def pmm_grows_def)
  have "pmm_grows s1 (mmap_walk fu ke (p + entry_size x + 4) e s1) (usable_frames ke xs \<inter> {..<32786})
      (sum_list (map (\<lambda>x. card (guarded ke x)) xs)) (sum_list (map (\<lambda>x. card (guarded ke x \<inter> {32784..})) xs))"
    using Cons.prems here fuel by (intro Cons.IH) (auto simp: pmm_grows_def)
  from pmm_grows_trans [OF here this] show ?case unfolding walk guarded_usable by simp
qed

text \<open>\<^verbatim>\<open>pmm_init\<close> on a well-formed memory map, from the state the loader leaves.\<close>

lemma pmm_init_grows:
  fixes s :: "'a pmm_state_scheme"
  assumes "term_inv s" and "length (frame_bitmap s) = 4098"
    and "mbi_flags (mem s) mbi AND 64 \<noteq> 0"
    and "mmap_at (mem s) (mbi_mmap_addr (mem s) mbi)
           (mbi_mmap_addr (mem s) mbi + mbi_mmap_length (mem s) mbi) es"
    and "\<forall>x \<in> set es. entry_fits x"
  shows "pmm_grows (s\<lparr>frame_bitmap := map (\<lambda>_. 0xFF) (frame_bitmap s)\<rparr>) (pmm_init mbi s)
    (usable_frames (kernel_end_phys s) es \<inter> {..<32786}) (sum_list (map (\<lambda>x. card (guarded (kernel_end_phys s) x)) es))
    (sum_list (map (\<lambda>x. card (guarded (kernel_end_phys s) x \<inter> {32784..})) es))"
proof -
  let ?s1 = "s\<lparr>frame_bitmap := map (\<lambda>_. 0xFF) (frame_bitmap s)\<rparr>"
  let ?s2 = "kprintf ''PMM: Parsing memory map...\<newline>'' [] ?s1"
  let ?p = "mbi_mmap_addr (mem s) mbi"
  let ?e = "?p + mbi_mmap_length (mem s) mbi"
  let ?s3 = "mmap_walk 4294967296 (kernel_end_phys s) ?p ?e ?s2"
  have init: "pmm_init mbi s = kprintf ''PMM: %u frame (%u MB) available\<newline>''
      [VInt (total_frames ?s3), VInt (total_frames ?s3 * 4096 div (1024 * 1024))] ?s3"
    using assms(3) by (simp add: pmm_init_def Let_def kernel_end_phys_def)
  have k1: "pmm_grows ?s1 ?s2 {} 0 0" using assms by (intro pmm_grows_kprintf) auto
  moreover have w: "pmm_grows ?s2 ?s3 (usable_frames (kernel_end_phys s) es \<inter> {..<32786})
      (sum_list (map (\<lambda>x. card (guarded (kernel_end_phys s) x)) es))
      (sum_list (map (\<lambda>x. card (guarded (kernel_end_phys s) x \<inter> {32784..})) es))"
    using assms k1 mmap_at_length [OF assms(4)] by (intro mmap_walk_grows) (auto simp: pmm_grows_def)
  moreover have "pmm_grows ?s3 (pmm_init mbi s) {} 0 0"
    unfolding init using w by (intro pmm_grows_kprintf) (auto simp: pmm_grows_def)
  ultimately show ?thesis
    using pmm_grows_trans [OF pmm_grows_trans] by fastforce
qed

lemma usable_disjoint:
  fixes ke :: u32
  defines "U \<equiv> \<lambda>es. usable_frames ke es \<inter> {..<32786}"
  shows "sorted_wrt (\<lambda>x y. entry_frames x \<inter> entry_frames y = {}) es \<Longrightarrow>
   sum_list (map (\<lambda>x. card (guarded ke x)) es) = card (U es)
     \<and> sum_list (map (\<lambda>x. card (guarded ke x \<inter> {32784..})) es) = card (U es \<inter> {32784..})"
proof (induction es)
  case Nil then show ?case by (simp add: U_def usable_frames_def released_def)
next
  case (Cons x xs)
  have split: "U (x # xs) = guarded ke x \<union> U xs" by (simp add: U_def guarded_usable)
  have fin: "finite (guarded ke x)" "finite (U xs)"
    by (rule finite_subset [of _ "{..<32786}"]; auto simp: U_def guarded_def released_def)+
  have dis: "guarded ke x \<inter> U xs = {}" using Cons.prems by (auto simp: U_def usable_frames_def released_def guarded_def)
  have "card (U (x # xs)) = card (guarded ke x) + card (U xs)" unfolding split using fin dis by (rule card_Un_disjoint)
  moreover have "card (U (x # xs) \<inter> {32784..}) = card (guarded ke x \<inter> {32784..}) + card (U xs \<inter> {32784..})"
    unfolding split Int_Un_distrib2 using fin dis by (intro card_Un_disjoint) auto
  ultimately show ?case using Cons by simp
qed

lemma free_frames_full: "free_frames (s\<lparr>frame_bitmap := map (\<lambda>_. 0xFF) bm\<rparr>) = {}"
  using byte_full [of "0xFF"] by (auto simp: free_frames_def frame_free_def)

section \<open>The sample states\<close>

lemma sample_bytes: "j < 8 \<Longrightarrow> bit (0xFF :: u8) j" "j < 8 \<Longrightarrow> bit (0xFB :: u8) j \<longleftrightarrow> j \<noteq> 2"
  "j < 8 \<Longrightarrow> bit (0xFE :: u8) j \<longleftrightarrow> j \<noteq> 0"
proof -
  have "(0xFF :: u8) = NOT 0" "(0xFB :: u8) = NOT (2 ^ 2)" "(0xFE :: u8) = NOT (2 ^ 0)" by simp_all
  then show "j < 8 \<Longrightarrow> bit (0xFF :: u8) j" "j < 8 \<Longrightarrow> bit (0xFB :: u8) j \<longleftrightarrow> j \<noteq> 2"
    "j < 8 \<Longrightarrow> bit (0xFE :: u8) j \<longleftrightarrow> j \<noteq> 0" by (simp_all only: bit_not_iff bit_exp_iff) (auto simp: possible_bit_def)
qed

lemma sample_pmm_free: "frame_free sample_pmm f \<longleftrightarrow> f = 322 \<or> f = 328"
proof -
  have "f mod 8 < 8" by simp
  note bits = sample_bytes [OF this]
  have "f = 322 \<longleftrightarrow> f div 8 = 40 \<and> f mod 8 = 2" "f = 328 \<longleftrightarrow> f div 8 = 41 \<and> f mod 8 = 0" by presburger+
  then show ?thesis
    using bits by (auto simp: frame_free_def sample_pmm_def intr_state.defs nth_list_update)
qed

lemma sample_pmm_inv: "pmm_inv sample_pmm"
  by (auto simp: pmm_inv_def sample_pmm_free)
    (simp_all add: sample_pmm_def sample_intr_def intr_state.defs term_inv_def)

lemma sample_pmm_values: "scan_limit sample_pmm = 336" "free_frames sample_pmm = {322, 328}"
  "used_frames sample_pmm = 334" "total_frames sample_pmm = 336"
  by (auto simp: free_frames_def sample_pmm_free) (simp_all add: scan_limit_def sample_pmm_def intr_state.defs)

lemma sample_pmm_least: "(LEAST f. frame_free sample_pmm f) = 322"
  by (rule Least_equality) (auto simp: sample_pmm_free)

section \<open>Properties\<close>

text \<open>
  C27. An allocation returns the address of the least free frame if the scanned part of the bitmap
  has a free one: the address is not null, the frame is no longer free, every other frame is
  as it was and one more is counted as used. Otherwise it returns the null pointer and nothing
  is taken. In both cases the invariant and the memory are kept and there is no fault.
\<close>

theorem pmm_alloc_frame_first_fit:
  assumes "pmm_inv s" and "pmm_alloc_frame s = (a, s')"
  shows "(if \<exists>f < scan_limit s. frame_free s f
          then unat a = (LEAST f. frame_free s f) * 4096 \<and> a \<noteq> 0
             \<and> free_frames s' = free_frames s - {LEAST f. frame_free s f}
             \<and> used_frames s' = used_frames s + 1
          else a = 0 \<and> free_frames s' = free_frames s \<and> used_frames s' = used_frames s)
       \<and> pmm_inv s' \<and> mem s' = mem s \<and> faults s' = faults s"
proof -
  note inv = pmm_alloc_inv [OF assms]
  from assms(1) show ?thesis
  proof (cases rule: pmm_alloc_cases)
    case (frame f)
    have least: "(LEAST g. frame_free s g) = f"
      using frame(3,4) by (intro Least_equality) (auto simp: not_less [symmetric])
    have "unat a = f * 4096" using frame assms by (auto simp: frame_addr)
    moreover from this have "a \<noteq> 0" using frame(5) by auto
    moreover have "free_frames s' = free_frames s - {f}" "used_frames s' = used_frames s + 1"
      using frame assms by (auto simp: free_frames_set pmm_inv_def)
    ultimately show ?thesis
      using frame inv pmm_erase_fields(1) [OF inv(3)] least by auto
  next
    case none
    then show ?thesis using assms inv pmm_erase_fields(1) [OF inv(3)] by auto
  qed
qed

theorem pmm_alloc_frame_first_fit_witness:
  "pmm_inv sample_pmm \<and> unat (fst (pmm_alloc_frame sample_pmm)) = 322 * 4096
   \<and> free_frames (snd (pmm_alloc_frame sample_pmm)) = {328}"
proof -
  have "\<exists>f < scan_limit sample_pmm. frame_free sample_pmm f"
    by (rule exI [of _ 322]) (simp add: sample_pmm_values sample_pmm_free)
  then show ?thesis
    using pmm_alloc_frame_first_fit [OF sample_pmm_inv prod.collapse [symmetric]] sample_pmm_inv
    by (simp add: sample_pmm_least sample_pmm_values)
qed

text \<open>
  Frames handed out by consecutive allocations are pairwise distinct, each was free before the
  first of them, and exactly they stop being free: no frame is ever given to two clients.
\<close>

lemma pmm_allocations_distinct:
  assumes "pmm_inv s" and "take_frames pmm_alloc_frame n s = (as, s')" and "0 \<notin> set as"
  shows "length as = n \<and> distinct as \<and> set as \<subseteq> avail_frames s
    \<and> avail_frames s' = avail_frames s - set as \<and> pmm_inv s'"
  using assms by (rule pmm.take_frames_spec)

lemma pmm_allocations_distinct_example:
  "pmm_inv sample_pmm \<and> distinct (fst (take_frames pmm_alloc_frame 1 sample_pmm))
   \<and> set (fst (take_frames pmm_alloc_frame 1 sample_pmm)) \<subseteq> avail_frames sample_pmm"
proof -
  have "fst (pmm_alloc_frame sample_pmm) \<noteq> 0"
    using sample_pmm_inv
  proof (cases rule: pmm_alloc_cases)
    case (frame f)
    then have "unat (fst (pmm_alloc_frame sample_pmm)) = f * 4096" by (simp add: frame_addr)
    then show ?thesis using frame(5) by auto
  next
    case none
    from none(2) [of 322] show ?thesis by (simp add: sample_pmm_values sample_pmm_free)
  qed
  then have "0 \<notin> set (fst (take_frames pmm_alloc_frame 1 sample_pmm))"
    by (simp add: split_beta)
  from pmm_allocations_distinct [OF sample_pmm_inv prod.collapse [symmetric] this] sample_pmm_inv
  show ?thesis by simp
qed

text \<open>
  C37. Giving back the frame just allocated restores the state exactly, bitmap and counter
  included.
\<close>

theorem pmm_alloc_free_roundtrip:
  assumes "pmm_inv s" and "pmm_alloc_frame s = (a, s')" and "a \<noteq> 0"
  shows "pmm_free_frame a s' = s"
  using assms(1)
proof (cases rule: pmm_alloc_cases)
  case (frame f)
  have len: "length (frame_bitmap s) = 4098" using assms by (simp add: pmm_inv_def)
  have "unat a div 4096 = f" using frame assms by (auto simp: frame_addr)
  moreover have "pmm_inv s'" using pmm_alloc_inv assms by blast
  moreover have "\<not> frame_free s' f" using frame assms len by (auto simp: bitmap_set_frames)
  moreover have "used_frames s' = used_frames s + 1" using frame assms by auto
  ultimately have "pmm_free_frame a s' = (bitmap_clear (of_nat f) s')\<lparr>used_frames := used_frames s\<rparr>"
    using frame(6) by (simp add: pmm_free_cases)
  then show ?thesis using frame assms bitmap_set_clear [OF frame(6) len frame(3)] by auto
next
  case none
  then show ?thesis using assms by simp
qed

theorem pmm_alloc_free_roundtrip_witness:
  "pmm_inv sample_pmm \<and> pmm_free_frame 0x142000 (snd (pmm_alloc_frame sample_pmm)) = sample_pmm"
proof -
  from sample_pmm_inv have a: "fst (pmm_alloc_frame sample_pmm) = 0x142000"
  proof (cases rule: pmm_alloc_cases)
    case (frame f)
    have "f = 322" using frame(3) frame(4) [of 322] by (auto simp: sample_pmm_free)
    then show ?thesis using frame(1) by simp
  next
    case none
    from none(2) [of 322] show ?thesis by (simp add: sample_pmm_values sample_pmm_free)
  qed
  from pmm_alloc_free_roundtrip [OF sample_pmm_inv prod.collapse [symmetric]] sample_pmm_inv
  show ?thesis by (simp add: a)
qed

text \<open>
  The free-memory figure is exact: while the counters agree with the bitmap,
  \<^verbatim>\<open>pmm_get_free_memory\<close> is 4096 times the number of free frames, and allocating and
  releasing any frame of the bitmap keep the agreement.
\<close>

lemma pmm_free_memory_counts:
  assumes "pmm_inv s" and "pmm_counted s" and "managed_frame a"
  shows "pmm_get_free_memory s = of_nat (card (free_frames s) * 4096)
    \<and> pmm_counted (snd (pmm_alloc_frame s)) \<and> pmm_counted (pmm_free_frame a s)"
proof (intro conjI)
  have len: "length (frame_bitmap s) = 4098" using assms by (simp add: pmm_inv_def)
  note fin = free_frames_finite [OF len]
  show "pmm_get_free_memory s = of_nat (card (free_frames s) * 4096)"
    using assms(2) by (simp add: pmm_get_free_memory_def pmm_counted_def)
  show "pmm_counted (snd (pmm_alloc_frame s))"
    using assms(1)
  proof (cases rule: pmm_alloc_cases)
    case (frame f)
    have "card (free_frames s) = Suc (card (free_frames s - {f}))"
      using frame(3) fin by (intro card.remove) (auto simp: free_frames_def)
    moreover have "free_frames (snd (pmm_alloc_frame s)) = free_frames s - {f}"
      using frame len by (simp add: free_frames_set)
    moreover have "total_frames (snd (pmm_alloc_frame s)) = total_frames s"
      "used_frames (snd (pmm_alloc_frame s)) = used_frames s + 1"
      using frame len by (simp_all add: bitmap_set_in)
    ultimately show ?thesis using assms(2) by (simp add: pmm_counted_def diff_diff_eq [symmetric])
  next
    case none
    then show ?thesis using assms(2) by (simp add: pmm_counted_def)
  qed
  obtain f where f: "a = of_nat f * 4096" "0 < f" "f < 32784" using assms(3) by (rule managed_frameE)
  have "unat a div 4096 = f" using f by (simp add: frame_addr)
  note eq = pmm_free_cases [OF assms(1) f(3) this]
  show "pmm_counted (pmm_free_frame a s)"
  proof (cases "frame_free s f")
    case False
    then have "card (insert f (free_frames s)) = Suc (card (free_frames s))"
      using fin by (simp add: free_frames_def)
    then show ?thesis using False assms(2) len f(3) unfolding eq
      by (simp add: pmm_counted_def free_frames_clear) (simp add: bitmap_clear_in algebra_simps)
  qed (use assms(2) eq in simp)
qed

lemma pmm_free_memory_counts_example:
  "pmm_inv sample_pmm \<and> pmm_counted sample_pmm \<and> managed_frame 0x142000
   \<and> pmm_get_free_memory sample_pmm = 8192 \<and> pmm_counted (pmm_free_frame 0x142000 sample_pmm)"
proof -
  have c: "pmm_counted sample_pmm" by (simp add: pmm_counted_def sample_pmm_values)
  have m: "managed_frame 0x142000" by (simp add: managed_frame_def)
  from pmm_free_memory_counts [OF sample_pmm_inv c m] show ?thesis
    using c m sample_pmm_inv by (simp add: sample_pmm_values)
qed

lemma pmm_init_frames_all:
  assumes "term_inv s" and "length (frame_bitmap s) = 4098" and "total_frames s = 0" and "used_frames s = 0"
    and "mbi_flags (mem s) mbi AND MULTIBOOT_FLAG_MMAP \<noteq> 0"
    and "mmap_at (mem s) (mbi_mmap_addr (mem s) mbi)
           (mbi_mmap_addr (mem s) mbi + mbi_mmap_length (mem s) mbi) es"
    and "\<forall>e \<in> set es. entry_fits e"
    and "sorted_wrt (\<lambda>e e'. entry_frames e \<inter> entry_frames e' = {}) es"
  defines "U \<equiv> usable_frames (kernel_end_phys s) es"
  shows "free_frames (pmm_init mbi s) = {f \<in> U. f < 32784}" "unat (total_frames (pmm_init mbi s)) = card {f \<in> U. f < 32786}"
    "faults (pmm_init mbi s) = replicate (card (U \<inter> {32784, 32785})) Out_Of_Bounds @ faults s" "mem (pmm_init mbi s) = mem s"
    "U \<inter> {32784, 32785} = {} \<Longrightarrow> pmm_inv (pmm_init mbi s) \<and> pmm_counted (pmm_init mbi s)"
proof -
  let ?V = "U \<inter> {..<32786}"
  have sum: "sum_list (map (\<lambda>x. card (guarded (kernel_end_phys s) x)) es) = card ?V"
    "sum_list (map (\<lambda>x. card (guarded (kernel_end_phys s) x \<inter> {32784..})) es) = card (?V \<inter> {32784..})"
    using usable_disjoint [OF assms(8)] by (auto simp: U_def)
  have sub: "?V \<subseteq> {256..<32786}" by (auto simp: U_def usable_frames_def released_def)
  have sets: "{f \<in> ?V. f < 32784} = {f \<in> U. f < 32784}" "?V = {f \<in> U. f < 32786}" "?V \<inter> {32784..} = U \<inter> {32784, 32785}"
    by auto
  have "card ?V \<le> card {256..<32786::nat}" using sub by (intro card_mono) auto
  then have small: "card ?V \<le> 32530" by simp
  have g0: "pmm_grows (s\<lparr>frame_bitmap := map (\<lambda>_. 0xFF) (frame_bitmap s)\<rparr>) (pmm_init mbi s) ?V (card ?V) (card (U \<inter> {32784, 32785}))"
    using pmm_init_grows [OF assms(1,2,5,6,7)] unfolding U_def [symmetric] sum sets(3) .
  have g: "free_frames (pmm_init mbi s) = {f \<in> U. f < 32784}" "total_frames (pmm_init mbi s) = of_nat (card ?V)"
    "used_frames (pmm_init mbi s) = 0" "faults (pmm_init mbi s) = replicate (card (U \<inter> {32784, 32785})) Out_Of_Bounds @ faults s"
    "mem (pmm_init mbi s) = mem s" "term_inv (pmm_init mbi s)" "length (frame_bitmap (pmm_init mbi s)) = 4098"
    using g0 assms(3,4) unfolding pmm_grows_def sets(1) by (simp_all add: free_frames_full)
  then show "free_frames (pmm_init mbi s) = {f \<in> U. f < 32784}" "mem (pmm_init mbi s) = mem s"
    "faults (pmm_init mbi s) = replicate (card (U \<inter> {32784, 32785})) Out_Of_Bounds @ faults s" by simp_all
  have t: "unat (total_frames (pmm_init mbi s)) = card ?V" using g(2) small by (simp add: u32_of_nat)
  then show "unat (total_frames (pmm_init mbi s)) = card {f \<in> U. f < 32786}" by (simp add: sets(2))
  have "0 \<notin> free_frames (pmm_init mbi s)" using g(1) sub by auto
  then have inv: "pmm_inv (pmm_init mbi s)" using g(6,7) t small by (simp add: pmm_inv_def free_frames_def)
  show "pmm_inv (pmm_init mbi s) \<and> pmm_counted (pmm_init mbi s)" if "U \<inter> {32784, 32785} = {}"
  proof -
    have "f \<in> U \<Longrightarrow> f < 32786 \<Longrightarrow> f < 32784" for f using that by (cases "f = 32784"; cases "f = 32785") auto
    then have "?V = {f \<in> U. f < 32784}" by auto
    then show ?thesis using inv g by (simp add: pmm_counted_def)
  qed
qed

lemma entry_ok_fits: "entry_ok e \<Longrightarrow> entry_fits e"
  by (auto simp: entry_ok_def entry_fits_def)

text \<open>On a machine whose memory ends within the bitmap there is no fault.\<close>

lemma pmm_init_frames:
  assumes "term_inv s" and "length (frame_bitmap s) = 4098" and "total_frames s = 0" and "used_frames s = 0"
    and "mbi_flags (mem s) mbi AND MULTIBOOT_FLAG_MMAP \<noteq> 0"
    and "mmap_at (mem s) (mbi_mmap_addr (mem s) mbi)
           (mbi_mmap_addr (mem s) mbi + mbi_mmap_length (mem s) mbi) es"
    and "\<forall>e \<in> set es. entry_ok e"
    and "sorted_wrt (\<lambda>e e'. entry_frames e \<inter> entry_frames e' = {}) es"
  shows "free_frames (pmm_init mbi s) = usable_frames (kernel_end_phys s) es
    \<and> unat (total_frames (pmm_init mbi s)) = card (usable_frames (kernel_end_phys s) es)
    \<and> pmm_inv (pmm_init mbi s) \<and> pmm_counted (pmm_init mbi s)
    \<and> faults (pmm_init mbi s) = faults s \<and> mem (pmm_init mbi s) = mem s"
proof -
  let ?U = "usable_frames (kernel_end_phys s) es"
  have "f < 32784" if "f \<in> ?U" for f
    using that assms(7) by (auto simp: usable_frames_def released_def entry_frames_def entry_ok_def split: if_splits)
  then have "?U \<inter> {32784, 32785} = {}" "{f \<in> ?U. f < 32784} = ?U" "{f \<in> ?U. f < 32786} = ?U" by force+
  then show ?thesis
    using pmm_init_frames_all [OF assms(1-6) _ assms(8)] assms(7) entry_ok_fits by simp
qed

text \<open>
  C11. From the state the loader leaves, with the flag for a memory map set, \<^verbatim>\<open>pmm_init\<close> on a map of pairwise disjoint entries
  below 4 GB terminates. It
  considers the whole frames of available memory above 1 MB and above the kernel image whose number is
  below 32786, \<^verbatim>\<open>MAX_FRAMES\<close>; each of them is counted once. Of these it frees exactly the frames with a bit in the bitmap; the
  frames 32784 and 32785 have none, and each of them that is available is one write beyond the bitmap. If none of the two is
  available there is no fault, and the invariant and the agreement of the counters with the bitmap hold.
\<close>

theorem pmm_init_frees_usable_frames:
  assumes "term_inv s" and "length (frame_bitmap s) = 4098" and "total_frames s = 0" and "used_frames s = 0"
    and "mbi_flags (mem s) mbi AND MULTIBOOT_FLAG_MMAP \<noteq> 0"
    and "mmap_at (mem s) (mbi_mmap_addr (mem s) mbi)
           (mbi_mmap_addr (mem s) mbi + mbi_mmap_length (mem s) mbi) es"
    and "\<forall>e \<in> set es. entry_fits e"
    and "sorted_wrt (\<lambda>e e'. entry_frames e \<inter> entry_frames e' = {}) es"
  shows "let U = usable_frames (kernel_end_phys s) es; s' = pmm_init mbi s in
      free_frames s' = {f \<in> U. f < 32784} \<and> unat (total_frames s') = card {f \<in> U. f < 32786} \<and> mem s' = mem s
      \<and> faults s' = replicate (card (U \<inter> {32784, 32785})) Out_Of_Bounds @ faults s
      \<and> (U \<inter> {32784, 32785} = {} \<longrightarrow> pmm_inv s' \<and> pmm_counted s')"
  using pmm_init_frames_all [OF assms] by (simp add: Let_def)

theorem pmm_init_frees_usable_frames_witness:
  "287 \<in> free_frames (pmm_init 0x10000 sample_boot) \<and> 286 \<notin> free_frames (pmm_init 0x10000 sample_boot)
   \<and> 32767 \<in> free_frames (pmm_init 0x10000 sample_boot) \<and> faults (pmm_init 0x10000 sample_boot) = []"
proof -
  let ?e = "\<lparr>entry_size = 20, entry_base = 0x100000, entry_length = 0x7F00000, entry_type = 1\<rparr>"
  let ?s = sample_boot
  have m: "mem ?s = sample_memory" by (simp add: sample_boot_def intr_state.defs)
  note word = load32_store32_sep sep4_def sample_memory_def
  have mbi: "mbi_flags sample_memory 0x10000 = 64" "mbi_mmap_addr sample_memory 0x10000 = 0x20000"
    "mbi_mmap_length sample_memory 0x10000 = 24"
    by (simp_all add: mbi_flags_def mbi_mmap_addr_def mbi_mmap_length_def word)
  have entry: "mmap_size sample_memory 0x20000 = 20" "mmap_base sample_memory 0x20000 = 0x100000"
    "mmap_length sample_memory 0x20000 = 0x7F00000" "mmap_type sample_memory 0x20000 = 1"
    by (simp_all add: mmap_size_def mmap_base_def mmap_length_def mmap_type_def word)
  have ke: "kernel_end_phys ?s = 0x11F000"
    by (simp add: kernel_end_phys_def sample_boot_def intr_state.defs sample_intr_def sample_symbols_def
        page_align_up_eq)
  have "term_inv ?s" "length (frame_bitmap ?s) = 4098" "total_frames ?s = 0" "used_frames ?s = 0" "faults ?s = []"
    by (simp_all add: sample_boot_def intr_state.defs term_inv_def sample_intr_def)
  moreover have "mmap_at (mem ?s) (mbi_mmap_addr (mem ?s) 0x10000)
      (mbi_mmap_addr (mem ?s) 0x10000 + mbi_mmap_length (mem ?s) 0x10000) [?e]"
    by (simp add: m mbi entry)
  ultimately have r: "free_frames (pmm_init 0x10000 ?s) = {f \<in> usable_frames 0x11F000 [?e]. f < 32784}"
      "faults (pmm_init 0x10000 ?s) = replicate (card (usable_frames 0x11F000 [?e] \<inter> {32784, 32785})) Out_Of_Bounds"
    using pmm_init_frees_usable_frames [of ?s "0x10000" "[?e]"]
    by (simp_all add: m mbi ke entry_fits_def Let_def)
  have U: "usable_frames 0x11F000 [?e] = {287..<32768}" by (auto simp: usable_frames_def released_def entry_frames_def)
  show ?thesis unfolding r U by simp
qed

text \<open>
  Frames whose number is not below the number of usable frames rounded down to eight are never
  handed out: when only such frames are left, an allocation fails although
  \<^verbatim>\<open>pmm_get_free_memory\<close> reports free memory.
\<close>

lemma pmm_alloc_misses_high_frames:
  assumes "pmm_inv s" and "pmm_counted s" and "free_frames s \<noteq> {}"
    and "\<forall>f \<in> free_frames s. scan_limit s \<le> f"
  shows "fst (pmm_alloc_frame s) = 0 \<and> pmm_get_free_memory s \<noteq> 0"
proof
  have len: "length (frame_bitmap s) = 4098" using assms by (simp add: pmm_inv_def)
  from assms(1) show "fst (pmm_alloc_frame s) = 0"
    by (cases rule: pmm_alloc_cases) (use assms(4) in \<open>auto simp: free_frames_def\<close>)
  have "card (free_frames s) \<le> card {..<32784::nat}"
    using frame_free_bound [OF len] by (intro card_mono) (auto simp: free_frames_def)
  moreover have "0 < card (free_frames s)" using assms(3) free_frames_finite [OF len] by (simp add: card_gt_0_iff)
  ultimately have "unat (of_nat (card (free_frames s) * 4096) :: u32) \<noteq> 0" by (subst u32_of_nat) auto
  then show "pmm_get_free_memory s \<noteq> 0"
    using assms(2) by (auto simp: pmm_get_free_memory_def pmm_counted_def)
qed

lemma pmm_alloc_misses_high_frames_example:
  "fst (pmm_alloc_frame (sample_pmm\<lparr>total_frames := 9, used_frames := 7\<rparr>)) = 0
   \<and> pmm_get_free_memory (sample_pmm\<lparr>total_frames := 9, used_frames := 7\<rparr>) \<noteq> 0"
proof (rule pmm_alloc_misses_high_frames)
  let ?s = "sample_pmm\<lparr>total_frames := 9, used_frames := 7\<rparr>"
  show "pmm_inv ?s" using sample_pmm_inv by (simp add: pmm_inv_def)
  show "pmm_counted ?s" "free_frames ?s \<noteq> {}" "\<forall>f \<in> free_frames ?s. scan_limit ?s \<le> f"
    by (simp_all add: pmm_counted_def sample_pmm_values) (simp add: scan_limit_def)
qed

text \<open>
  The guard of \<^verbatim>\<open>pmm_free_frame\<close> admits the frames 32784 and 32785, whose bit lies beyond the
  4098 bytes of the bitmap: releasing one of them reads out of bounds.
\<close>

lemma pmm_free_frame_overruns_bitmap:
  assumes "length (frame_bitmap s) = 4098" and "unat a div 4096 \<in> {32784, 32785}"
  shows "Out_Of_Bounds \<in> set (faults (pmm_free_frame a s))"
proof -
  have f: "unat (a div 4096) = unat a div 4096" by (simp add: unat_div_distrib)
  have "unat (a div 4096 div 8) = 4098" using assms(2) by (auto simp: unat_div_distrib)
  then have "bitmap_test (a div 4096) s = (False, add_fault Out_Of_Bounds s)"
    using assms(1) by (simp add: bitmap_test_def Let_def)
  then show ?thesis using assms(2) f by (auto simp: pmm_free_frame_def Let_def)
qed

lemma pmm_free_frame_overruns_bitmap_example:
  "length (frame_bitmap sample_pmm) = 4098 \<and> Out_Of_Bounds \<in> set (faults (pmm_free_frame 0x8010000 sample_pmm))"
proof -
  have "length (frame_bitmap sample_pmm) = 4098" by (simp add: sample_pmm_def intr_state.defs)
  with pmm_free_frame_overruns_bitmap [OF this, of "0x8010000"] show ?thesis by simp
qed

end
