(* ===== verification/Paging.thy ===== *)
theory Paging
  imports Pmm
begin

text \<open>
  Paging, \<^verbatim>\<open>paging.c\<close>. The page directory and the page tables are read and written in the memory
  the kernel sees, at the addresses the code uses: \<^verbatim>\<open>page_directory\<close> and \<^verbatim>\<open>page_tables\<close> at their
  linker addresses, a table allocated later at \<^verbatim>\<open>PHYS_TO_VIRT\<close> of its frame. The state gains
  \<^verbatim>\<open>current_page_directory\<close>.

  The reference is the two-level walk of the processor, \<open>mmu_walk\<close>, which starts from the value
  of CR3 and reads physical words. The memory of the model is indexed by the address the
  kernel dereferences, and physical address \<open>p\<close> is seen at \<open>p + 0xC0000000\<close>; that this window
  is what \<^verbatim>\<open>paging_init\<close> sets up for the first 16 MB is one of the theorems. Mapping a page does
  not change the bytes of the model's memory at its address.

  The window is not all of memory: frames from 16 MB on are not in it, and once the heap is mapped
  from 0xC0400000 on the addresses of the frames from 4 MB on lead to the frames of the heap. Where
  \<^verbatim>\<open>paging_map_page\<close> and \<^verbatim>\<open>paging_create_directory\<close> write to a table through \<^verbatim>\<open>PHYS_TO_VIRT\<close> the model
  therefore translates the address first: a page fault is recorded where nothing is mapped, the
  fault \<open>Wrong_Frame\<close> where another frame is.

  Lemmas: \<^verbatim>\<open>paging_get_physical\<close> is the walk; mapping and unmapping change the walk of the one
  page and of no other and keep the tables apart from each other and from free frames; a new
  directory shares the kernel's half.
\<close>

section \<open>Data\<close>

record paging_state = pmm_state +
  current_page_directory :: u32

abbreviation (input) PAGE_PRESENT :: u32 where "PAGE_PRESENT \<equiv> 1"
abbreviation (input) PAGE_WRITE :: u32 where "PAGE_WRITE \<equiv> 2"
abbreviation (input) PAGE_USER :: u32 where "PAGE_USER \<equiv> 4"

definition PHYS_TO_VIRT :: "u32 \<Rightarrow> u32" where "PHYS_TO_VIRT addr = addr + 0xC0000000"
definition VIRT_TO_PHYS :: "u32 \<Rightarrow> u32" where "VIRT_TO_PHYS addr = addr - 0xC0000000"

text \<open>\<^verbatim>\<open>virtual_addr >> 22\<close> and \<^verbatim>\<open>(virtual_addr >> 12) & 0x3FF\<close>, and the address of \<^verbatim>\<open>table[i]\<close>.\<close>

definition pd_index :: "u32 \<Rightarrow> u32" where "pd_index va = drop_bit 22 va"
definition pt_index :: "u32 \<Rightarrow> u32" where "pt_index va = drop_bit 12 va AND 0x3FF"
definition entry_at :: "u32 \<Rightarrow> u32 \<Rightarrow> u32" where "entry_at table i = table + 4 * i"

abbreviation page_directory :: "'a hw_state_scheme \<Rightarrow> u32" where
  "page_directory s \<equiv> page_directory_sym (sym s)"

section \<open>The walk of the processor\<close>

text \<open>Present entries, the frame an entry holds, and physical words in the kernel's window.\<close>

definition mmu_walk :: "memory \<Rightarrow> u32 \<Rightarrow> u32 \<Rightarrow> u32 option" where
  "mmu_walk m cr3 va =
     (let phys = (\<lambda>a. load32 m (a + 0xC0000000));
          pde = phys ((cr3 AND 0xFFFFF000) + 4 * drop_bit 22 va) in
      if \<not> bit pde 0 then None
      else
        let pte = phys ((pde AND 0xFFFFF000) + 4 * (drop_bit 12 va AND 0x3FF)) in
        if \<not> bit pte 0 then None else Some ((pte AND 0xFFFFF000) OR (va AND 0xFFF)))"

definition pde :: "'a paging_state_scheme \<Rightarrow> u32 \<Rightarrow> u32" where
  "pde s i = load32 (mem s) (entry_at (page_directory s) i)"

definition table_of :: "u32 \<Rightarrow> u32" where
  "table_of e = PHYS_TO_VIRT (e AND 0xFFFFF000)"

definition translate :: "'a paging_state_scheme \<Rightarrow> u32 \<Rightarrow> u32 option" where
  "translate s va = mmu_walk (mem s) (VIRT_TO_PHYS (page_directory s)) va"

definition same_page :: "u32 \<Rightarrow> u32 \<Rightarrow> bool" where
  "same_page a b \<longleftrightarrow> drop_bit 12 a = drop_bit 12 b"

text \<open>An access to the frame \<open>pa\<close> at its address in the window.\<close>

definition window_fault :: "'a paging_state_scheme \<Rightarrow> u32 \<Rightarrow> fault option" where
  "window_fault s pa =
     (case translate s (PHYS_TO_VIRT pa) of
        None \<Rightarrow> Some Page_Fault
      | Some p \<Rightarrow> if p = pa then None else Some Wrong_Frame)"

section \<open>Operations\<close>

definition paging_load_directory :: "u32 \<Rightarrow> 'a paging_state_scheme \<Rightarrow> 'a paging_state_scheme" where
  "paging_load_directory dir_phys s =
     hw_emit (Load_CR3 dir_phys) (s\<lparr>cpu := (cpu s)\<lparr>reg_cr3 := dir_phys\<rparr>\<rparr>)"

definition paging_flush_tlb :: "u32 \<Rightarrow> 'a paging_state_scheme \<Rightarrow> 'a paging_state_scheme" where
  "paging_flush_tlb virtual_addr s = hw_emit (Invlpg virtual_addr) s"

text \<open>The two nested loops of \<^verbatim>\<open>paging_init\<close>, on the memory.\<close>

definition linear_table :: "u32 \<Rightarrow> nat \<Rightarrow> memory \<Rightarrow> memory" where
  "linear_table table t m =
     fold (\<lambda>i m. let phys_addr = of_nat ((t * 1024 + i) * 4096)
                 in store32 m (entry_at table (of_nat i)) (phys_addr OR PAGE_PRESENT OR PAGE_WRITE))
          [0..<1024] m"

definition linear_map :: "u32 \<Rightarrow> u32 \<Rightarrow> memory \<Rightarrow> memory" where
  "linear_map dir tables m =
     fold (\<lambda>t m. let table = tables + 4096 * of_nat t
                 in store32 (linear_table table t m) (entry_at dir (768 + of_nat t))
                      (VIRT_TO_PHYS table OR PAGE_PRESENT OR PAGE_WRITE))
          [0..<4] m"

definition paging_init :: "'a paging_state_scheme \<Rightarrow> 'a paging_state_scheme" where
  "paging_init s =
     (let s1 = kprintf ''Paging: Initializing higher-half mapping...\<newline>'' [] s;
          s2 = s1\<lparr>mem := fill32 (mem s1) (page_directory s1) 1024 2\<rparr>;
          s3 = s2\<lparr>mem := linear_map (page_directory s2) (page_tables_sym (sym s2)) (mem s2)\<rparr>;
          s4 = s3\<lparr>current_page_directory := page_directory s3\<rparr>;
          s5 = paging_load_directory (VIRT_TO_PHYS (page_directory s4)) s4
      in kprintf ''Paging: Loaded, first 16MB mapped at 0xC0000000\<newline>'' [] s5)"

text \<open>The second half of \<^verbatim>\<open>paging_map_page\<close>, from \<^verbatim>\<open>uint32_t table_phys\<close> on.\<close>

definition paging_set_entry :: "u32 \<Rightarrow> u32 \<Rightarrow> u32 \<Rightarrow> 'a paging_state_scheme \<Rightarrow> 'a paging_state_scheme" where
  "paging_set_entry virtual_addr physical_addr flags s =
     (let table_phys = load32 (mem s) (entry_at (page_directory s) (pd_index virtual_addr)) AND 0xFFFFF000;
          table = PHYS_TO_VIRT table_phys;
          s1 = s\<lparr>mem := store32 (mem s) (entry_at table (pt_index virtual_addr))
                  ((physical_addr AND 0xFFFFF000) OR (flags AND 0xFFF) OR PAGE_PRESENT)\<rparr>
      in case window_fault s table_phys of
           None \<Rightarrow> paging_flush_tlb virtual_addr s1
         | Some e \<Rightarrow> add_fault e s)"

definition paging_map_page :: "u32 \<Rightarrow> u32 \<Rightarrow> u32 \<Rightarrow> 'a paging_state_scheme \<Rightarrow> 'a paging_state_scheme" where
  "paging_map_page virtual_addr physical_addr flags s =
     (let entry = entry_at (page_directory s) (pd_index virtual_addr) in
      if load32 (mem s) entry AND PAGE_PRESENT = 0 then
        (case pmm_alloc_frame s of
           (new_table_phys, s1) \<Rightarrow>
             if new_table_phys = 0 then kprintf ''Paging: Failed to allocate page table\<newline>'' [] s1
             else case window_fault s1 new_table_phys of Some e \<Rightarrow> add_fault e s1 | None \<Rightarrow>
               let s2 = s1\<lparr>mem := fill32 (mem s1) (PHYS_TO_VIRT new_table_phys) 1024 0\<rparr>;
                   s3 = s2\<lparr>mem := store32 (mem s2) entry
                            (new_table_phys OR PAGE_PRESENT OR PAGE_WRITE OR (flags AND PAGE_USER))\<rparr>
               in paging_set_entry virtual_addr physical_addr flags s3)
      else paging_set_entry virtual_addr physical_addr flags s)"

definition paging_unmap_page :: "u32 \<Rightarrow> 'a paging_state_scheme \<Rightarrow> 'a paging_state_scheme" where
  "paging_unmap_page virtual_addr s =
     (let entry = load32 (mem s) (entry_at (page_directory s) (pd_index virtual_addr)) in
      if entry AND PAGE_PRESENT = 0 then s
      else
        let table = PHYS_TO_VIRT (entry AND 0xFFFFF000);
            s1 = s\<lparr>mem := store32 (mem s) (entry_at table (pt_index virtual_addr)) 0\<rparr>
        in paging_flush_tlb virtual_addr s1)"

definition paging_get_physical :: "u32 \<Rightarrow> 'a paging_state_scheme \<Rightarrow> u32" where
  "paging_get_physical virtual_addr s =
     (let entry = load32 (mem s) (entry_at (page_directory s) (pd_index virtual_addr)) in
      if entry AND PAGE_PRESENT = 0 then 0
      else
        let table = PHYS_TO_VIRT (entry AND 0xFFFFF000);
            page = load32 (mem s) (entry_at table (pt_index virtual_addr))
        in if page AND PAGE_PRESENT = 0 then 0
           else (page AND 0xFFFFF000) + (virtual_addr AND 0xFFF))"

definition paging_get_directory :: "'a paging_state_scheme \<Rightarrow> u32" where
  "paging_get_directory s = VIRT_TO_PHYS (page_directory s)"

text \<open>\<^verbatim>\<open>for (int i = 768; i < 1024; i++) new_dir[i] = page_directory[i];\<close>\<close>

definition copy_kernel_entries :: "u32 \<Rightarrow> 'a paging_state_scheme \<Rightarrow> 'a paging_state_scheme" where
  "copy_kernel_entries new_dir s =
     fold (\<lambda>i st. st\<lparr>mem := store32 (mem st) (entry_at new_dir (of_nat i))
                            (load32 (mem st) (entry_at (page_directory st) (of_nat i)))\<rparr>)
       [768..<1024] s"

definition paging_create_directory :: "'a paging_state_scheme \<Rightarrow> u32 \<times> 'a paging_state_scheme" where
  "paging_create_directory s =
     (case pmm_alloc_frame s of
        (dir_phys, s1) \<Rightarrow>
          if dir_phys = 0 then (0, kprintf ''Paging: failed to allocate new page directory\<newline>'' [] s1)
          else case window_fault s1 dir_phys of Some e \<Rightarrow> (dir_phys, add_fault e s1) | None \<Rightarrow>
            let new_dir = PHYS_TO_VIRT dir_phys;
                s2 = s1\<lparr>mem := fill32 (mem s1) new_dir 1024 2\<rparr>
            in (dir_phys, copy_kernel_entries new_dir s2))"

definition paging_switch_directory :: "u32 \<Rightarrow> 'a paging_state_scheme \<Rightarrow> 'a paging_state_scheme" where
  "paging_switch_directory dir_phys s =
     paging_load_directory dir_phys (s\<lparr>current_page_directory := PHYS_TO_VIRT dir_phys\<rparr>)"

section \<open>The invariant\<close>

text \<open>The tables are apart: from the directory, from each other and from the free frames.\<close>

definition paging_inv :: "'a paging_state_scheme \<Rightarrow> bool" where
  "paging_inv s \<longleftrightarrow> pmm_inv s \<and> unat (page_directory s) mod 4096 = 0
     \<and> VIRT_TO_PHYS (page_directory s) \<notin> avail_frames s
     \<and> (\<forall>i. unat i < 1024 \<longrightarrow> bit (pde s i) 0 \<longrightarrow>
           pde s i AND 0xFFFFF000 \<notin> avail_frames s \<and> table_of (pde s i) \<noteq> page_directory s)
     \<and> (\<forall>i j. unat i < 1024 \<longrightarrow> unat j < 1024 \<longrightarrow> i \<noteq> j \<longrightarrow> bit (pde s i) 0 \<longrightarrow> bit (pde s j) 0 \<longrightarrow>
           table_of (pde s i) \<noteq> table_of (pde s j))"

text \<open>The state before \<^verbatim>\<open>paging_init\<close>, with two frames free.\<close>

definition sample_paging :: paging_state where
  "sample_paging = pmm_state.extend sample_pmm \<lparr>current_page_directory = 0\<rparr>"

section \<open>Slots of a table\<close>

text \<open>A page-aligned address, and the 1024 slots of the table there.\<close>

abbreviation page_aligned :: "u32 \<Rightarrow> bool" where "page_aligned a \<equiv> unat a mod 4096 = 0"

lemma index_bounds [simp]: "unat (pd_index va) < 1024" "unat (pt_index va) < 1024"
proof -
  have "unat va div 4194304 < 1024" using u32_bound [of va] by (simp add: div_less_iff_less_mult)
  then show "unat (pd_index va) < 1024" by (simp add: pd_index_def unat_drop22)
  show "unat (pt_index va) < 1024" by (simp add: pt_index_def unat_and_1023)
qed

lemma unat_times4: "unat i < 1024 \<Longrightarrow> unat (4 * i :: u32) = 4 * unat i"
  using unat_mult_lem [of 4 i] by simp

lemma page_room: "page_aligned t \<Longrightarrow> unat t \<le> 4294963200"
proof -
  assume "page_aligned t"
  then have "unat t = unat t div 4096 * 4096" by (metis add_0_right div_mult_mod_eq)
  moreover have "unat t div 4096 < 1048576" using u32_bound [of t] by (simp add: div_less_iff_less_mult)
  ultimately show ?thesis by linarith
qed

lemma unat_slot: "page_aligned t \<Longrightarrow> unat i < 1024 \<Longrightarrow> unat (entry_at t i) = unat t + 4 * unat i"
  using page_room [of t] by (simp add: entry_at_def u32_add unat_times4)

lemma page_off: "page_aligned t \<Longrightarrow> d < 4096 \<Longrightarrow> (unat t + d) div 4096 = unat t div 4096"
  by (auto simp: mod_eq_0_iff_dvd elim!: dvdE)

lemma slot_page: "page_aligned t \<Longrightarrow> unat i < 1024 \<Longrightarrow> unat (entry_at t i) div 4096 = unat t div 4096"
  by (simp add: unat_slot page_off)

lemma slot_word_aligned: "page_aligned t \<Longrightarrow> unat i < 1024 \<Longrightarrow> unat (entry_at t i) mod 4 = 0"
  using mod_mod_cancel [of 4 4096 "unat t"] by (simp add: unat_slot mod_add_left_eq [symmetric])

lemma page_eq: "page_aligned t \<Longrightarrow> page_aligned u \<Longrightarrow> unat t div 4096 = unat u div 4096 \<Longrightarrow> t = u"
  by (metis u32_eq_iff add_0_right div_mult_mod_eq)

lemma slot_inject:
  assumes "page_aligned t" "page_aligned u" "unat i < 1024" "unat j < 1024"
  shows "entry_at t i = entry_at u j \<longleftrightarrow> t = u \<and> i = j"
proof
  assume eq: "entry_at t i = entry_at u j"
  then have "t = u" using page_eq [OF assms(1,2)] slot_page assms by metis
  moreover have "unat t + 4 * unat i = unat u + 4 * unat j" using eq unat_slot assms by metis
  ultimately show "t = u \<and> i = j" by (simp add: u32_eq_iff)
qed simp

lemma sep4_word_aligned:
  assumes "unat a mod 4 = 0" "unat b mod 4 = 0" "a \<noteq> b"
  shows "sep4 a b"
proof -
  obtain k where k: "unat a = 4 * k" using assms(1) by auto
  obtain l where l: "unat b = 4 * l" using assms(2) by auto
  have "k \<noteq> l" using assms(3) k l by (auto simp: u32_eq_iff)
  moreover have "k < 1073741824" "l < 1073741824" using u32_bound [of a] u32_bound [of b] k l by auto
  ultimately show ?thesis by (intro sep4I) (auto simp: k l)
qed

lemma load_store_slot:
  assumes "page_aligned t" "page_aligned u" "unat i < 1024" "unat j < 1024"
  shows "load32 (store32 m (entry_at t i) v) (entry_at u j) =
    (if t = u \<and> i = j then v else load32 m (entry_at u j))"
proof (cases "t = u \<and> i = j")
  case False
  then have "sep4 (entry_at t i) (entry_at u j)"
    using assms by (intro sep4_word_aligned) (auto simp: slot_word_aligned slot_inject)
  with False show ?thesis by (auto simp: load32_store32_sep)
qed simp

lemma load_fill_page:
  assumes "page_aligned t" "page_aligned u" "unat j < 1024"
  shows "load32 (fill32 m t 1024 v) (entry_at u j) = (if t = u then v else load32 m (entry_at u j))"
proof (cases "t = u")
  case True
  have "entry_at u j = u + of_nat (4 * unat j)" by (simp add: entry_at_def)
  then show ?thesis
    using True assms page_room [of u] load32_fill32_in [of u 1024 "unat j"] by simp
next
  case False
  have room: "unat t + 4 * 1024 \<le> 4294967296" using page_room [OF assms(1)] by simp
  have "load32 (fill32 m t 1024 v) (entry_at u j) = load32 m (entry_at u j)"
  proof (rule load32_fill32_out)
    fix k :: nat assume k: "k < 4"
    have "unat (entry_at u j) + 3 < 4294967296" using unat_slot [OF assms(2,3)] page_room [OF assms(2)] assms(3) by simp
    then have "unat (entry_at u j + of_nat k) = unat u + (4 * unat j + k)"
      using k unat_slot [OF assms(2,3)] by (simp add: u32_add u32_of_nat)
    then have "unat (entry_at u j + of_nat k) div 4096 = unat u div 4096"
      using page_off [OF assms(2), of "4 * unat j + k"] assms(3) k by simp
    then have other: "unat (entry_at u j + of_nat k) div 4096 \<noteq> unat t div 4096"
      using False page_eq [OF assms(1,2)] by auto
    show "\<not> in_range t (4 * 1024) (entry_at u j + of_nat k)"
    proof
      assume "in_range t (4 * 1024) (entry_at u j + of_nat k)"
      then obtain d where "unat (entry_at u j + of_nat k) = unat t + d" "d < 4096"
        unfolding in_range_iff [OF room] by (auto simp: le_iff_add)
      with other page_off [OF assms(1), of d] show False by simp
    qed
  qed
  then show ?thesis using False by simp
qed

section \<open>Walks\<close>

lemma present_bit: "(e :: u32) AND 1 = 0 \<longleftrightarrow> \<not> bit e 0"
  by (simp add: and_one_eq bit_0 even_iff_mod_2_eq_zero)

lemma page_aligned_mask: "page_aligned a \<Longrightarrow> a AND 0xFFFFF000 = a"
proof -
  assume "page_aligned a"
  then have "unat a div 4096 * 4096 = unat a" by (metis add_0_right div_mult_mod_eq)
  then show ?thesis by (simp add: u32_eq_iff unat_page_base)
qed

lemma page_aligned_window:
  "page_aligned a \<Longrightarrow> page_aligned (PHYS_TO_VIRT a)" "page_aligned a \<Longrightarrow> page_aligned (VIRT_TO_PHYS a)"
  by (auto simp: PHYS_TO_VIRT_def VIRT_TO_PHYS_def u32_add u32_sub mod_eq_0_iff_dvd intro!: dvd_add dvd_diff_nat)

lemma page_aligned_masked [simp]: "page_aligned (e AND 0xFFFFF000)"
  by (simp add: unat_page_base)

lemma page_aligned_table [simp]: "page_aligned (table_of e)"
  unfolding table_of_def by (rule page_aligned_window(1)) simp

lemma window_inverse [simp]: "PHYS_TO_VIRT (VIRT_TO_PHYS a) = a" "VIRT_TO_PHYS (PHYS_TO_VIRT a) = a"
  by (simp_all add: PHYS_TO_VIRT_def VIRT_TO_PHYS_def)

lemma window_inject [simp]: "PHYS_TO_VIRT a = PHYS_TO_VIRT b \<longleftrightarrow> a = b"
  by (simp add: PHYS_TO_VIRT_def)

definition pte :: "'a paging_state_scheme \<Rightarrow> u32 \<Rightarrow> u32" where
  "pte s va = load32 (mem s) (entry_at (table_of (pde s (pd_index va))) (pt_index va))"

lemma mmu_walk_eq:
  assumes "page_aligned d"
  shows "mmu_walk m (VIRT_TO_PHYS d) va =
    (let e = load32 m (entry_at d (pd_index va)); p = load32 m (entry_at (table_of e) (pt_index va))
     in if bit e 0 \<and> bit p 0 then Some ((p AND 0xFFFFF000) OR (va AND 0xFFF)) else None)"
proof -
  have mask: "VIRT_TO_PHYS d AND 0xFFFFF000 = VIRT_TO_PHYS d"
    by (intro page_aligned_mask page_aligned_window assms)
  have "(VIRT_TO_PHYS d AND 0xFFFFF000) + 4 * drop_bit 22 va + 0xC0000000 = entry_at d (pd_index va)"
    unfolding mask by (simp add: VIRT_TO_PHYS_def entry_at_def pd_index_def)
  moreover have "(e AND 0xFFFFF000) + 4 * (drop_bit 12 va AND 0x3FF) + 0xC0000000
      = entry_at (table_of e) (pt_index va)" for e
    by (simp add: table_of_def PHYS_TO_VIRT_def entry_at_def pt_index_def)
  ultimately show ?thesis by (simp add: mmu_walk_def Let_def)
qed

lemma translate_eq:
  "page_aligned (page_directory s) \<Longrightarrow> translate s va =
    (if bit (pde s (pd_index va)) 0 \<and> bit (pte s va) 0
     then Some ((pte s va AND 0xFFFFF000) OR (va AND 0xFFF)) else None)"
  by (simp add: translate_def mmu_walk_eq Let_def pde_def pte_def)

lemma frame_plus_offset: "((p :: u32) AND 0xFFFFF000) + (va AND 0xFFF) = (p AND 0xFFFFF000) OR (va AND 0xFFF)"
  by (rule disjunctive_add) (simp add: mask_u32 bit_simps)

lemma paging_get_physical_eq:
  "page_aligned (page_directory s) \<Longrightarrow>
   paging_get_physical va s = (case translate s va of None \<Rightarrow> 0 | Some p \<Rightarrow> p)"
  by (simp add: translate_eq paging_get_physical_def Let_def present_bit pde_def pte_def table_of_def
      frame_plus_offset)

lemma same_page_iff: "same_page a b \<longleftrightarrow> pd_index a = pd_index b \<and> pt_index a = pt_index b"
proof -
  have q: "unat (pd_index x) = unat x div 4096 div 1024" "unat (pt_index x) = unat x div 4096 mod 1024" for x
    by (simp_all add: pd_index_def pt_index_def unat_drop12 unat_drop22 unat_and_1023 div_mult2_eq [symmetric])
  have "unat a div 4096 = unat b div 4096 \<longleftrightarrow>
      unat (pd_index a) = unat (pd_index b) \<and> unat (pt_index a) = unat (pt_index b)"
    unfolding q by (metis div_mult_mod_eq)
  then show ?thesis by (simp add: same_page_def u32_eq_iff unat_drop12)
qed

lemma entry_value:
  "bit ((pa AND 0xFFFFF000) OR (fl AND 0xFFF) OR (1 :: u32)) 0"
  "((pa AND 0xFFFFF000) OR (fl AND 0xFFF) OR (1 :: u32)) AND 0xFFFFF000 = pa AND 0xFFFFF000"
  "page_aligned t \<Longrightarrow> bit (t OR 1 OR 2 OR (fl AND 4)) 0"
  "page_aligned t \<Longrightarrow> (t OR 1 OR 2 OR (fl AND 4)) AND 0xFFFFF000 = t"
proof -
  show "bit ((pa AND 0xFFFFF000) OR (fl AND 0xFFF) OR (1 :: u32)) 0" by (simp add: bit_simps)
  show "((pa AND 0xFFFFF000) OR (fl AND 0xFFF) OR (1 :: u32)) AND 0xFFFFF000 = pa AND 0xFFFFF000"
    by (rule bit_word_eqI) (auto simp: mask_u32 bit_simps)
  show "bit (t OR 1 OR 2 OR (fl AND 4)) 0" by (simp add: bit_simps)
  assume "page_aligned t"
  then have t: "t = t AND 0xFFFFF000" by (simp add: page_aligned_mask)
  have two: "(2 :: u32) = push_bit 1 1" "(4 :: u32) = push_bit 2 1" by simp_all
  have "((t AND 0xFFFFF000) OR 1 OR 2 OR (fl AND 4)) AND 0xFFFFF000 = t AND 0xFFFFF000"
    unfolding two mask_u32 by (rule bit_word_eqI) (auto simp: bit_simps simp del: push_bit_of_1)
  then show "(t OR 1 OR 2 OR (fl AND 4)) AND 0xFFFFF000 = t" using t by simp
qed

section \<open>Writing one entry of a table\<close>

lemma paging_inv_parts:
  assumes "paging_inv s"
  shows "pmm_inv s" "page_aligned (page_directory s)" "VIRT_TO_PHYS (page_directory s) \<notin> avail_frames s"
    and "\<And>i. unat i < 1024 \<Longrightarrow> bit (pde s i) 0 \<Longrightarrow> pde s i AND 0xFFFFF000 \<notin> avail_frames s"
    and "\<And>i. unat i < 1024 \<Longrightarrow> bit (pde s i) 0 \<Longrightarrow> table_of (pde s i) \<noteq> page_directory s"
    and "\<And>i j. unat i < 1024 \<Longrightarrow> unat j < 1024 \<Longrightarrow> bit (pde s i) 0 \<Longrightarrow> bit (pde s j) 0 \<Longrightarrow>
      table_of (pde s i) = table_of (pde s j) \<Longrightarrow> i = j"
  using assms unfolding paging_inv_def by blast+

lemma paging_inv_cong:
  assumes "paging_inv s" "pmm_inv s'" "sym s' = sym s" "avail_frames s' = avail_frames s"
    and "\<And>i. unat i < 1024 \<Longrightarrow> pde s' i = pde s i"
  shows "paging_inv s'"
  using assms unfolding paging_inv_def by simp

lemma avail_frames_mem [simp]: "avail_frames (s\<lparr>mem := m\<rparr>) = avail_frames s"
  by (simp add: avail_frames_def)

lemma write_pte:
  fixes s :: "'a paging_state_scheme" and va v :: u32
  assumes inv: "paging_inv s" and here: "bit (pde s (pd_index va)) 0"
  defines "s' \<equiv> s\<lparr>mem := store32 (mem s) (entry_at (table_of (pde s (pd_index va))) (pt_index va)) v\<rparr>"
  shows "unat i < 1024 \<Longrightarrow> pde s' i = pde s i" and "paging_inv s'"
    and "translate s' va' = (if same_page va va'
      then if bit v 0 then Some ((v AND 0xFFFFF000) OR (va' AND 0xFFF)) else None
      else translate s va')"
proof -
  note parts = paging_inv_parts [OF inv]
  have keep: "pde s' i = pde s i" if "unat i < 1024" for i
    using parts(2) parts(5) [OF _ here] that
    by (simp add: s'_def pde_def [of "s\<lparr>mem := _\<rparr>"] load_store_slot) (simp add: pde_def)
  then show "unat i < 1024 \<Longrightarrow> pde s' i = pde s i" .
  show inv': "paging_inv s'"
    using parts(1) keep by (intro paging_inv_cong [OF inv]) (simp_all add: s'_def)
  have "pte s' va' = (if same_page va va' then v else pte s va')" if there: "bit (pde s (pd_index va')) 0"
  proof -
    have "pte s' va' = load32 (mem s') (entry_at (table_of (pde s (pd_index va'))) (pt_index va'))"
      by (simp add: pte_def keep)
    also have "\<dots> = (if table_of (pde s (pd_index va)) = table_of (pde s (pd_index va')) \<and> pt_index va = pt_index va'
        then v else pte s va')"
      by (simp add: s'_def load_store_slot pte_def)
    also have "(table_of (pde s (pd_index va)) = table_of (pde s (pd_index va')) \<and> pt_index va = pt_index va')
        \<longleftrightarrow> same_page va va'"
      using parts(6) [OF _ _ here there] by (auto simp: same_page_iff)
    finally show ?thesis .
  qed
  moreover have "page_aligned (page_directory s')" using parts(2) by (simp add: s'_def)
  moreover have "bit (pde s (pd_index va')) 0" if "same_page va va'" using that here by (simp add: same_page_iff)
  ultimately show "translate s' va' = (if same_page va va'
      then if bit v 0 then Some ((v AND 0xFFFFF000) OR (va' AND 0xFFF)) else None
      else translate s va')"
    using parts(2) by (cases "same_page va va'") (auto simp: translate_eq keep)
qed

section \<open>Adding a table\<close>

text \<open>The first half of \<^verbatim>\<open>paging_map_page\<close> when the directory entry is absent and a frame is found:
  a zeroed table appears, and no address translates differently.\<close>

lemma add_table:
  fixes s :: "'a paging_state_scheme" and va flags t :: u32 and s1 :: "'a paging_state_scheme"
  assumes inv: "paging_inv s" and absent: "\<not> bit (pde s (pd_index va)) 0"
    and alloc: "pmm_alloc_frame s = (t, s1)" and got: "t \<noteq> 0"
  defines "s3 \<equiv> s1\<lparr>mem := store32 (fill32 (mem s1) (PHYS_TO_VIRT t) 1024 0)
      (entry_at (page_directory s) (pd_index va)) (t OR 1 OR 2 OR (flags AND 4))\<rparr>"
  shows "paging_inv s3" and "bit (pde s3 (pd_index va)) 0" and "translate s3 va' = translate s va'"
    and "faults s3 = faults s" and "sym s3 = sym s"
    and "unat i < 1024 \<Longrightarrow> pde s3 i = (if i = pd_index va then t OR 1 OR 2 OR (flags AND 4) else pde s i)"
    and "avail_frames s3 = avail_frames s - {t}"
proof -
  note parts = paging_inv_parts [OF inv]
  note s1 = pmm_alloc_inv [OF parts(1) alloc]
  note kept = pmm_erase_fields [OF s1(3)]
  have t: "t \<in> avail_frames s" and avail: "avail_frames s1 = avail_frames s - {t}"
    using pmm_alloc_avail(1) [OF parts(1) alloc got] by auto
  have al: "page_aligned t" using pmm.avail_managed [OF parts(1) t] by (simp add: managed_frame_def)
  let ?T = "PHYS_TO_VIRT t"
  have alT: "page_aligned ?T" using al by (rule page_aligned_window)
  have notdir: "?T \<noteq> page_directory s" using parts(3) t by (metis window_inverse(2))
  have fresh: "table_of (pde s i) \<noteq> ?T" if "unat i < 1024" "bit (pde s i) 0" for i
    using parts(4) [OF that] t by (auto simp: table_of_def)
  have pde3: "pde s3 i = (if i = pd_index va then t OR 1 OR 2 OR (flags AND 4) else pde s i)"
    if "unat i < 1024" for i
    using that parts(2) alT notdir kept
    by (auto simp: s3_def pde_def load_store_slot load_fill_page)
  then show "unat i < 1024 \<Longrightarrow> pde s3 i = (if i = pd_index va then t OR 1 OR 2 OR (flags AND 4) else pde s i)" .
  have new: "table_of (pde s3 (pd_index va)) = ?T" "bit (pde s3 (pd_index va)) 0"
    using entry_value(3,4) [OF al] by (simp_all add: pde3 table_of_def)
  then show "bit (pde s3 (pd_index va)) 0" by simp
  show avail3: "avail_frames s3 = avail_frames s - {t}" using avail by (simp add: s3_def)
  have dir: "page_directory s3 = page_directory s" using kept by (simp add: s3_def)
  show "sym s3 = sym s" using kept by (simp add: s3_def)
  show "faults s3 = faults s" using s1(2) by (simp add: s3_def)
  have tab3: "table_of (pde s3 i) = (if i = pd_index va then ?T else table_of (pde s i))"
    if "unat i < 1024" for i using that new by (auto simp: pde3)
  show "paging_inv s3"
    unfolding paging_inv_def dir avail3
  proof (intro conjI allI impI)
    show "pmm_inv s3" using s1(1) by (simp add: s3_def)
    show "page_aligned (page_directory s)" by (rule parts(2))
    show "VIRT_TO_PHYS (page_directory s) \<notin> avail_frames s - {t}" using parts(3) by simp
  next
    fix i assume i: "unat i < 1024" "bit (pde s3 i) 0"
    show "pde s3 i AND 0xFFFFF000 \<notin> avail_frames s - {t}"
      using i parts(4) [OF i(1)] entry_value(4) [OF al] by (auto simp: pde3)
    show "table_of (pde s3 i) \<noteq> page_directory s"
      unfolding tab3 [OF i(1)] using i parts(5) [OF i(1)] notdir by (auto simp: pde3)
  next
    fix i j assume ij: "unat i < 1024" "unat j < 1024" "i \<noteq> j" "bit (pde s3 i) 0" "bit (pde s3 j) 0"
    then show "table_of (pde s3 i) \<noteq> table_of (pde s3 j)"
      unfolding tab3 [OF ij(1)] tab3 [OF ij(2)] using parts(6) [of i j] fresh [of i] fresh [of j] by (auto simp: pde3 split: if_splits)
  qed
  have "pte s3 va' = 0" if "pd_index va' = pd_index va"
    using that alT notdir parts(2) kept new
    by (simp add: pte_def) (simp add: s3_def load_store_slot load_fill_page)
  moreover have "pte s3 va' = pte s va'"
    if "pd_index va' \<noteq> pd_index va" "bit (pde s (pd_index va')) 0"
    using that alT parts(2) kept fresh [OF _ that(2)] parts(5) [OF _ that(2)]
    by (simp add: pte_def tab3) (auto simp: s3_def load_store_slot load_fill_page)
  ultimately show "translate s3 va' = translate s va'"
    using parts(2) absent by (auto simp: translate_eq dir pde3)
qed

section \<open>Mapping and unmapping\<close>

lemma paging_emit [simp]:
  "mem (hw_emit e s) = mem s" "sym (hw_emit e s) = sym s" "frame_bitmap (hw_emit e s) = frame_bitmap s"
  "total_frames (hw_emit e s) = total_frames s" "cpu (hw_emit e s) = cpu s"
  by (simp_all add: hw_emit_def)

lemma pmm_inv_emit [simp]: "pmm_inv (hw_emit e s) = pmm_inv s" "avail_frames (hw_emit e s) = avail_frames s"
  by (simp_all add: pmm_inv_def term_inv_def frame_free_def avail_frames_def free_frames_def hw_emit_def)

lemma paging_inv_emit [simp]:
  "paging_inv (hw_emit e s) = paging_inv s" "translate (hw_emit e s) = translate s" "pde (hw_emit e s) = pde s"
  by (simp_all add: paging_inv_def pde_def translate_def fun_eq_iff)

lemma paging_fault [simp]:
  "paging_inv (add_fault e s) = paging_inv s" "translate (add_fault e s) = translate s" "pde (add_fault e s) = pde s"
  "avail_frames (add_fault e s) = avail_frames s" "mem (add_fault e s) = mem s" "sym (add_fault e s) = sym s"
  "faults (add_fault e s) = e # faults s"
  by (simp_all add: paging_inv_def pmm_inv_def term_inv_def frame_free_def avail_frames_def free_frames_def
      pde_def translate_def fun_eq_iff add_fault_def)

text \<open>The frame that holds the table for a page: the one in the directory or, if there is none, the next
  free one. The page can be mapped if there is such a frame and the window shows it.\<close>

definition table_frame :: "'a paging_state_scheme \<Rightarrow> u32 \<Rightarrow> u32 option" where
  "table_frame s va =
     (if bit (pde s (pd_index va)) 0 then Some (pde s (pd_index va) AND 0xFFFFF000)
      else let t = fst (pmm_alloc_frame s) in if t = 0 then None else Some t)"

definition table_fault :: "'a paging_state_scheme \<Rightarrow> u32 \<Rightarrow> fault list" where
  "table_fault s va =
     (case table_frame s va of None \<Rightarrow> [] | Some t \<Rightarrow> (case window_fault s t of None \<Rightarrow> [] | Some e \<Rightarrow> [e]))"

definition mappable :: "'a paging_state_scheme \<Rightarrow> u32 \<Rightarrow> bool" where
  "mappable s va \<longleftrightarrow> table_frame s va \<noteq> None \<and> table_fault s va = []"

abbreviation window_shows :: "'a paging_state_scheme \<Rightarrow> u32 \<Rightarrow> bool" where
  "window_shows s pa \<equiv> window_fault s pa = None"

lemma window_shows_iff: "window_shows s pa \<longleftrightarrow> translate s (PHYS_TO_VIRT pa) = Some pa"
  by (auto simp: window_fault_def split: option.split)

lemma window_fault_cong: "translate s' = translate s \<Longrightarrow> window_fault s' = window_fault s"
  by (simp add: window_fault_def fun_eq_iff)

lemma set_entry_eq:
  "window_shows s (pde s (pd_index va) AND 0xFFFFF000) \<Longrightarrow> paging_set_entry va pa flags s = hw_emit (Invlpg va)
    (s\<lparr>mem := store32 (mem s) (entry_at (table_of (pde s (pd_index va))) (pt_index va))
        ((pa AND 0xFFFFF000) OR (flags AND 0xFFF) OR 1)\<rparr>)"
  by (simp add: paging_set_entry_def Let_def paging_flush_tlb_def table_of_def pde_def)

lemma set_entry_hidden:
  "window_fault s (pde s (pd_index va) AND 0xFFFFF000) = Some e \<Longrightarrow> paging_set_entry va pa flags s = add_fault e s"
  by (simp add: paging_set_entry_def Let_def pde_def)

lemma set_entry_spec:
  assumes "paging_inv s" and "bit (pde s (pd_index va)) 0" and "window_shows s (pde s (pd_index va) AND 0xFFFFF000)"
  shows "paging_inv (paging_set_entry va pa flags s)" "faults (paging_set_entry va pa flags s) = faults s"
    and "translate (paging_set_entry va pa flags s) va' =
      (if same_page va va' then Some ((pa AND 0xFFFFF000) OR (va' AND 0xFFF)) else translate s va')"
  unfolding set_entry_eq [OF assms(3)]
  using write_pte(2,3) [OF assms(1,2), of "(pa AND 0xFFFFF000) OR (flags AND 0xFFF) OR 1"]
  by (simp_all add: entry_value)

lemma alloc_paging_inv:
  assumes "paging_inv s" and "pmm_alloc_frame s = (a, s')"
  shows "paging_inv s'" and "translate s' = translate s" and "pde s' = pde s" and "window_fault s' = window_fault s"
    and "faults s' = faults s"
proof -
  note parts = paging_inv_parts [OF assms(1)]
  note s1 = pmm_alloc_inv [OF parts(1) assms(2)]
  note kept = pmm_erase_fields [OF s1(3)]
  show pde: "pde s' = pde s" using kept by (intro ext) (simp add: pde_def)
  show t: "translate s' = translate s" using kept by (intro ext) (simp add: translate_def)
  then show "window_fault s' = window_fault s" by (rule window_fault_cong)
  show "faults s' = faults s" by (rule s1(2))
  have "avail_frames s' \<subseteq> avail_frames s"
    using pmm_alloc_avail [OF parts(1) assms(2)] by (cases "a = 0") auto
  then show "paging_inv s'" using assms(1) s1(1) kept unfolding paging_inv_def pde by auto
qed

lemma map_page_cases:
  assumes "paging_inv s"
  obtains (present) "bit (pde s (pd_index va)) 0"
      "paging_map_page va pa flags s = paging_set_entry va pa flags s"
    | (added) t s1 s3 where "\<not> bit (pde s (pd_index va)) 0" "pmm_alloc_frame s = (t, s1)" "t \<noteq> 0"
      "s3 = s1\<lparr>mem := store32 (fill32 (mem s1) (PHYS_TO_VIRT t) 1024 0)
          (entry_at (page_directory s) (pd_index va)) (t OR 1 OR 2 OR (flags AND 4))\<rparr>"
      "paging_map_page va pa flags s = paging_set_entry va pa flags s3" "window_shows s t"
    | (hidden) t s1 e where "\<not> bit (pde s (pd_index va)) 0" "pmm_alloc_frame s = (t, s1)" "t \<noteq> 0"
      "window_fault s t = Some e" "paging_map_page va pa flags s = add_fault e s1"
    | (full) s1 where "\<not> bit (pde s (pd_index va)) 0" "pmm_alloc_frame s = (0, s1)"
      "paging_map_page va pa flags s = kprintf ''Paging: Failed to allocate page table\<newline>'' [] s1"
proof (cases "bit (pde s (pd_index va)) 0")
  case True
  then show thesis by (intro present) (simp_all add: paging_map_page_def Let_def present_bit pde_def)
next
  case False
  obtain t s1 where a: "pmm_alloc_frame s = (t, s1)" by fastforce
  note w = alloc_paging_inv(4) [OF assms a]
  show thesis
  proof (cases "t = 0")
    case True
    then show thesis using False a by (intro full) (simp_all add: paging_map_page_def Let_def present_bit pde_def)
  next
    case t: False
    show thesis
    proof (cases "window_fault s t")
      case None
      show thesis by (rule added [OF False a t refl])
        (use False a t w None in \<open>simp_all add: paging_map_page_def Let_def present_bit pde_def\<close>)
    next
      case (Some e)
      show thesis by (rule hidden [OF False a t Some])
        (use False a t w Some in \<open>simp add: paging_map_page_def Let_def present_bit pde_def\<close>)
    qed
  qed
qed

lemma new_table_shown:
  assumes "translate s3 = translate s" and "window_shows s t" and "page_aligned t"
    and "pde s3 (pd_index va) = t OR 1 OR 2 OR (flags AND 4)"
  shows "window_shows s3 (pde s3 (pd_index va) AND 0xFFFFF000)"
  using window_fault_cong [OF assms(1)] assms(2) entry_value(4) [OF assms(3)] by (simp add: assms(4))

lemma map_page_spec:
  fixes s :: "'a paging_state_scheme" and va pa flags :: u32
  assumes inv: "paging_inv s"
  defines "s' \<equiv> paging_map_page va pa flags s"
  shows "paging_inv s'" and "faults s' = table_fault s va @ faults s"
    and "translate s' va' = (if same_page va va' \<and> mappable s va
      then Some ((pa AND 0xFFFFF000) OR (va' AND 0xFFF)) else translate s va')"
proof -
  have "paging_inv s' \<and> faults s' = table_fault s va @ faults s \<and> translate s' va' =
      (if same_page va va' \<and> mappable s va
       then Some ((pa AND 0xFFFFF000) OR (va' AND 0xFFF)) else translate s va')"
    using inv
  proof (cases rule: map_page_cases [where va = va and pa = pa and flags = flags])
    case present
    then show ?thesis using set_entry_spec [OF inv present(1)] inv
      by (cases "window_fault s (pde s (pd_index va) AND 0xFFFFF000)")
        (simp_all add: s'_def mappable_def table_fault_def table_frame_def set_entry_hidden)
  next
    case (added t s1 s3)
    note t = add_table [OF inv added(1-3), where flags = flags, folded added(4)]
    have al: "page_aligned t"
      using pmm.avail_managed [OF paging_inv_parts(1) [OF inv]] pmm.alloc_takes [OF paging_inv_parts(1) [OF inv] added(2,3)]
      by (simp add: managed_frame_def)
    have "window_shows s3 (pde s3 (pd_index va) AND 0xFFFFF000)"
      using t(3,6) added(6) al by (intro new_table_shown) (auto simp: fun_eq_iff)
    then show ?thesis using added(1,2,3,5,6) t(3,4) set_entry_spec [OF t(1,2)]
      by (simp add: s'_def mappable_def table_fault_def table_frame_def)
  next
    case (hidden t s1 e)
    note s1 = alloc_paging_inv [OF inv hidden(2)]
    show ?thesis using hidden s1 by (simp add: s'_def mappable_def table_fault_def table_frame_def)
  next
    case (full s1)
    note s1 = pmm_alloc_inv [OF paging_inv_parts(1) [OF inv] full(2)]
    note kept = pmm_erase_fields [OF s1(3)]
    have avail: "avail_frames s1 = avail_frames s"
      using pmm_alloc_avail(2) [OF paging_inv_parts(1) [OF inv] full(2)] by simp
    have "paging_inv s'" unfolding s'_def full(3)
      using s1(1) kept avail by (intro paging_inv_cong [OF inv]) (auto simp: pmm_inv_kprintf pde_def avail_frames_def)
    moreover have "term_inv s1" using s1(1) by (simp add: pmm_inv_def)
    moreover have "translate s' va' = translate s va'" unfolding s'_def full(3) translate_def using kept by simp
    ultimately show ?thesis using full s1(2) kprintf_safe(2) [of _ "[]" s1]
      by (simp add: s'_def mappable_def table_fault_def table_frame_def)
  qed
  then show "paging_inv s'" "faults s' = table_fault s va @ faults s" "translate s' va' = (if same_page va va' \<and> mappable s va
      then Some ((pa AND 0xFFFFF000) OR (va' AND 0xFFF)) else translate s va')" by auto
qed

lemma unmap_page_spec:
  assumes "paging_inv s"
  shows "paging_inv (paging_unmap_page va s)" and "faults (paging_unmap_page va s) = faults s"
    and "translate (paging_unmap_page va s) va' = (if same_page va va' then None else translate s va')"
proof -
  have "paging_inv (paging_unmap_page va s) \<and> faults (paging_unmap_page va s) = faults s \<and>
    translate (paging_unmap_page va s) va' = (if same_page va va' then None else translate s va')"
  proof (cases "bit (pde s (pd_index va)) 0")
    case True
    then have "paging_unmap_page va s = hw_emit (Invlpg va)
        (s\<lparr>mem := store32 (mem s) (entry_at (table_of (pde s (pd_index va))) (pt_index va)) 0\<rparr>)"
      by (simp add: paging_unmap_page_def Let_def present_bit pde_def table_of_def paging_flush_tlb_def)
    then show ?thesis using write_pte(2,3) [OF assms True, of 0] by simp
  next
    case False
    then have "translate s va' = None" if "same_page va va'"
      using that paging_inv_parts(2) [OF assms] by (simp add: translate_eq same_page_iff)
    then show ?thesis using False assms by (auto simp: paging_unmap_page_def Let_def present_bit pde_def)
  qed
  then show "paging_inv (paging_unmap_page va s)" "faults (paging_unmap_page va s) = faults s"
    "translate (paging_unmap_page va s) va' = (if same_page va va' then None else translate s va')" by auto
qed

section \<open>The linear map\<close>

lemma unat_small [simp]: "n < 1024 \<Longrightarrow> unat (of_nat n :: u32) = n"
  by (simp add: u32_of_nat)

definition linear_entry :: "nat \<Rightarrow> nat \<Rightarrow> u32" where
  "linear_entry t i = of_nat ((t * 1024 + i) * 4096) OR 1 OR 2"

lemma linear_table_prefix:
  assumes "page_aligned table" "page_aligned u" "unat j < 1024"
  shows "n \<le> 1024 \<Longrightarrow>
    load32 (fold (\<lambda>i m. store32 m (entry_at table (of_nat i)) (linear_entry t i)) [0..<n] m) (entry_at u j) =
    (if u = table \<and> unat j < n then linear_entry t (unat j) else load32 m (entry_at u j))"
proof (induction n)
  case (Suc n)
  have "of_nat n = j \<longleftrightarrow> n = unat j" using Suc.prems by (auto simp: u32_eq_iff)
  then show ?case using Suc assms by (auto simp: load_store_slot less_Suc_eq)
qed simp

lemma linear_table_load:
  assumes "page_aligned table" "page_aligned u" "unat j < 1024"
  shows "load32 (linear_table table t m) (entry_at u j) =
    (if u = table then linear_entry t (unat j) else load32 m (entry_at u j))"
  using linear_table_prefix [OF assms, of 1024] assms(3)
  by (simp add: linear_table_def linear_entry_def Let_def)

definition table_page :: "u32 \<Rightarrow> nat \<Rightarrow> u32" where
  "table_page tables t = tables + 4096 * of_nat t"

lemma table_page_aligned: "page_aligned tables \<Longrightarrow> t < 4 \<Longrightarrow> page_aligned (table_page tables t)"
proof -
  assume "page_aligned tables" "t < 4"
  moreover from \<open>t < 4\<close> have "unat (4096 * of_nat t :: u32) = 4096 * t"
    using u32_of_nat [of "4096 * t"] by simp
  ultimately show ?thesis
    by (auto simp: table_page_def u32_add mod_eq_0_iff_dvd intro!: dvd_add dvd_diff_nat)
qed

lemma table_page_inject: "t < 4 \<Longrightarrow> u < 4 \<Longrightarrow> table_page tables t = table_page tables u \<longleftrightarrow> t = u"
proof -
  assume tu: "t < 4" "u < 4"
  have "unat (of_nat (4096 * t) :: u32) = 4096 * t" "unat (of_nat (4096 * u) :: u32) = 4096 * u"
    using tu by (simp_all only: u32_of_nat)
  then have "(of_nat (4096 * t) :: u32) = of_nat (4096 * u) \<longleftrightarrow> t = u" by (simp only: u32_eq_iff) simp
  then show ?thesis by (simp add: table_page_def)
qed

lemma linear_map_prefix:
  assumes "page_aligned dir" "page_aligned tables" "\<And>t. t < 4 \<Longrightarrow> table_page tables t \<noteq> dir"
    and "unat i < 1024" and "u < 4"
  defines "step \<equiv> \<lambda>t m. store32 (linear_table (table_page tables t) t m) (entry_at dir (768 + of_nat t))
      (VIRT_TO_PHYS (table_page tables t) OR 1 OR 2)"
  shows "n \<le> 4 \<Longrightarrow> load32 (fold step [0..<n] m) (entry_at dir i) =
      (if 768 \<le> unat i \<and> unat i < 768 + n then VIRT_TO_PHYS (table_page tables (unat i - 768)) OR 1 OR 2
       else load32 m (entry_at dir i))"
    and "n \<le> 4 \<Longrightarrow> load32 (fold step [0..<n] m) (entry_at (table_page tables u) i) =
      (if u < n then linear_entry u (unat i) else load32 m (entry_at (table_page tables u) i))"
proof -
  have idx: "unat (768 + of_nat n :: u32) = 768 + n" if "n < 4" for n
    using that u32_of_nat [of "768 + n"] by simp
  have alu: "page_aligned (table_page tables t)" if "t < 4" for t
    using table_page_aligned [OF assms(2) that] .
  show "n \<le> 4 \<Longrightarrow> load32 (fold step [0..<n] m) (entry_at dir i) =
      (if 768 \<le> unat i \<and> unat i < 768 + n then VIRT_TO_PHYS (table_page tables (unat i - 768)) OR 1 OR 2
       else load32 m (entry_at dir i))"
  proof (induction n)
    case (Suc n)
    have "768 + of_nat n = i \<longleftrightarrow> unat i = 768 + n" using idx [of n] Suc.prems by (auto simp: u32_eq_iff)
    then show ?case
      using Suc assms(1,4) assms(3) [of n] alu [of n] idx [of n]
      by (auto simp: step_def load_store_slot linear_table_load less_Suc_eq)
  qed auto
  show "n \<le> 4 \<Longrightarrow> load32 (fold step [0..<n] m) (entry_at (table_page tables u) i) =
      (if u < n then linear_entry u (unat i) else load32 m (entry_at (table_page tables u) i))"
  proof (induction n)
    case (Suc n)
    have "dir \<noteq> table_page tables u" using assms(3) [OF assms(5)] by simp
    then show ?case
      using Suc assms(1,4,5) alu [of n] alu [of u] idx [of n] table_page_inject [of n u tables]
      by (auto simp: step_def load_store_slot linear_table_load less_Suc_eq)
  qed simp
qed

text \<open>The directory and the four tables as \<^verbatim>\<open>linker.ld\<close> places them: page-aligned and apart.\<close>

definition tables_placed :: "'a hw_state_scheme \<Rightarrow> bool" where
  "tables_placed s \<longleftrightarrow> page_aligned (page_directory s) \<and> page_aligned (page_tables_sym (sym s))
     \<and> (\<forall>t < 4. table_page (page_tables_sym (sym s)) t \<noteq> page_directory s)"

lemma present_writable:
  assumes "page_aligned t"
  shows "bit (t OR 3) 0" and "(t OR 3) AND 0xFFFFF000 = t"
proof -
  show "bit (t OR 3) 0" unfolding bit_or_iff by (simp add: bit_0)
  have t: "t = t AND 0xFFFFF000" using assms by (simp add: page_aligned_mask)
  have three: "(3 :: u32) = mask 2" by (simp add: mask_eq_exp_minus_1)
  have "((t AND 0xFFFFF000) OR 3) AND 0xFFFFF000 = t AND 0xFFFFF000"
    unfolding mask_u32 three by (rule bit_word_eqI) (auto simp: bit_simps)
  then show "(t OR 3) AND 0xFFFFF000 = t" using t by simp
qed

lemma paging_init_fields:
  shows "mem (paging_init s) = linear_map (page_directory s) (page_tables_sym (sym s))
           (fill32 (mem s) (page_directory s) 1024 2)"
    and "sym (paging_init s) = sym s" and "reg_cr3 (cpu (paging_init s)) = VIRT_TO_PHYS (page_directory s)"
    and "frame_bitmap (paging_init s) = frame_bitmap s" and "total_frames (paging_init s) = total_frames s"
    and "used_frames (paging_init s) = used_frames s"
  by (simp_all add: paging_init_def Let_def paging_load_directory_def) (simp_all add: hw_emit_def)

lemma paging_init_entries:
  assumes "tables_placed s" and "unat i < 1024" and "t < 4"
  shows "pde (paging_init s) i = (if 768 \<le> unat i \<and> unat i < 772
      then VIRT_TO_PHYS (table_page (page_tables_sym (sym s)) (unat i - 768)) OR 3 else 2)"
    and "load32 (mem (paging_init s)) (entry_at (table_page (page_tables_sym (sym s)) t) i) = linear_entry t (unat i)"
proof -
  let ?T = "table_page (page_tables_sym (sym s))"
  have apart: "\<And>t. t < 4 \<Longrightarrow> ?T t \<noteq> page_directory s"
    and al: "page_aligned (page_directory s)" "page_aligned (page_tables_sym (sym s))"
    using assms(1) by (auto simp: tables_placed_def)
  have fold: "linear_map (page_directory s) (page_tables_sym (sym s)) m =
      fold (\<lambda>t m. store32 (linear_table (?T t) t m) (entry_at (page_directory s) (768 + of_nat t))
        (VIRT_TO_PHYS (?T t) OR 1 OR 2)) [0..<4] m" for m
    by (simp add: linear_map_def Let_def table_page_def)
  show "pde (paging_init s) i = (if 768 \<le> unat i \<and> unat i < 772
      then VIRT_TO_PHYS (?T (unat i - 768)) OR 3 else 2)"
    unfolding pde_def paging_init_fields fold
    using linear_map_prefix(1) [OF al apart assms(2,3), of 4] al(1) assms(2)
    by (simp add: load_fill_page)
  show "load32 (mem (paging_init s)) (entry_at (?T t) i) = linear_entry t (unat i)"
    unfolding paging_init_fields fold
    using linear_map_prefix(2) [OF al apart assms(2,3), of 4] assms(3) by simp
qed

lemma linear_entry_value:
  assumes "t < 4" and "i < 1024"
  shows "bit (linear_entry t i) 0" and "linear_entry t i AND 0xFFFFF000 = of_nat ((t * 1024 + i) * 4096)"
proof -
  have "unat (of_nat ((t * 1024 + i) * 4096) :: u32) = (t * 1024 + i) * 4096"
    using assms by (intro u32_of_nat) auto
  then have "page_aligned (of_nat ((t * 1024 + i) * 4096))" by (simp only: mod_mult_self2_is_0)
  from present_writable [OF this] show "bit (linear_entry t i) 0"
    "linear_entry t i AND 0xFFFFF000 = of_nat ((t * 1024 + i) * 4096)"
    unfolding linear_entry_def by simp_all
qed

text \<open>The address arithmetic of the window: directory index 768 to 771 and table index give back
  the offset from 0xC0000000.\<close>

lemma window_address:
  assumes "0xC0000000 \<le> va" and "va < 0xC1000000"
  shows "768 \<le> unat (pd_index va)" "unat (pd_index va) < 772"
    and "of_nat (((unat (pd_index va) - 768) * 1024 + unat (pt_index va)) * 4096) OR (va AND 0xFFF)
      = va - 0xC0000000"
proof -
  let ?v = "unat va" and ?p = "unat va div 4194304" and ?q = "unat va div 4096 mod 1024"
  have v: "3221225472 \<le> ?v" "?v < 3238002688" using assms by (simp_all add: u32_order)
  show p: "768 \<le> unat (pd_index va)" "unat (pd_index va) < 772"
    using v by (simp_all add: pd_index_def unat_drop22)
  let ?n = "((unat (pd_index va) - 768) * 1024 + unat (pt_index va)) * 4096"
  have small: "(a * 1024 + b) * 4096 < 4294967296" if "a < 4" "b < 1024" for a b :: nat using that by simp
  have n: "?n < 4294967296" by (rule small) (use p in auto)
  have "of_nat ?n AND 0xFFFFF000 = (of_nat ?n :: u32)"
    by (rule page_aligned_mask) (use n in \<open>simp only: u32_of_nat mod_mult_self2_is_0\<close>)
  then have or: "of_nat ?n OR (va AND 0xFFF) = of_nat ?n + (va AND 0xFFF)"
    using frame_plus_offset [of "of_nat ?n" va] by simp
  have split: "?v = ?p * 4194304 + ?q * 4096 + ?v mod 4096"
  proof -
    have "?p = ?v div 4096 div 1024" by (simp add: div_mult2_eq [symmetric])
    then show ?thesis using div_mult_mod_eq [of "?v div 4096" 1024] div_mult_mod_eq [of ?v 4096] by linarith
  qed
  have lin: "((a - 768) * 1024 + b) * 4096 = v - 3221225472 - r"
    if "v = a * 4194304 + b * 4096 + r" "768 \<le> a" for a b v r :: nat
    using that by (auto simp: le_iff_add)
  have "?n = ?v - 3221225472 - ?v mod 4096"
    using lin [OF split] p unfolding pd_index_def pt_index_def unat_drop22 unat_drop12 unat_and_1023 by blast
  moreover have "?v mod 4096 \<le> ?v - 3221225472" using split p by (simp add: pd_index_def unat_drop22)
  ultimately have sum: "?n + ?v mod 4096 = ?v - 3221225472" by (simp only: le_add_diff_inverse2)
  have "unat (of_nat ?n :: u32) = ?n" using n by (rule u32_of_nat)
  then have "unat (of_nat ?n + (va AND 0xFFF)) = ?v - 3221225472"
    using v by (simp only: u32_add unat_and_4095 sum) simp
  then show "of_nat ?n OR (va AND 0xFFF) = va - 0xC0000000"
    unfolding or using v by (simp add: u32_eq_iff u32_sub)
qed

lemma paging_init_translate:
  assumes "tables_placed s"
  shows "translate (paging_init s) va =
    (if 0xC0000000 \<le> va \<and> va < 0xC1000000 then Some (va - 0xC0000000) else None)"
proof -
  let ?T = "table_page (page_tables_sym (sym s))" and ?i = "unat (pd_index va)"
  have al: "page_aligned (page_directory (paging_init s))"
    using assms by (simp add: tables_placed_def paging_init_fields)
  have window: "0xC0000000 \<le> va \<and> va < 0xC1000000 \<longleftrightarrow> 768 \<le> ?i \<and> ?i < 772"
  proof -
    have "768 \<le> unat va div 4194304 \<longleftrightarrow> 3221225472 \<le> unat va" "unat va div 4194304 < 772 \<longleftrightarrow> unat va < 3238002688"
      using less_eq_div_iff_mult_less_eq [of 4194304 768 "unat va"] div_less_iff_less_mult [of 4194304 "unat va" 772]
      by simp_all
    then show ?thesis by (simp add: pd_index_def unat_drop22 u32_order)
  qed
  show ?thesis
  proof (cases "768 \<le> ?i \<and> ?i < 772")
    case True
    then have i: "?i - 768 < 4" by auto
    have T: "page_aligned (?T (?i - 768))"
      using assms i by (intro table_page_aligned) (auto simp: tables_placed_def)
    note e = present_writable [OF page_aligned_window(2) [OF T]]
    have d: "pde (paging_init s) (pd_index va) = VIRT_TO_PHYS (?T (?i - 768)) OR 3"
      using paging_init_entries(1) [OF assms, of "pd_index va" 0] True by simp
    then have "table_of (pde (paging_init s) (pd_index va)) = ?T (?i - 768)"
      unfolding table_of_def d e(2) by simp
    then have "pte (paging_init s) va = linear_entry (?i - 768) (unat (pt_index va))"
      using paging_init_entries(2) [OF assms, of "pt_index va"] i by (simp add: pte_def)
    then show ?thesis
      using window True e(1) d linear_entry_value [OF i, of "unat (pt_index va)"] window_address [of va]
      unfolding translate_eq [OF al] by simp
  next
    case False
    then have "pde (paging_init s) (pd_index va) = 2"
      using paging_init_entries(1) [OF assms, of "pd_index va" 0] by auto
    then show ?thesis using False window unfolding translate_eq [OF al] by (simp add: bit_0)
  qed
qed

lemma term_inv_paging [simp]:
  "term_inv (s\<lparr>current_page_directory := d\<rparr>) = term_inv s" "term_inv (s\<lparr>cpu := c\<rparr>) = term_inv s"
  "term_inv (hw_emit e s) = term_inv s"
  by (simp_all add: term_inv_def hw_emit_def)

lemma paging_init_console:
  assumes "term_inv s"
  shows "term_inv (paging_init s)" and "faults (paging_init s) = faults s"
  using assms by (simp_all add: paging_init_def Let_def paging_load_directory_def kprintf_safe)

lemma paging_init_inv:
  assumes placed: "tables_placed s" and pmm: "pmm_inv s"
    and own: "VIRT_TO_PHYS (page_directory s) \<notin> avail_frames s"
      "\<And>t. t < 4 \<Longrightarrow> VIRT_TO_PHYS (table_page (page_tables_sym (sym s)) t) \<notin> avail_frames s"
  shows "paging_inv (paging_init s)"
proof -
  let ?T = "table_page (page_tables_sym (sym s))" and ?s = "paging_init s"
  have avail: "avail_frames ?s = avail_frames s"
    by (simp add: avail_frames_def free_frames_def frame_free_def paging_init_fields)
  have dir: "page_directory ?s = page_directory s" by (simp add: paging_init_fields)
  have T: "page_aligned (?T t)" if "t < 4" for t
    using placed that by (intro table_page_aligned) (auto simp: tables_placed_def)
  have present: "768 \<le> unat i \<and> unat i < 772 \<and> pde ?s i AND 0xFFFFF000 = VIRT_TO_PHYS (?T (unat i - 768))
      \<and> table_of (pde ?s i) = ?T (unat i - 768)" if i: "unat i < 1024" "bit (pde ?s i) 0" for i
  proof -
    note e = paging_init_entries(1) [OF placed i(1), of 0]
    have r: "768 \<le> unat i \<and> unat i < 772" using e i(2) by (auto simp: bit_0 split: if_splits)
    then have "unat i - 768 < 4" by auto
    note pw = present_writable(2) [OF page_aligned_window(2) [OF T [OF this]]]
    have "pde ?s i = VIRT_TO_PHYS (?T (unat i - 768)) OR 3" using e r by simp
    then show ?thesis using r pw by (simp add: table_of_def)
  qed
  show ?thesis
    unfolding paging_inv_def dir avail
  proof (intro conjI allI impI)
    show "pmm_inv ?s" using pmm paging_init_console
      by (auto simp: pmm_inv_def paging_init_fields frame_free_def)
    show "page_aligned (page_directory s)" using placed by (simp add: tables_placed_def)
    show "VIRT_TO_PHYS (page_directory s) \<notin> avail_frames s" by (rule own)
  next
    fix i assume i: "unat i < 1024" "bit (pde ?s i) 0"
    note p = present [OF i]
    then have t: "unat i - 768 < 4" by auto
    show "pde ?s i AND 0xFFFFF000 \<notin> avail_frames s" using p own(2) [OF t] by simp
    show "table_of (pde ?s i) \<noteq> page_directory s" using p placed t by (simp add: tables_placed_def)
  next
    fix i j assume ij: "unat i < 1024" "unat j < 1024" "i \<noteq> j" "bit (pde ?s i) 0" "bit (pde ?s j) 0"
    note p = present [OF ij(1,4)] present [OF ij(2,5)]
    have t: "unat i - 768 < 4" "unat j - 768 < 4" using p by auto
    have "unat i - 768 \<noteq> unat j - 768" using p ij(3) by (auto simp: u32_eq_iff)
    then show "table_of (pde ?s i) \<noteq> table_of (pde ?s j)" using p table_page_inject [OF t] by simp
  qed
qed

section \<open>A new directory\<close>

lemma fold_mem:
  fixes s :: "'a paging_state_scheme"
  shows "fold (\<lambda>i st. st\<lparr>mem := g i (page_directory st) (mem st)\<rparr>) xs s
    = s\<lparr>mem := fold (\<lambda>i. g i (page_directory s)) xs (mem s)\<rparr>"
  by (induction xs arbitrary: s) simp_all

lemma copy_entries:
  assumes "page_aligned new" "page_aligned dir" "new \<noteq> dir" "page_aligned u" "unat j < 1024"
  shows "n \<le> 1024 \<Longrightarrow>
    load32 (fold (\<lambda>i m. store32 m (entry_at new (of_nat i)) (load32 m (entry_at dir (of_nat i)))) [768..<n] m) (entry_at u j) =
    (if u = new \<and> 768 \<le> unat j \<and> unat j < n then load32 m (entry_at dir j) else load32 m (entry_at u j))"
  using assms(4,5)
proof (induction n arbitrary: u j)
  case (Suc n)
  show ?case
  proof (cases "768 \<le> n")
    case True
    have eq: "of_nat n = j \<longleftrightarrow> n = unat j" using Suc.prems by (auto simp: u32_eq_iff)
    have "unat (of_nat n :: u32) < 1024" using Suc.prems by simp
    note old = Suc.IH [OF _ assms(2) this]
    show ?thesis
      using True Suc.prems assms(1,3) Suc.IH [OF _ Suc.prems(2,3)] old eq
      by (auto simp: load_store_slot less_Suc_eq)
  qed (use Suc.prems in auto)
qed simp

lemma upper_half: "0xC0000000 \<le> va \<longleftrightarrow> 768 \<le> unat (pd_index va)"
  using less_eq_div_iff_mult_less_eq [of 4194304 768 "unat va"]
  by (simp add: pd_index_def unat_drop22 u32_order)

lemma create_directory_shown:
  fixes s :: "'a paging_state_scheme"
  assumes inv: "paging_inv s" and create: "paging_create_directory s = (d, s')" and got: "d \<noteq> 0"
    and shown: "window_shows s d"
  shows "mmu_walk (mem s') d va = (if 0xC0000000 \<le> va then translate s va else None)"
    and "translate s' va = translate s va" and "paging_inv s'" and "faults s' = faults s"
    and "avail_frames s' = avail_frames s - {d}"
proof -
  note parts = paging_inv_parts [OF inv]
  obtain d' s1 where a: "pmm_alloc_frame s = (d', s1)" by fastforce
  have alloc: "pmm_alloc_frame s = (d, s1)" using create a got
    by (auto simp: paging_create_directory_def Let_def split: if_splits option.splits)
  have shown1: "window_shows s1 d" using alloc_paging_inv(4) [OF inv alloc] shown by simp
  note s1 = pmm_alloc_inv [OF parts(1) alloc]
  note kept = pmm_erase_fields [OF s1(3)]
  have d: "d \<in> avail_frames s" and avail: "avail_frames s1 = avail_frames s - {d}"
    using pmm_alloc_avail(1) [OF parts(1) alloc got] by auto
  have al: "page_aligned d" using pmm.avail_managed [OF parts(1) d] by (simp add: managed_frame_def)
  let ?T = "PHYS_TO_VIRT d" and ?dir = "page_directory s"
  have alT: "page_aligned ?T" using al by (rule page_aligned_window)
  have notdir: "?T \<noteq> ?dir" using parts(3) d by (metis window_inverse(2))
  have fresh: "table_of (pde s i) \<noteq> ?T" if "unat i < 1024" "bit (pde s i) 0" for i
    using parts(4) [OF that] d by (auto simp: table_of_def)
  define m where "m = fill32 (mem s) ?T 1024 2"
  have "s' = copy_kernel_entries ?T (s1\<lparr>mem := m\<rparr>)"
    using create alloc got kept shown1 by (simp add: paging_create_directory_def Let_def m_def)
  then have s': "s' = s1\<lparr>mem := fold (\<lambda>i m. store32 m (entry_at ?T (of_nat i)) (load32 m (entry_at ?dir (of_nat i)))) [768..<1024] m\<rparr>"
    using fold_mem [of "\<lambda>i dir m. store32 m (entry_at ?T (of_nat i)) (load32 m (entry_at dir (of_nat i)))"
        "[768..<1024]" "s1\<lparr>mem := m\<rparr>"] kept
    by (simp add: copy_kernel_entries_def del: upt_rec_numeral)
  have load: "load32 (mem s') (entry_at u j) = (if u = ?T then if 768 \<le> unat j then pde s j else 2
      else load32 (mem s) (entry_at u j))" if "page_aligned u" "unat j < 1024" for u j
    using copy_entries [OF alT parts(2) notdir that, of 1024] that parts(2) alT notdir
    by (auto simp: s' m_def load_fill_page pde_def simp del: upt_rec_numeral)
  have dir: "page_directory s' = ?dir" using kept by (simp add: s' del: upt_rec_numeral)
  have pdes: "pde s' i = pde s i" if "unat i < 1024" for i
    using that parts(2) notdir by (simp add: pde_def dir load)
  have ptes: "load32 (mem s') (entry_at (table_of (pde s i)) j) = load32 (mem s) (entry_at (table_of (pde s i)) j)"
    if "unat i < 1024" "bit (pde s i) 0" "unat j < 1024" for i j
    using fresh [OF that(1,2)] that(3) by (simp add: load)
  show "faults s' = faults s" using s1(2) by (simp add: s' del: upt_rec_numeral)
  show avail': "avail_frames s' = avail_frames s - {d}" using avail by (simp add: s' del: upt_rec_numeral)
  show "translate s' va = translate s va"
    using parts(2) ptes by (auto simp: translate_eq dir pdes pte_def)
  show "mmu_walk (mem s') d va = (if 0xC0000000 \<le> va then translate s va else None)"
  proof -
    have e: "load32 (mem s') (entry_at ?T (pd_index va)) = (if 0xC0000000 \<le> va then pde s (pd_index va) else 2)"
      using alT by (simp add: load upper_half)
    have "bit (pde s (pd_index va)) 0 \<Longrightarrow> load32 (mem s') (entry_at (table_of (pde s (pd_index va))) (pt_index va)) = pte s va"
      using ptes [of "pd_index va" "pt_index va"] by (simp add: pte_def)
    moreover have "\<not> bit (2 :: u32) 0" by (simp add: bit_0)
    ultimately show ?thesis
      using mmu_walk_eq [OF alT, of "mem s'" va] translate_eq [OF parts(2), of va]
      by (cases "0xC0000000 \<le> va"; cases "bit (pde s (pd_index va)) 0") (simp_all add: Let_def e)
  qed
  have "pmm_inv s'" using s1(1) by (simp add: s' del: upt_rec_numeral)
  then show "paging_inv s'"
    using inv pdes unfolding paging_inv_def dir avail' by auto
qed

text \<open>In general: a frame the window does not show is lost, with a fault.\<close>

lemma create_directory_spec:
  fixes s :: "'a paging_state_scheme"
  assumes inv: "paging_inv s" and create: "paging_create_directory s = (d, s')" and got: "d \<noteq> 0"
  shows "window_shows s d \<Longrightarrow> mmu_walk (mem s') d va = (if 0xC0000000 \<le> va then translate s va else None)"
    and "translate s' va = translate s va" and "paging_inv s'" and "avail_frames s' = avail_frames s - {d}"
    and "faults s' = (case window_fault s d of None \<Rightarrow> faults s | Some e \<Rightarrow> e # faults s)"
proof -
  note shown = create_directory_shown [OF assms]
  show "window_shows s d \<Longrightarrow> mmu_walk (mem s') d va = (if 0xC0000000 \<le> va then translate s va else None)"
    by (rule shown)
  have hidden: "translate s' = translate s \<and> paging_inv s' \<and> faults s' = e # faults s \<and> avail_frames s' = avail_frames s - {d}"
    if e: "window_fault s d = Some e" for e
  proof -
    obtain d' s1 where a: "pmm_alloc_frame s = (d', s1)" by fastforce
    have alloc: "pmm_alloc_frame s = (d, s1)" using create a got
      by (auto simp: paging_create_directory_def Let_def split: if_splits option.splits)
    note s1 = alloc_paging_inv [OF inv alloc]
    have "s' = add_fault e s1" using create alloc got e s1(4) by (simp add: paging_create_directory_def)
    then show ?thesis using s1 pmm_alloc_avail(1) [OF paging_inv_parts(1) [OF inv] alloc got] by simp
  qed
  show "translate s' va = translate s va" "paging_inv s'" "avail_frames s' = avail_frames s - {d}"
    "faults s' = (case window_fault s d of None \<Rightarrow> faults s | Some e \<Rightarrow> e # faults s)"
    by (cases "window_fault s d"; use shown hidden in simp)+
qed

section \<open>The contract of a page mapper\<close>

definition page_no :: "u32 \<Rightarrow> nat" where "page_no va = unat va div 4096"

lemma same_page_no: "same_page a b \<longleftrightarrow> page_no a = page_no b"
  by (simp add: same_page_def page_no_def u32_eq_iff unat_drop12)

lemma page_no_step:
  assumes "page_no va + 1 < 1048576"
  shows "page_no (va + 4096) = page_no va + 1"
proof -
  have "unat va + 4096 < 4294967296"
  proof (rule ccontr)
    assume "\<not> unat va + 4096 < 4294967296"
    then have "4294963200 div 4096 \<le> unat va div 4096" by (intro div_le_mono) simp
    then show False using assms by (simp add: page_no_def)
  qed
  then show ?thesis by (simp add: page_no_def u32_add)
qed

text \<open>What the heap and the virtual memory manager rely on. A page that is ready can be mapped without
  taking a frame, and exactly its own translation changes. Another page that is ready stays so, unless
  the mapped page is the one through which its table is reached.\<close>

locale page_mapper =
  fixes map_page :: "u32 \<Rightarrow> u32 \<Rightarrow> u32 \<Rightarrow> 's \<Rightarrow> 's"
    and unmap_page :: "u32 \<Rightarrow> 's \<Rightarrow> 's"
    and xlate :: "'s \<Rightarrow> u32 \<Rightarrow> u32 option"
    and ready :: "'s \<Rightarrow> u32 \<Rightarrow> bool"
    and hides :: "'s \<Rightarrow> u32 \<Rightarrow> u32 \<Rightarrow> bool"
    and inv :: "'s \<Rightarrow> bool"
  assumes map_inv: "inv s \<Longrightarrow> inv (map_page va pa flags s)"
    and map_xlate: "inv s \<Longrightarrow> ready s va \<Longrightarrow> xlate (map_page va pa flags s) va' =
      (if same_page va va' then Some ((pa AND 0xFFFFF000) OR (va' AND 0xFFF)) else xlate s va')"
    and map_keeps_ready: "inv s \<Longrightarrow> ready s va \<Longrightarrow> ready s va' \<Longrightarrow> \<not> hides s va va' \<Longrightarrow> ready (map_page va pa flags s) va'"
    and map_hides: "inv s \<Longrightarrow> ready s va \<Longrightarrow> hides (map_page va pa flags s) = hides s"
    and unmap_inv: "inv s \<Longrightarrow> inv (unmap_page va s)"
    and unmap_xlate: "inv s \<Longrightarrow> xlate (unmap_page va s) va' = (if same_page va va' then None else xlate s va')"
begin

lemma unmap_map:
  assumes "inv s" and "ready s va" and "\<And>va'. same_page va va' \<Longrightarrow> xlate s va' = None"
  shows "xlate (unmap_page va (map_page va pa flags s)) = xlate s"
  using assms by (auto simp: fun_eq_iff unmap_xlate map_inv map_xlate)

lemma map_commute:
  assumes "inv s" and "ready s va" "ready s vb" and "\<not> same_page va vb"
    and "\<not> hides s va vb" "\<not> hides s vb va"
  shows "xlate (map_page va pa f (map_page vb pb g s)) = xlate (map_page vb pb g (map_page va pa f s))"
  using assms by (auto simp: fun_eq_iff map_inv map_xlate map_keeps_ready same_page_def)

end

text \<open>The loop that \<^verbatim>\<open>kheap_init\<close> and \<^verbatim>\<open>heap_expand\<close> share: a fresh frame for each of \<open>n\<close> pages from
  \<open>va\<close> on, until the frames run out.\<close>

fun map_fresh :: "('s \<Rightarrow> u32 \<times> 's) \<Rightarrow> (u32 \<Rightarrow> u32 \<Rightarrow> u32 \<Rightarrow> 's \<Rightarrow> 's) \<Rightarrow> u32 \<Rightarrow> nat \<Rightarrow> u32 \<Rightarrow> 's \<Rightarrow> bool \<times> 's" where
  "map_fresh alloc map_page flags 0 va s = (True, s)"
| "map_fresh alloc map_page flags (Suc n) va s =
     (case alloc s of
        (frame, s1) \<Rightarrow>
          if frame = 0 then (False, s1)
          else map_fresh alloc map_page flags n (va + 4096) (map_page va frame flags s1))"

locale demand_mapper = frame_source alloc avail inv + page_mapper map_page unmap_page xlate ready hides inv
  for alloc :: "'s \<Rightarrow> u32 \<times> 's" and avail :: "'s \<Rightarrow> u32 set" and inv :: "'s \<Rightarrow> bool"
    and map_page :: "u32 \<Rightarrow> u32 \<Rightarrow> u32 \<Rightarrow> 's \<Rightarrow> 's" and unmap_page :: "u32 \<Rightarrow> 's \<Rightarrow> 's"
    and xlate :: "'s \<Rightarrow> u32 \<Rightarrow> u32 option" and ready :: "'s \<Rightarrow> u32 \<Rightarrow> bool" and hides :: "'s \<Rightarrow> u32 \<Rightarrow> u32 \<Rightarrow> bool" +
  assumes map_avail: "inv s \<Longrightarrow> ready s va \<Longrightarrow> avail (map_page va pa flags s) = avail s"
    and alloc_xlate: "inv s \<Longrightarrow> alloc s = (a, s') \<Longrightarrow> xlate s' = xlate s"
    and alloc_ready: "inv s \<Longrightarrow> alloc s = (a, s') \<Longrightarrow> ready s' = ready s"
    and alloc_hides: "inv s \<Longrightarrow> alloc s = (a, s') \<Longrightarrow> hides s' = hides s"
begin

lemma map_fresh_inv:
  assumes "inv s" and "map_fresh alloc map_page flags n va s = (ok, s')"
  shows "inv s'"
  using assms
proof (induction n arbitrary: va s)
  case (Suc n)
  obtain f s1 where a: "alloc s = (f, s1)" by fastforce
  note i1 = alloc_inv [OF Suc.prems(1) a]
  show ?case
  proof (cases "f = 0")
    case True then show ?thesis using Suc.prems a i1 by simp
  next
    case False
    then show ?thesis using Suc.prems(2) a Suc.IH [OF map_inv [OF i1]] by simp
  qed
qed simp

text \<open>Every page of the range gets a frame of its own; no other page is affected.\<close>

lemma map_fresh_xlate:
  assumes "inv s" and "map_fresh alloc map_page flags n va s = (True, s')"
    and "\<And>k. k < n \<Longrightarrow> ready s (va + 4096 * of_nat k)" and "page_no va + n \<le> 1048576"
    and "\<And>k l. k < n \<Longrightarrow> l < n \<Longrightarrow> \<not> hides s (va + 4096 * of_nat k) (va + 4096 * of_nat l)"
  shows "\<exists>fs. length fs = n \<and> distinct fs \<and> set fs \<subseteq> avail s \<and> avail s' = avail s - set fs
    \<and> (\<forall>va'. xlate s' va' = (if page_no va \<le> page_no va' \<and> page_no va' < page_no va + n
         then Some (fs ! (page_no va' - page_no va) OR (va' AND 0xFFF)) else xlate s va'))"
  using assms
proof (induction n arbitrary: va s)
  case 0
  then show ?case by auto
next
  case (Suc n)
  obtain f s1 where a: "alloc s = (f, s1)" by fastforce
  have f: "f \<noteq> 0" using Suc.prems(2) a by (auto split: if_splits)
  let ?s2 = "map_page va f flags s1"
  have rest: "map_fresh alloc map_page flags n (va + 4096) ?s2 = (True, s')"
    using Suc.prems(2) a f by simp
  note i1 = alloc_inv [OF Suc.prems(1) a]
  have t: "f \<in> avail s" "avail s1 = avail s - {f}" using alloc_takes [OF Suc.prems(1) a f] by auto
  have tab: "ready s1 va" using Suc.prems(3) [of 0] alloc_ready [OF Suc.prems(1) a] by simp
  have tabs: "ready ?s2 (va + 4096 * of_nat k)" if "k < Suc n" for k
    using Suc.prems(3) [OF that] alloc_ready [OF Suc.prems(1) a] alloc_hides [OF Suc.prems(1) a]
      map_keeps_ready [OF i1 tab] Suc.prems(5) [of 0 k] that by simp
  have av2: "avail ?s2 = avail s - {f}" using map_avail [OF i1 tab] t by simp
  have mask: "f AND 0xFFFFF000 = f" using avail_aligned [OF Suc.prems(1) t(1)] by (rule page_aligned_mask)
  have x2: "xlate ?s2 va' = (if page_no va = page_no va' then Some (f OR (va' AND 0xFFF)) else xlate s va')" for va'
    using map_xlate [OF i1 tab, of f flags va'] alloc_xlate [OF Suc.prems(1) a] mask
    by (simp add: same_page_no)
  have next_page: "page_no (va + 4096) + n \<le> 1048576 \<and> (0 < n \<longrightarrow> page_no (va + 4096) = page_no va + 1)"
  proof (cases "n = 0")
    case True
    have "unat (va + 4096) div 4096 < 1048576" using u32_bound [of "va + 4096"] by (simp add: div_less_iff_less_mult)
    then show ?thesis using True by (simp add: page_no_def)
  next
    case False
    then show ?thesis using Suc.prems(4) page_no_step [of va] by simp
  qed
  have hid: "hides ?s2 = hides s" using map_hides [OF i1 tab] alloc_hides [OF Suc.prems(1) a] by simp
  have "\<not> hides ?s2 (va + 4096 + 4096 * of_nat k) (va + 4096 + 4096 * of_nat l)" if "k < n" "l < n" for k l
    using Suc.prems(5) [of "Suc k" "Suc l"] that hid by (simp add: algebra_simps)
  moreover have "ready ?s2 (va + 4096 + 4096 * of_nat k)" if "k < n" for k
    using tabs [of "Suc k"] that by (simp add: algebra_simps)
  moreover note next_page
  ultimately obtain fs where fs: "length fs = n" "distinct fs" "set fs \<subseteq> avail ?s2" "avail s' = avail ?s2 - set fs"
    "\<And>va'. xlate s' va' = (if page_no (va + 4096) \<le> page_no va' \<and> page_no va' < page_no (va + 4096) + n
       then Some (fs ! (page_no va' - page_no (va + 4096)) OR (va' AND 0xFFF)) else xlate ?s2 va')"
    using Suc.IH [OF map_inv [OF i1] rest] by metis
  have "xlate s' va' = (if page_no va \<le> page_no va' \<and> page_no va' < page_no va + Suc n
      then Some ((f # fs) ! (page_no va' - page_no va) OR (va' AND 0xFFF)) else xlate s va')" for va'
  proof (cases "page_no va' = page_no va")
    case True
    then show ?thesis using fs(5) [of va'] x2 [of va'] next_page by (cases "n = 0") auto
  next
    case False
    show ?thesis
    proof (cases "0 < n \<and> page_no va < page_no va'")
      case True
      then have "(f # fs) ! (page_no va' - page_no va) = fs ! (page_no va' - page_no (va + 4096))"
        using next_page by (simp add: nth_Cons')
      then show ?thesis using True False fs(5) [of va'] x2 [of va'] next_page by auto
    next
      case outside: False
      then show ?thesis using False fs(5) [of va'] x2 [of va'] next_page by (cases "n = 0") auto
    qed
  qed
  moreover have "length (f # fs) = Suc n" "distinct (f # fs)" "set (f # fs) \<subseteq> avail s" "avail s' = avail s - set (f # fs)"
    using fs(1-4) av2 t by auto
  ultimately show ?case by blast
qed

end

definition table_present :: "'a paging_state_scheme \<Rightarrow> u32 \<Rightarrow> bool" where
  "table_present s va \<longleftrightarrow> bit (pde s (pd_index va)) 0"

text \<open>A page is ready if its table exists and the window shows it. Mapping the page \<open>va\<close> hides the table
  of \<open>va'\<close> if \<open>va\<close> is the page at which the window shows it.\<close>

definition page_ready :: "'a paging_state_scheme \<Rightarrow> u32 \<Rightarrow> bool" where
  "page_ready s va \<longleftrightarrow> table_present s va \<and> window_shows s (pde s (pd_index va) AND 0xFFFFF000)"

definition hides_table :: "'a paging_state_scheme \<Rightarrow> u32 \<Rightarrow> u32 \<Rightarrow> bool" where
  "hides_table s va va' \<longleftrightarrow> same_page va (table_of (pde s (pd_index va')))"

lemma page_readyD:
  "page_ready s va \<Longrightarrow> table_present s va" "page_ready s va \<Longrightarrow> bit (pde s (pd_index va)) 0"
  "page_ready s va \<Longrightarrow> window_shows s (pde s (pd_index va) AND 0xFFFFF000)"
  by (auto simp: page_ready_def table_present_def)

lemma map_page_present:
  "table_present s va \<Longrightarrow> paging_map_page va pa flags s = paging_set_entry va pa flags s"
  by (simp add: table_present_def paging_map_page_def Let_def present_bit pde_def)

lemma set_entry_pde:
  assumes "paging_inv s" and "table_present s va" and "unat i < 1024"
  shows "pde (paging_set_entry va pa flags s) i = pde s i"
proof (cases "window_fault s (pde s (pd_index va) AND 0xFFFFF000)")
  case None
  then show ?thesis using write_pte(1) [of s va i] assms by (simp add: set_entry_eq table_present_def)
qed (simp add: set_entry_hidden)

text \<open>Mapping a ready page leaves the window as it was at every other page.\<close>

lemma set_entry_window:
  assumes "paging_inv s" and "page_ready s va" and "\<not> same_page va (PHYS_TO_VIRT t)"
  shows "window_fault (paging_set_entry va pa flags s) t = window_fault s t"
  using set_entry_spec(3) [OF assms(1) page_readyD(2,3) [OF assms(2)]] assms(3) by (simp add: window_fault_def)

lemma map_page_ready:
  assumes "paging_inv s" and "page_ready s va" and "page_ready s va'" and "\<not> hides_table s va va'"
  shows "page_ready (paging_map_page va pa flags s) va'"
  using assms(3,4) set_entry_pde [OF assms(1) page_readyD(1) [OF assms(2)], of _ pa flags] set_entry_window [OF assms(1,2)]
  by (simp add: map_page_present [OF page_readyD(1) [OF assms(2)]] page_ready_def table_present_def hides_table_def table_of_def)

lemma ready_mappable: "page_ready s va \<Longrightarrow> mappable s va" "page_ready s va \<Longrightarrow> table_fault s va = []"
  by (simp_all add: page_ready_def table_present_def mappable_def table_fault_def table_frame_def)

lemma demand_mapper_paging:
  "demand_mapper (pmm_alloc_frame :: 'a paging_state_scheme \<Rightarrow> _) avail_frames paging_inv
     paging_map_page paging_unmap_page translate page_ready hides_table"
proof
  fix s :: "'a paging_state_scheme" and a va va' pa flags :: u32 and s'
  assume inv: "paging_inv s"
  note pmm_i = paging_inv_parts(1) [OF inv]
  show "paging_inv s'" if "pmm_alloc_frame s = (a, s')" using alloc_paging_inv(1) [OF inv that] .
  show "a \<in> avail_frames s \<and> avail_frames s' = avail_frames s - {a}"
    if "pmm_alloc_frame s = (a, s')" "a \<noteq> 0" using pmm.alloc_takes [OF pmm_i that] .
  show "avail_frames s' = avail_frames s" if "pmm_alloc_frame s = (0, s')"
    using pmm.alloc_fails [OF pmm_i that] .
  show "page_aligned a" if "a \<in> avail_frames s" using pmm.avail_aligned [OF pmm_i that] .
  show "paging_inv (paging_map_page va pa flags s)" using map_page_spec(1) [OF inv] .
  show "translate (paging_map_page va pa flags s) va' =
      (if same_page va va' then Some ((pa AND 0xFFFFF000) OR (va' AND 0xFFF)) else translate s va')"
    if "page_ready s va" using map_page_spec(3) [OF inv] ready_mappable(1) [OF that] by simp
  show "page_ready (paging_map_page va pa flags s) va'" if "page_ready s va" "page_ready s va'" "\<not> hides_table s va va'"
    using map_page_ready [OF inv that] .
  show "hides_table (paging_map_page va pa flags s) = hides_table s" if "page_ready s va"
    using set_entry_pde [OF inv page_readyD(1) [OF that]]
    by (simp add: map_page_present [OF page_readyD(1) [OF that]] hides_table_def fun_eq_iff)
  show "paging_inv (paging_unmap_page va s)" using unmap_page_spec(1) [OF inv] .
  show "translate (paging_unmap_page va s) va' = (if same_page va va' then None else translate s va')"
    using unmap_page_spec(3) [OF inv] .
  show "avail_frames (paging_map_page va pa flags s) = avail_frames s" if "page_ready s va"
    by (simp add: map_page_present [OF page_readyD(1) [OF that]] set_entry_eq [OF page_readyD(3) [OF that]])
  show "translate s' = translate s" if "pmm_alloc_frame s = (a, s')" using alloc_paging_inv(2) [OF inv that] .
  show "page_ready s' = page_ready s" if "pmm_alloc_frame s = (a, s')"
    using alloc_paging_inv(3,4) [OF inv that] by (simp add: page_ready_def table_present_def fun_eq_iff)
  show "hides_table s' = hides_table s" if "pmm_alloc_frame s = (a, s')"
    using alloc_paging_inv(3) [OF inv that] by (simp add: hides_table_def fun_eq_iff)
qed

interpretation vm: demand_mapper "pmm_alloc_frame :: 'a paging_state_scheme \<Rightarrow> _" avail_frames paging_inv
    paging_map_page paging_unmap_page translate page_ready hides_table
  by (rule demand_mapper_paging)

section \<open>The sample state\<close>

lemma sample_paging_fields [simp]:
  "mem sample_paging = sample_memory" "frame_bitmap sample_paging = frame_bitmap sample_pmm"
  "total_frames sample_paging = 336" "used_frames sample_paging = 334"
  "page_directory sample_paging = 0xC0115000" "page_tables_sym (sym sample_paging) = 0xC0116000"
  "faults sample_paging = []" "term_inv sample_paging"
  using sample_pmm_inv
  by (simp_all add: sample_paging_def pmm_state.defs sample_pmm_def intr_state.defs sample_intr_def
      sample_symbols_def term_inv_def)

lemma sample_paging_free: "frame_free sample_paging f \<longleftrightarrow> f = 322 \<or> f = 328"
  using sample_pmm_free by (simp add: frame_free_def)

lemma sample_paging_pmm: "pmm_inv sample_paging"
  using sample_pmm_inv by (auto simp: pmm_inv_def sample_paging_free)

lemma sample_paging_avail: "avail_frames sample_paging = {0x142000, 0x148000}"
proof -
  have "free_frames sample_paging = {322, 328}" by (auto simp: free_frames_def sample_paging_free)
  then show ?thesis by (simp add: avail_frames_def)
qed

lemma sample_placed: "tables_placed sample_paging"
proof -
  have "t \<in> {0, 1, 2, 3}" if "t < 4" for t :: nat using that by auto
  then show ?thesis by (fastforce simp: tables_placed_def table_page_def)
qed

lemma sample_paging_inv: "paging_inv (paging_init sample_paging)"
proof (rule paging_init_inv [OF sample_placed sample_paging_pmm])
  show "VIRT_TO_PHYS (page_directory sample_paging) \<notin> avail_frames sample_paging"
    by (simp add: sample_paging_avail VIRT_TO_PHYS_def)
  have "t \<in> {0, 1, 2, 3}" if "t < 4" for t :: nat using that by auto
  then show "VIRT_TO_PHYS (table_page (page_tables_sym (sym sample_paging)) t) \<notin> avail_frames sample_paging"
    if "t < 4" for t using that by (fastforce simp: sample_paging_avail VIRT_TO_PHYS_def table_page_def)
qed

lemma sample_init_alloc: "fst (pmm_alloc_frame (paging_init sample_paging)) = 0x142000"
proof -
  let ?s = "paging_init sample_paging"
  have free: "frame_free ?s f \<longleftrightarrow> f = 322 \<or> f = 328" for f
    using sample_paging_free by (simp add: frame_free_def paging_init_fields)
  have limit: "scan_limit ?s = 336" by (simp add: scan_limit_def paging_init_fields)
  from paging_inv_parts(1) [OF sample_paging_inv] show ?thesis
  proof (cases rule: pmm_alloc_cases)
    case (frame f)
    then have "f = 322" using frame(4) [of 322] by (auto simp: free)
    then show ?thesis using frame(1) by simp
  next
    case none
    from none(2) [of 322] show ?thesis by (simp add: limit free)
  qed
qed

section \<open>Properties\<close>







text \<open>
  C26. After \<^verbatim>\<open>paging_init\<close> the first 16 MB of physical memory appear at 0xC0000000, one to one, and
  no other address is mapped (the identity map of the boot code is gone). CR3 holds the
  physical address of the directory.
\<close>

theorem paging_init_maps_kernel_window:
  assumes "tables_placed s"
  shows "mmu_walk (mem (paging_init s)) (reg_cr3 (cpu (paging_init s))) va =
    (if 0xC0000000 \<le> va \<and> va < 0xC1000000 then Some (VIRT_TO_PHYS va) else None)"
  using paging_init_translate [OF assms, of va]
  by (simp add: translate_def paging_init_fields VIRT_TO_PHYS_def)

theorem paging_init_maps_kernel_window_witness:
  "tables_placed sample_paging
   \<and> mmu_walk (mem (paging_init sample_paging)) (reg_cr3 (cpu (paging_init sample_paging))) 0xC00B8000 = Some 0xB8000
   \<and> mmu_walk (mem (paging_init sample_paging)) (reg_cr3 (cpu (paging_init sample_paging))) 0xB8000 = None"
  using sample_placed paging_init_maps_kernel_window [OF sample_placed] by (simp add: VIRT_TO_PHYS_def)

text \<open>
  C33. A directory made by \<^verbatim>\<open>paging_create_directory\<close> on a frame that the window at 0xC0000000 shows
  presents the kernel's half of the address space exactly as the kernel's own directory does and
  nothing below it. In every case one free frame is taken and the kernel's translations are left
  alone; a frame that the window does not show is a fault: a page fault where its address in the
  window is not mapped, \<open>Wrong_Frame\<close> where it leads elsewhere.
\<close>

theorem paging_create_directory_shares_kernel:
  assumes "paging_inv s" and "paging_create_directory s = (d, s')" and "d \<noteq> 0"
  shows "(translate s (PHYS_TO_VIRT d) = Some d \<longrightarrow>
      mmu_walk (mem s') d va = (if 0xC0000000 \<le> va then translate s va else None))
    \<and> translate s' va = translate s va \<and> avail_frames s' = avail_frames s - {d} \<and> paging_inv s'
    \<and> faults s' = (case translate s (PHYS_TO_VIRT d) of
        None \<Rightarrow> Page_Fault # faults s
      | Some p \<Rightarrow> if p = d then faults s else Wrong_Frame # faults s)"
  using create_directory_spec [OF assms] window_shows_iff [of s d] by (simp add: window_fault_def split: option.split)

theorem paging_create_directory_shares_kernel_witness:
  "fst (paging_create_directory (paging_init sample_paging)) = 0x142000
   \<and> mmu_walk (mem (snd (paging_create_directory (paging_init sample_paging)))) 0x142000 0xC0101234 = Some 0x101234
   \<and> mmu_walk (mem (snd (paging_create_directory (paging_init sample_paging)))) 0x142000 0x1000 = None
   \<and> faults (snd (paging_create_directory (paging_init sample_paging))) = []"
proof -
  let ?s = "paging_init sample_paging"
  have d: "fst (paging_create_directory ?s) = 0x142000"
    using sample_init_alloc by (auto simp: paging_create_directory_def Let_def split: prod.splits option.splits)
  then have "fst (paging_create_directory ?s) \<noteq> 0" by simp
  note shares = paging_create_directory_shares_kernel [OF sample_paging_inv prod.collapse [symmetric] this]
  have "translate ?s (PHYS_TO_VIRT 0x142000) = Some 0x142000" "faults ?s = []"
    using paging_init_translate [OF sample_placed] paging_init_console(2) [of sample_paging] by (simp_all add: PHYS_TO_VIRT_def)
  then show ?thesis
    using d shares [of "0xC0101234"] shares [of "0x1000"] paging_init_translate [OF sample_placed, of "0xC0101234"]
    by simp
qed

end
