(* ===== verification/Kheap.thy ===== *)
theory Kheap
  imports Paging
begin

text \<open>
  The kernel heap, \<^verbatim>\<open>kheap.c\<close>. Block headers (\<^verbatim>\<open>size\<close>, \<^verbatim>\<open>is_free\<close>, \<^verbatim>\<open>next\<close>, twelve bytes) are read and
  written in memory at their addresses, and the list is walked by its pointers. The walks
  are partial functions: the value \<open>None\<close> is a walk that does not end, which happens on a
  cyclic list only; an operation that meets one records the fault \<open>Diverges\<close>.

  The abstract heap is the list of the blocks' sizes and states. The blocks tile the heap:
  each header lies where the previous block ends. \<open>heap_ok s bs\<close> says that memory represents
  the list \<open>bs\<close>; the lemmas show that \<^verbatim>\<open>kmalloc\<close> and \<^verbatim>\<open>kfree\<close> implement first-fit allocation and
  release with merging on that list, that payloads of other blocks are not touched, and that
  the counter is the sum of the allocated sizes.
\<close>

section \<open>Data\<close>

record kheap_state = paging_state +
  heap_start :: u32
  heap_end :: u32
  heap_max :: u32
  first_block :: u32
  total_allocated :: u32

abbreviation (input) HEADER_SIZE :: u32 where "HEADER_SIZE \<equiv> 12"
abbreviation (input) INITIAL_HEAP_SIZE :: u32 where "INITIAL_HEAP_SIZE \<equiv> 1024 * 1024"
abbreviation (input) MAX_HEAP_SIZE :: u32 where "MAX_HEAP_SIZE \<equiv> 16 * 1024 * 1024"
abbreviation (input) HEAP_START_ADDR :: u32 where "HEAP_START_ADDR \<equiv> 0xC0400000"

text \<open>The fields of \<^verbatim>\<open>block_header_t\<close>.\<close>

definition hdr_size :: "memory \<Rightarrow> u32 \<Rightarrow> u32" where "hdr_size m b = load32 m b"
definition hdr_is_free :: "memory \<Rightarrow> u32 \<Rightarrow> u32" where "hdr_is_free m b = load32 m (b + 4)"
definition hdr_next :: "memory \<Rightarrow> u32 \<Rightarrow> u32" where "hdr_next m b = load32 m (b + 8)"

definition set_size :: "u32 \<Rightarrow> u32 \<Rightarrow> 'a kheap_state_scheme \<Rightarrow> 'a kheap_state_scheme" where
  "set_size b v s = s\<lparr>mem := store32 (mem s) b v\<rparr>"
definition set_is_free :: "u32 \<Rightarrow> u32 \<Rightarrow> 'a kheap_state_scheme \<Rightarrow> 'a kheap_state_scheme" where
  "set_is_free b v s = s\<lparr>mem := store32 (mem s) (b + 4) v\<rparr>"
definition set_next :: "u32 \<Rightarrow> u32 \<Rightarrow> 'a kheap_state_scheme \<Rightarrow> 'a kheap_state_scheme" where
  "set_next b v s = s\<lparr>mem := store32 (mem s) (b + 8) v\<rparr>"

section \<open>Operations\<close>

definition kheap_init :: "'a kheap_state_scheme \<Rightarrow> 'a kheap_state_scheme" where
  "kheap_init s =
     (let s1 = s\<lparr>heap_start := HEAP_START_ADDR, heap_end := HEAP_START_ADDR,
                 heap_max := HEAP_START_ADDR + MAX_HEAP_SIZE\<rparr> in
      case map_fresh pmm_alloc_frame paging_map_page (PAGE_PRESENT OR PAGE_WRITE)
             (unat (INITIAL_HEAP_SIZE div PAGE_SIZE)) (heap_start s1) s1 of
        (False, s2) \<Rightarrow> kprintf ''Heap: Failed to allocate frame\<newline>'' [] s2
      | (True, s2) \<Rightarrow>
          let s3 = s2\<lparr>heap_end := heap_start s2 + INITIAL_HEAP_SIZE, first_block := heap_start s2\<rparr>;
              s4 = set_size (first_block s3) (INITIAL_HEAP_SIZE - HEADER_SIZE) s3;
              s5 = set_is_free (first_block s4) 1 s4;
              s6 = set_next (first_block s5) 0 s5
          in kprintf ''Heap: Initialized at 0x%x, size %u KB\<newline>''
               [VInt (heap_start s6), VInt (INITIAL_HEAP_SIZE div 1024)] s6)"

text \<open>\<^verbatim>\<open>while (block->next) block = block->next;\<close> and the loop of \<^verbatim>\<open>find_free_block\<close>, where the null
  pointer means that no block was found.\<close>

partial_function (option) last_block :: "memory \<Rightarrow> u32 \<Rightarrow> u32 option" where
  "last_block m block = (if hdr_next m block \<noteq> 0 then last_block m (hdr_next m block) else Some block)"

partial_function (option) find_block :: "memory \<Rightarrow> u32 \<Rightarrow> u32 \<Rightarrow> u32 option" where
  "find_block m sz block =
     (if block \<noteq> 0 then
        if hdr_is_free m block \<noteq> 0 \<and> hdr_size m block \<ge> sz then Some block
        else find_block m sz (hdr_next m block)
      else Some 0)"

definition find_free_block :: "u32 \<Rightarrow> 'a kheap_state_scheme \<Rightarrow> u32 option" where
  "find_free_block sz s = find_block (mem s) sz (first_block s)"

text \<open>The writes of \<^verbatim>\<open>heap_expand\<close> once the pages are mapped and the last block is found.\<close>

definition expand_write :: "u32 \<Rightarrow> u32 \<Rightarrow> 'a kheap_state_scheme \<Rightarrow> 'a kheap_state_scheme" where
  "expand_write block expand_size s =
     (if hdr_is_free (mem s) block \<noteq> 0 then set_size block (hdr_size (mem s) block + expand_size) s
      else
        let new_block = heap_end s;
            s1 = set_size new_block (expand_size - HEADER_SIZE) s;
            s2 = set_is_free new_block 1 s1;
            s3 = set_next new_block 0 s2
        in set_next block new_block s3)"

definition heap_expand :: "u32 \<Rightarrow> 'a kheap_state_scheme \<Rightarrow> bool \<times> 'a kheap_state_scheme" where
  "heap_expand min_size s =
     (let expand_size = page_align_up min_size in
      if heap_end s + expand_size > heap_max s then (False, s)
      else case map_fresh pmm_alloc_frame paging_map_page (PAGE_PRESENT OR PAGE_WRITE)
                  (unat (expand_size div PAGE_SIZE)) (heap_end s) s of
        (False, s1) \<Rightarrow> (False, s1)
      | (True, s1) \<Rightarrow>
          if first_block s1 = 0 then (False, add_fault Null_Deref s1)
          else case last_block (mem s1) (first_block s1) of
            None \<Rightarrow> (False, add_fault Diverges s1)
          | Some block \<Rightarrow>
              let s2 = expand_write block expand_size s1
              in (True, s2\<lparr>heap_end := heap_end s2 + expand_size\<rparr>))"

definition split_block :: "u32 \<Rightarrow> u32 \<Rightarrow> 'a kheap_state_scheme \<Rightarrow> 'a kheap_state_scheme" where
  "split_block block sz s =
     (if hdr_size (mem s) block \<ge> sz + HEADER_SIZE + 32 then
        let new_block = block + HEADER_SIZE + sz;
            s1 = set_size new_block (hdr_size (mem s) block - sz - HEADER_SIZE) s;
            s2 = set_is_free new_block 1 s1;
            s3 = set_next new_block (hdr_next (mem s2) block) s2;
            s4 = set_size block sz s3
        in set_next block new_block s4
      else s)"

text \<open>The end of \<^verbatim>\<open>kmalloc\<close>, once a block is found.\<close>

definition take_block :: "u32 \<Rightarrow> u32 \<Rightarrow> 'a kheap_state_scheme \<Rightarrow> u32 \<times> 'a kheap_state_scheme" where
  "take_block block sz s =
     (let s1 = split_block block sz s;
          s2 = set_is_free block 0 s1;
          s3 = s2\<lparr>total_allocated := total_allocated s2 + hdr_size (mem s2) block\<rparr>
      in (block + HEADER_SIZE, s3))"

text \<open>\<^verbatim>\<open>size = (size + 7) & ~7;\<close>\<close>

definition round8 :: "u32 \<Rightarrow> u32" where "round8 sz = (sz + 7) AND NOT 7"

definition kmalloc :: "u32 \<Rightarrow> 'a kheap_state_scheme \<Rightarrow> u32 \<times> 'a kheap_state_scheme" where
  "kmalloc req s =
     (if req = 0 then (0, s)
      else
        let sz = round8 req in
        case find_free_block sz s of
          None \<Rightarrow> (0, add_fault Diverges s)
        | Some block \<Rightarrow>
            if block \<noteq> 0 then take_block block sz s
            else case heap_expand (sz + HEADER_SIZE) s of
              (False, s1) \<Rightarrow> (0, kprintf ''Heap: Out of memory!\<newline>'' [] s1)
            | (True, s1) \<Rightarrow>
                (case find_free_block sz s1 of
                   None \<Rightarrow> (0, add_fault Diverges s1)
                 | Some block2 \<Rightarrow> if block2 = 0 then (0, s1) else take_block block2 sz s1))"

definition kmalloc_aligned :: "u32 \<Rightarrow> 'a kheap_state_scheme \<Rightarrow> u32 \<times> 'a kheap_state_scheme" where
  "kmalloc_aligned sz s =
     (case kmalloc (sz + PAGE_SIZE) s of
        (ptr, s1) \<Rightarrow> if ptr = 0 then (0, s1) else (page_align_up ptr, s1))"

definition kcalloc :: "u32 \<Rightarrow> u32 \<Rightarrow> 'a kheap_state_scheme \<Rightarrow> u32 \<times> 'a kheap_state_scheme" where
  "kcalloc num sz s =
     (let total = num * sz in
      case kmalloc total s of
        (ptr, s1) \<Rightarrow> if ptr \<noteq> 0 then (ptr, s1\<lparr>mem := zero_bytes (mem s1) ptr (unat total)\<rparr>) else (ptr, s1))"

text \<open>The loop of \<^verbatim>\<open>merge_free_blocks\<close> on the memory.\<close>

partial_function (option) merge_loop :: "memory \<Rightarrow> u32 \<Rightarrow> memory option" where
  "merge_loop m block =
     (if block \<noteq> 0 \<and> hdr_next m block \<noteq> 0 then
        if hdr_is_free m block \<noteq> 0 \<and> hdr_is_free m (hdr_next m block) \<noteq> 0 then
          (let m1 = store32 m block (hdr_size m block + (HEADER_SIZE + hdr_size m (hdr_next m block)));
               m2 = store32 m1 (block + 8) (hdr_next m1 (hdr_next m1 block))
           in merge_loop m2 block)
        else merge_loop m (hdr_next m block)
      else Some m)"

definition merge_free_blocks :: "'a kheap_state_scheme \<Rightarrow> 'a kheap_state_scheme" where
  "merge_free_blocks s =
     (case merge_loop (mem s) (first_block s) of
        Some m \<Rightarrow> s\<lparr>mem := m\<rparr>
      | None \<Rightarrow> add_fault Diverges s)"

definition kfree :: "u32 \<Rightarrow> 'a kheap_state_scheme \<Rightarrow> 'a kheap_state_scheme" where
  "kfree ptr s =
     (if ptr = 0 then s
      else
        let block = ptr - HEADER_SIZE in
        if hdr_is_free (mem s) block \<noteq> 0 then kprintf ''Heap: Double free detected!\<newline>'' [] s
        else
          let s1 = set_is_free block 1 s;
              s2 = s1\<lparr>total_allocated := total_allocated s1 - hdr_size (mem s1) block\<rparr>
          in merge_free_blocks s2)"

definition kheap_get_used :: "'a kheap_state_scheme \<Rightarrow> u32" where
  "kheap_get_used s = total_allocated s"

definition kheap_get_free :: "'a kheap_state_scheme \<Rightarrow> u32" where
  "kheap_get_free s = (heap_end s - heap_start s) - total_allocated s"

section \<open>The abstract heap\<close>

text \<open>A block is its payload size and whether it is free. \<open>block_seg m e a bs b\<close>: the blocks \<open>bs\<close> lie
  one after the other from address \<open>a\<close> to \<open>b\<close> in a heap that ends at \<open>e\<close>.\<close>

type_synonym block = "nat \<times> bool"

definition link :: "nat \<Rightarrow> nat \<Rightarrow> u32" where
  "link e a = (if a = e then 0 else of_nat a)"

fun block_seg :: "memory \<Rightarrow> nat \<Rightarrow> nat \<Rightarrow> block list \<Rightarrow> nat \<Rightarrow> bool" where
  "block_seg m e a [] b = (a = b)"
| "block_seg m e a ((n, f) # bs) b =
     (hdr_size m (of_nat a) = of_nat n \<and> hdr_is_free m (of_nat a) = (if f then 1 else 0)
      \<and> hdr_next m (of_nat a) = link e (a + 12 + n) \<and> block_seg m e (a + 12 + n) bs b)"

fun span :: "block list \<Rightarrow> nat" where
  "span [] = 0"
| "span ((n, f) # bs) = 12 + n + span bs"

fun used_bytes :: "block list \<Rightarrow> nat" where
  "used_bytes [] = 0"
| "used_bytes ((n, f) # bs) = (if f then 0 else n) + used_bytes bs"

text \<open>Address and size of the payloads of the allocated blocks of a list that starts at \<open>a\<close>.\<close>

fun allocs :: "nat \<Rightarrow> block list \<Rightarrow> (nat \<times> nat) set" where
  "allocs a [] = {}"
| "allocs a ((n, f) # bs) = (if f then {} else {(a + 12, n)}) \<union> allocs (a + 12 + n) bs"

text \<open>First fit with splitting, release, and merging of neighbours.\<close>

definition split_free :: "nat \<Rightarrow> nat \<Rightarrow> block list" where
  "split_free sz n = (if sz + 44 \<le> n then [(sz, False), (n - sz - 12, True)] else [(n, False)])"

fun first_fit :: "nat \<Rightarrow> nat \<Rightarrow> block list \<Rightarrow> (nat \<times> block list) option" where
  "first_fit a sz [] = None"
| "first_fit a sz ((n, f) # bs) =
     (if f \<and> sz \<le> n then Some (a + 12, split_free sz n @ bs)
      else map_option (\<lambda>(p, bs'). (p, (n, f) # bs')) (first_fit (a + 12 + n) sz bs))"

fun release_block :: "nat \<Rightarrow> nat \<Rightarrow> block list \<Rightarrow> block list" where
  "release_block a p [] = []"
| "release_block a p ((n, f) # bs) =
     (if p = a + 12 then (n, True) # bs else (n, f) # release_block (a + 12 + n) p bs)"

fun merge_blocks :: "block list \<Rightarrow> block list" where
  "merge_blocks ((n, True) # (k, True) # bs) = merge_blocks ((n + (12 + k), True) # bs)"
| "merge_blocks (b # bs) = b # merge_blocks bs"
| "merge_blocks [] = []"

fun no_adjacent_free :: "block list \<Rightarrow> bool" where
  "no_adjacent_free (b # c # bs) = (\<not> (snd b \<and> snd c) \<and> no_adjacent_free (c # bs))"
| "no_adjacent_free _ = True"

definition extend_blocks :: "nat \<Rightarrow> block list \<Rightarrow> block list" where
  "extend_blocks x bs = (case last bs of (n, True) \<Rightarrow> butlast bs @ [(n + x, True)]
                                       | (n, False) \<Rightarrow> bs @ [(x - 12, True)])"

definition heap_ok :: "'a kheap_state_scheme \<Rightarrow> block list \<Rightarrow> bool" where
  "heap_ok s bs \<longleftrightarrow> bs \<noteq> [] \<and> heap_start s = HEAP_START_ADDR \<and> first_block s = heap_start s
     \<and> block_seg (mem s) (unat (heap_end s)) (unat (heap_start s)) bs (unat (heap_end s))
     \<and> total_allocated s = of_nat (used_bytes bs)"

section \<open>Headers in memory\<close>

lemma field_sep:
  "sep4 b (b + 4)" "sep4 (b + 4) b" "sep4 b (b + 8)" "sep4 (b + 8) b" "sep4 (b + 4) (b + 8)" "sep4 (b + 8) (b + 4)"
  by (simp_all add: sep4_def unsigned_minus_1_eq_mask)

lemmas field_stores [simp] = field_sep [THEN load32_store32_sep]

lemmas hdr_defs = hdr_size_def hdr_is_free_def hdr_next_def

lemma far_fields:
  assumes "c + 12 \<le> d" and "d + 12 \<le> 4294967296" and "i \<le> 8" and "j \<le> 8"
  shows "sep4 (of_nat c + of_nat i) (of_nat d + of_nat j)" "sep4 (of_nat d + of_nat j) (of_nat c + of_nat i)"
proof -
  have "unat (of_nat (c + i) :: u32) = c + i" "unat (of_nat (d + j) :: u32) = d + j"
    using assms by (intro u32_of_nat; simp)+
  then show "sep4 (of_nat c + of_nat i) (of_nat d + of_nat j)"
    using assms by (intro sep4I) (simp_all only: of_nat_add, linarith+)
  then show "sep4 (of_nat d + of_nat j) (of_nat c + of_nat i)" by (simp add: sep4_sym)
qed

text \<open>Stores into the header at one address seen from the header at another.\<close>

lemma far_stores:
  assumes "c + 12 \<le> d \<or> d + 12 \<le> c" and "c + 12 \<le> 4294967296" and "d + 12 \<le> 4294967296"
    and "k \<in> {0, 4, 8 :: u32}"
  shows "hdr_size (store32 m (of_nat d + k) v) (of_nat c) = hdr_size m (of_nat c)"
    "hdr_is_free (store32 m (of_nat d + k) v) (of_nat c) = hdr_is_free m (of_nat c)"
    "hdr_next (store32 m (of_nat d + k) v) (of_nat c) = hdr_next m (of_nat c)"
proof -
  obtain j where j: "j \<le> 8" "k = of_nat j"
    using assms(4) by (intro that [of "unat k"]) auto
  have "sep4 (of_nat d + k) (of_nat c + of_nat i)" if "i \<le> 8" for i
    using assms(1-3) far_fields [of c d i j] far_fields [of d c j i] j that by auto
  from this [of 0] this [of 4] this [of 8]
  show "hdr_size (store32 m (of_nat d + k) v) (of_nat c) = hdr_size m (of_nat c)"
    "hdr_is_free (store32 m (of_nat d + k) v) (of_nat c) = hdr_is_free m (of_nat c)"
    "hdr_next (store32 m (of_nat d + k) v) (of_nat c) = hdr_next m (of_nat c)"
    by (simp_all add: hdr_defs load32_store32_sep)
qed

lemmas far_simps = far_stores [where k = 0, simplified] far_stores [where k = 4, simplified]
  far_stores [where k = 8, simplified]

lemma store_other_byte:
  assumes "c + 12 \<le> 4294967296" and "x < 4294967296" and "x \<notin> {c..<c + 12}" and "k \<in> {0, 4, 8 :: u32}"
  shows "store32 m (of_nat c + k) v (of_nat x) = m (of_nat x)"
proof -
  obtain j where j: "j \<le> 8" "k = of_nat j"
    using assms(4) by (intro that [of "unat k"]) auto
  have "unat (of_nat (c + j) :: u32) = c + j" "unat (of_nat x :: u32) = x"
    using assms j by (intro u32_of_nat; simp)+
  then have "\<not> in_range (of_nat (c + j)) 4 (of_nat x)"
    using assms j by (subst in_range_iff) auto
  from store32_byte_other [OF this] show ?thesis by (simp add: j)
qed

lemmas other_byte_simps = store_other_byte [where k = 0, simplified] store_other_byte [where k = 4, simplified]
  store_other_byte [where k = 8, simplified]

lemma hdr_cong:
  assumes "\<And>k. k < 12 \<Longrightarrow> m' (of_nat (a + k)) = m (of_nat (a + k))"
  shows "hdr_size m' (of_nat a) = hdr_size m (of_nat a)" "hdr_is_free m' (of_nat a) = hdr_is_free m (of_nat a)"
    "hdr_next m' (of_nat a) = hdr_next m (of_nat a)"
proof -
  have "load32 m' (of_nat a + of_nat i) = load32 m (of_nat a + of_nat i)" if "i \<le> 8" for i
  proof (rule load32_cong)
    fix k :: nat assume "k < 4"
    then show "m' (of_nat a + of_nat i + of_nat k) = m (of_nat a + of_nat i + of_nat k)"
      using assms [of "i + k"] that by (simp add: add.assoc)
  qed
  from this [of 0] this [of 4] this [of 8]
  show "hdr_size m' (of_nat a) = hdr_size m (of_nat a)" "hdr_is_free m' (of_nat a) = hdr_is_free m (of_nat a)"
    "hdr_next m' (of_nat a) = hdr_next m (of_nat a)" by (simp_all add: hdr_defs)
qed

section \<open>Segments of blocks\<close>

lemma span_append [simp]: "span (xs @ ys) = span xs + span ys"
  by (induction xs rule: span.induct) auto

lemma block_seg_span: "block_seg m e a bs b \<Longrightarrow> b = a + span bs"
  by (induction m e a bs b rule: block_seg.induct) auto

lemma block_seg_append:
  "block_seg m e a (xs @ ys) b \<longleftrightarrow> block_seg m e a xs (a + span xs) \<and> block_seg m e (a + span xs) ys b"
  by (induction xs arbitrary: a rule: span.induct) (auto simp: add.assoc)

lemma block_seg_cong:
  assumes "block_seg m e a bs b" and "b \<le> 4294967296"
    and "\<And>x. a \<le> x \<Longrightarrow> x < b \<Longrightarrow> m' (of_nat x) = m (of_nat x)"
  shows "block_seg m' e a bs b"
  using assms
proof (induction m e a bs b rule: block_seg.induct)
  case (2 m e a n f bs b)
  have b: "b = a + 12 + n + span bs" using block_seg_span [OF "2.prems"(1)] by simp
  have "m' (of_nat (a + k)) = m (of_nat (a + k))" if "k < 12" for k
    using "2.prems"(3) [of "a + k"] that b by simp
  from hdr_cong [of m' a m, OF this] show ?case using 2 b by simp
qed simp

text \<open>The bytes of the headers; the payload of an allocated block contains none of them.\<close>

fun header_bytes :: "nat \<Rightarrow> block list \<Rightarrow> nat set" where
  "header_bytes a [] = {}"
| "header_bytes a ((n, f) # bs) = {a..<a + 12} \<union> header_bytes (a + 12 + n) bs"

lemma header_bytes_append [simp]:
  "header_bytes a (xs @ ys) = header_bytes a xs \<union> header_bytes (a + span xs) ys"
  by (induction xs arbitrary: a rule: span.induct) (auto simp: add.assoc)

lemma allocs_append [simp]: "allocs a (xs @ ys) = allocs a xs \<union> allocs (a + span xs) ys"
  by (induction xs arbitrary: a rule: span.induct) (auto simp: add.assoc)

lemma used_bytes_append [simp]: "used_bytes (xs @ ys) = used_bytes xs + used_bytes ys"
  by (induction xs rule: span.induct) auto

lemma header_bytes_range: "header_bytes a bs \<subseteq> {a..<a + span bs}"
  by (induction bs arbitrary: a rule: span.induct) fastforce+

lemma allocs_range: "(p, n) \<in> allocs a bs \<Longrightarrow> a + 12 \<le> p \<and> p + n \<le> a + span bs"
  by (induction bs arbitrary: a rule: span.induct) (fastforce split: if_splits)+

lemma allocs_headers: "(p, n) \<in> allocs a bs \<Longrightarrow> {p..<p + n} \<inter> header_bytes a bs = {}"
proof (induction bs arbitrary: a rule: span.induct)
  case (2 k f bs)
  have tail: "header_bytes (a + 12 + k) bs \<subseteq> {a + 12 + k..<a + 12 + k + span bs}" by (rule header_bytes_range)
  show ?case
  proof (cases "(p, n) \<in> allocs (a + 12 + k) bs")
    case True
    then show ?thesis using 2 allocs_range [OF True] by auto
  next
    case False
    then have "p = a + 12" "n = k" using "2.prems" by (auto split: if_splits)
    then show ?thesis using tail by auto
  qed
qed simp

text \<open>Two allocated blocks never overlap.\<close>

lemma allocs_disjoint:
  "(p, n) \<in> allocs a bs \<Longrightarrow> (q, k) \<in> allocs a bs \<Longrightarrow> p \<noteq> q \<Longrightarrow> {p..<p + n} \<inter> {q..<q + k} = {}"
proof (induction bs arbitrary: a rule: span.induct)
  case (2 j f bs)
  show ?case
  proof (cases "(p, n) \<in> allocs (a + 12 + j) bs \<and> (q, k) \<in> allocs (a + 12 + j) bs")
    case True
    then show ?thesis using 2 by blast
  next
    case False
    then show ?thesis
      using "2.prems" allocs_range [of p n "a + 12 + j" bs] allocs_range [of q k "a + 12 + j" bs]
      by (auto split: if_splits)
  qed
qed simp

section \<open>Walking and replacing\<close>

lemma block_at:
  assumes "block_seg m e a (xs @ (n, f) # ys) e"
  shows "hdr_size m (of_nat (a + span xs)) = of_nat n"
    "hdr_is_free m (of_nat (a + span xs)) = (if f then 1 else 0)"
    "hdr_next m (of_nat (a + span xs)) = link e (a + span xs + 12 + n)"
    "a + span xs + 12 + n + span ys = e"
  using assms block_seg_span [OF assms] by (auto simp: block_seg_append)

lemma block_seg_replace:
  assumes "block_seg m e a (xs @ (n, f) # ys) e" and "e \<le> 4294967296"
    and "\<And>x. x < a + span xs \<or> a + span xs + 12 + n \<le> x \<Longrightarrow> x < 4294967296 \<Longrightarrow> m' (of_nat x) = m (of_nat x)"
    and "block_seg m' e (a + span xs) zs (a + span xs + 12 + n)"
  shows "block_seg m' e a (xs @ zs @ ys) e"
proof -
  note e = block_at(4) [OF assms(1)]
  have segs: "block_seg m e a xs (a + span xs)" "block_seg m e (a + span xs + 12 + n) ys e"
    using assms(1) by (auto simp: block_seg_append)
  have "block_seg m' e a xs (a + span xs)"
    using segs(1) e assms(2,3) by (intro block_seg_cong [OF segs(1)]) auto
  moreover have "block_seg m' e (a + span xs + 12 + n) ys e"
    using segs(2) e assms(2,3) by (intro block_seg_cong [OF segs(2)]) auto
  moreover have "span zs = 12 + n" using block_seg_span [OF assms(4)] by simp
  ultimately show ?thesis using assms(4) by (simp add: block_seg_append add.assoc)
qed

lemma first_fit_Some:
  "first_fit a sz bs = Some (p, bs') \<Longrightarrow> \<exists>xs n ys. bs = xs @ (n, True) # ys \<and> sz \<le> n
     \<and> p = a + span xs + 12 \<and> bs' = xs @ split_free sz n @ ys"
proof (induction bs arbitrary: a p bs' rule: span.induct)
  case (2 n f bs)
  show ?case
  proof (cases "f \<and> sz \<le> n")
    case True
    then have "(n, f) # bs = [] @ (n, True) # bs \<and> sz \<le> n \<and> p = a + span [] + 12 \<and> bs' = [] @ split_free sz n @ bs"
      using "2.prems" by auto
    then show ?thesis by blast
  next
    case False
    then obtain bs'' where "first_fit (a + 12 + n) sz bs = Some (p, bs'')" "bs' = (n, f) # bs''"
      using "2.prems" by auto
    from "2.IH" [OF this(1)] this(2) obtain xs k ys where
      "bs = xs @ (k, True) # ys" "sz \<le> k" "p = a + 12 + n + span xs + 12" "bs' = ((n, f) # xs) @ split_free sz k @ ys"
      by auto
    then have "(n, f) # bs = ((n, f) # xs) @ (k, True) # ys \<and> sz \<le> k \<and> p = a + span ((n, f) # xs) + 12
        \<and> bs' = ((n, f) # xs) @ split_free sz k @ ys" by simp
    then show ?thesis by blast
  qed
qed simp

lemma link_Cons:
  assumes "block_seg m e a (b # bs) e" and "0 < a" and "e < 4294967296"
  shows "link e a = of_nat a" "of_nat a \<noteq> (0 :: u32)" "unat (of_nat a :: u32) = a"
proof -
  obtain n f where b: "b = (n, f)" by fastforce
  have "a + 12 + n \<le> e" using block_seg_span [OF assms(1)] b by simp
  then show "link e a = of_nat a" "unat (of_nat a :: u32) = a" using assms(3) by (auto simp: link_def u32_of_nat)
  then show "of_nat a \<noteq> (0 :: u32)" using assms(2) by (auto simp: u32_eq_iff)
qed

lemma find_block_eq:
  "block_seg m e a bs e \<Longrightarrow> 0 < a \<Longrightarrow> e < 4294967296 \<Longrightarrow>
   find_block m w (link e a) = Some (case first_fit a (unat w) bs of None \<Rightarrow> 0 | Some (p, bs') \<Rightarrow> of_nat (p - 12))"
proof (induction bs arbitrary: a rule: span.induct)
  case 1
  then show ?case by (subst find_block.simps) (simp add: link_def)
next
  case (2 n f bs)
  note l = link_Cons [OF "2.prems"]
  have n: "a + 12 + n \<le> e" using block_seg_span [OF "2.prems"(1)] by simp
  then have "(of_nat n \<ge> w) \<longleftrightarrow> unat w \<le> n" using "2.prems"(3) by (simp add: u32_le_iff u32_of_nat)
  moreover have "find_block m w (link e (a + 12 + n)) =
      Some (case first_fit (a + 12 + n) (unat w) bs of None \<Rightarrow> 0 | Some (p, bs') \<Rightarrow> of_nat (p - 12))"
    using "2.prems" by (intro "2.IH") auto
  ultimately show ?case
    using "2.prems"(1) l unfolding l(1)
    by (subst find_block.simps) (auto split: option.splits)
qed

lemma last_block_eq:
  "block_seg m e a bs e \<Longrightarrow> bs \<noteq> [] \<Longrightarrow> 0 < a \<Longrightarrow> e < 4294967296 \<Longrightarrow>
   last_block m (of_nat a) = Some (of_nat (a + span (butlast bs)))"
proof (induction bs arbitrary: a rule: span.induct)
  case (2 n f bs)
  have n: "a + 12 + n + span bs = e" using block_seg_span [OF "2.prems"(1)] by simp
  show ?case
  proof (cases bs)
    case Nil
    then have "hdr_next m (of_nat a) = 0" using "2.prems"(1) n by (simp add: link_def)
    then show ?thesis using Nil by (subst last_block.simps) simp
  next
    case (Cons b bs')
    have seg: "block_seg m e (a + 12 + n) (b # bs') e" using "2.prems"(1) Cons by simp
    note l = link_Cons [OF seg _ "2.prems"(4)]
    have "last_block m (of_nat a) = last_block m (of_nat (a + 12 + n))"
      using "2.prems"(1) l by (subst last_block.simps) simp
    then show ?thesis using "2.IH" [of "a + 12 + n"] "2.prems" Cons by (simp add: add.assoc)
  qed
qed simp

section \<open>Taking a block\<close>

lemma set_fields [simp]:
  "mem (set_size b v s) = store32 (mem s) b v" "mem (set_is_free b v s) = store32 (mem s) (b + 4) v"
  "mem (set_next b v s) = store32 (mem s) (b + 8) v"
  by (simp_all add: set_size_def set_is_free_def set_next_def)

lemma take_block_spec:
  fixes s :: "'a kheap_state_scheme"
  assumes seg: "block_seg (mem s) e a (xs @ (n, True) # ys) e" and a: "44 \<le> a" and e: "e < 4294967296"
    and fits: "sz \<le> n"
  defines "c \<equiv> a + span xs" and "k \<equiv> (if sz + 44 \<le> n then sz else n)"
  obtains m' where
    "take_block (of_nat c) (of_nat sz) s =
       (of_nat (c + 12), s\<lparr>mem := m', total_allocated := total_allocated s + of_nat k\<rparr>)"
    "block_seg m' e a (xs @ split_free sz n @ ys) e"
    "\<And>x. x < 4294967296 \<Longrightarrow> x \<notin> {c..<c + 12 + n} \<Longrightarrow> m' (of_nat x) = mem s (of_nat x)"
proof -
  let ?m = "mem s"
  note at = block_at [OF seg, folded c_def]
  have bound: "44 \<le> c" "c + 12 + n \<le> e" using a at(4) by (auto simp: c_def)
  have cmp: "hdr_size ?m (of_nat c) \<ge> of_nat sz + 12 + 32 \<longleftrightarrow> sz + 44 \<le> n"
  proof -
    have "unat (of_nat (sz + 44) :: u32) = sz + 44" "unat (of_nat n :: u32) = n"
      using bound e fits by (intro u32_of_nat; simp)+
    then show ?thesis unfolding at(1) u32_le_iff by (simp add: add.assoc)
  qed
  show thesis
  proof (cases "sz + 44 \<le> n")
    case False
    let ?m' = "store32 ?m (of_nat c + 4) 0"
    have val: "hdr_size ?m' (of_nat c) = of_nat n" using at(1) by (simp add: hdr_defs)
    have eq: "take_block (of_nat c) (of_nat sz) s =
        (of_nat (c + 12), s\<lparr>mem := ?m', total_allocated := total_allocated s + of_nat k\<rparr>)"
      using False cmp val by (simp add: take_block_def split_block_def Let_def k_def set_is_free_def add.commute)
    have "block_seg ?m' e c [(n, False)] (c + 12 + n)" using at by (simp add: hdr_defs)
    then have "block_seg ?m' e a (xs @ [(n, False)] @ ys) e"
      using e bound by (intro block_seg_replace [OF seg, folded c_def]) (auto simp: other_byte_simps)
    then show thesis using False bound e
      by (intro that [OF eq]) (auto simp: split_free_def other_byte_simps)
  next
    case True
    define d where "d = c + 12 + sz"
    have dd: "c + 12 \<le> d" "d + 12 + (n - sz - 12) = c + 12 + n" "d + 12 \<le> e" using True bound by (auto simp: d_def)
    have dw: "of_nat c + 12 + of_nat sz = (of_nat d :: u32)" by (simp add: d_def)
    have diff: "of_nat n - of_nat sz - 12 = (of_nat (n - sz - 12) :: u32)" using True by (simp add: of_nat_diff)
    let ?m3 = "store32 (store32 (store32 ?m (of_nat d) (of_nat (n - sz - 12))) (of_nat d + 4) 1)
        (of_nat d + 8) (link e (c + 12 + n))"
    let ?m' = "store32 (store32 (store32 ?m3 (of_nat c) (of_nat sz)) (of_nat c + 8) (of_nat d)) (of_nat c + 4) 0"
    have val: "hdr_size ?m' (of_nat c) = of_nat sz" by (simp add: hdr_defs)
    have "split_block (of_nat c) (of_nat sz) s = s\<lparr>mem := store32 (store32 ?m3 (of_nat c) (of_nat sz)) (of_nat c + 8) (of_nat d)\<rparr>"
      using True cmp dd e at(1,3)
      by (simp add: split_block_def Let_def dw diff far_simps set_size_def set_is_free_def set_next_def)
    then have eq: "take_block (of_nat c) (of_nat sz) s =
        (of_nat (c + 12), s\<lparr>mem := ?m', total_allocated := total_allocated s + of_nat k\<rparr>)"
      using True val by (simp add: take_block_def Let_def k_def set_is_free_def add.commute)
    have "block_seg ?m' e c [(sz, False), (n - sz - 12, True)] (c + 12 + n)"
      unfolding block_seg.simps d_def [symmetric] dd(2)
      using dd(1,3) e by (simp add: link_def [of e d] far_simps) (simp add: hdr_defs)
    moreover have same: "?m' (of_nat x) = ?m (of_nat x)"
      if x: "x < 4294967296" "x \<notin> {c..<c + 12 + n}" for x
    proof -
      have "d + 12 \<le> c + 12 + n" using True by (simp add: d_def)
      then have "x \<notin> {c..<c + 12}" "x \<notin> {d..<d + 12}" using x(2) dd(1) by auto
      then show ?thesis using x(1) dd e by (simp add: other_byte_simps)
    qed
    ultimately have "block_seg ?m' e a (xs @ [(sz, False), (n - sz - 12, True)] @ ys) e"
      using e by (intro block_seg_replace [OF seg, folded c_def]) auto
    then show thesis using True same by (intro that [OF eq]) (auto simp: split_free_def)
  qed
qed

section \<open>Allocation\<close>

abbreviation heap_base :: nat where "heap_base \<equiv> 3225419776"

lemma first_fit_effect:
  assumes "first_fit a sz bs = Some (p, bs')"
  obtains xs n ys k where "bs = xs @ (n, True) # ys" "sz \<le> n" "p = a + span xs + 12"
    "bs' = xs @ split_free sz n @ ys" "k = (if sz + 44 \<le> n then sz else n)" "sz \<le> k"
    "allocs a bs' = insert (p, k) (allocs a bs)" "p \<notin> fst ` allocs a bs"
    "used_bytes bs' = used_bytes bs + k"
    "\<And>q j. (q, j) \<in> allocs a bs \<Longrightarrow> q + j \<le> a + span xs \<or> a + span xs + 12 + n \<le> q"
proof -
  obtain xs n ys where f: "bs = xs @ (n, True) # ys" "sz \<le> n" "p = a + span xs + 12"
    "bs' = xs @ split_free sz n @ ys" using first_fit_Some [OF assms] by blast
  have out: "q + j \<le> a + span xs \<or> a + span xs + 12 + n \<le> q" if "(q, j) \<in> allocs a bs" for q j
    using that f(1) allocs_range [of q j a xs] allocs_range [of q j "a + span xs + 12 + n" ys] by auto
  have low: "a + 12 \<le> q" if "(q, j) \<in> allocs a xs" for q j using allocs_range [OF that] by simp
  have "p \<noteq> q" if "(q, j) \<in> allocs a bs" for q j
    using that f(1,3) allocs_range [of q j a xs] allocs_range [of q j "a + span xs + 12 + n" ys] by auto
  then have "p \<notin> fst ` allocs a bs" by fastforce
  moreover have "allocs a bs' = insert (p, if sz + 44 \<le> n then sz else n) (allocs a bs)"
    using f by (auto simp: split_free_def add.assoc)
  moreover have "used_bytes bs' = used_bytes bs + (if sz + 44 \<le> n then sz else n)"
    using f by (simp add: split_free_def)
  ultimately show thesis using that f out by auto
qed

lemma heap_okD:
  assumes "heap_ok s bs"
  shows "bs \<noteq> []" "heap_start s = HEAP_START_ADDR" "first_block s = HEAP_START_ADDR"
    "block_seg (mem s) (unat (heap_end s)) heap_base bs (unat (heap_end s))"
    "total_allocated s = of_nat (used_bytes bs)" "unat (heap_end s) = heap_base + span bs"
    "link (unat (heap_end s)) heap_base = HEAP_START_ADDR"
proof -
  show "bs \<noteq> []" "heap_start s = HEAP_START_ADDR" "first_block s = HEAP_START_ADDR"
    "block_seg (mem s) (unat (heap_end s)) heap_base bs (unat (heap_end s))"
    "total_allocated s = of_nat (used_bytes bs)" using assms by (auto simp: heap_ok_def)
  then show "unat (heap_end s) = heap_base + span bs" by (blast dest: block_seg_span)
  obtain b bs' where "bs = b # bs'" using \<open>bs \<noteq> []\<close> by (cases bs) auto
  then show "link (unat (heap_end s)) heap_base = HEAP_START_ADDR"
    using link_Cons(1) [of "mem s" "unat (heap_end s)" heap_base b bs'] u32_bound [of "heap_end s"]
      \<open>block_seg (mem s) (unat (heap_end s)) heap_base bs (unat (heap_end s))\<close> by simp
qed

lemma find_free_block_eq:
  assumes "heap_ok s bs"
  shows "find_free_block w s =
    Some (case first_fit heap_base (unat w) bs of None \<Rightarrow> 0 | Some (p, bs') \<Rightarrow> of_nat (p - 12))"
  using find_block_eq [OF heap_okD(4) [OF assms], of w] u32_bound [of "heap_end s"] heap_okD(3,7) [OF assms]
  by (simp add: find_free_block_def)

lemma take_first_fit:
  fixes s :: "'a kheap_state_scheme"
  assumes ok: "heap_ok s bs" and fit: "first_fit heap_base (unat w) bs = Some (p, bs')"
  obtains k s' where "take_block (of_nat (p - 12)) w s = (of_nat p, s')" "heap_ok s' bs'" "unat w \<le> k"
    "allocs heap_base bs' = insert (p, k) (allocs heap_base bs)" "p \<notin> fst ` allocs heap_base bs"
    "used_bytes bs' = used_bytes bs + k"
    "s' = s\<lparr>mem := mem s', total_allocated := total_allocated s + of_nat k\<rparr>"
    "\<And>q j x. (q, j) \<in> allocs heap_base bs \<Longrightarrow> q \<le> x \<Longrightarrow> x < q + j \<Longrightarrow> mem s' (of_nat x) = mem s (of_nat x)"
    "\<And>x. x < 4294967296 \<Longrightarrow> x < heap_base \<or> unat (heap_end s) \<le> x \<Longrightarrow> mem s' (of_nat x) = mem s (of_nat x)"
proof -
  note h = heap_okD [OF ok]
  obtain xs n ys k where f: "bs = xs @ (n, True) # ys" "unat w \<le> n" "p = heap_base + span xs + 12"
    "bs' = xs @ split_free (unat w) n @ ys" "k = (if unat w + 44 \<le> n then unat w else n)" "unat w \<le> k"
    "allocs heap_base bs' = insert (p, k) (allocs heap_base bs)" "p \<notin> fst ` allocs heap_base bs"
    "used_bytes bs' = used_bytes bs + k"
    "\<And>q j. (q, j) \<in> allocs heap_base bs \<Longrightarrow> q + j \<le> heap_base + span xs \<or> heap_base + span xs + 12 + n \<le> q"
    by (rule first_fit_effect [OF fit]) (rule that; assumption)
  have e: "unat (heap_end s) < 4294967296" by (rule u32_bound)
  obtain m' where m': "take_block (of_nat (heap_base + span xs)) (of_nat (unat w)) s =
      (of_nat (heap_base + span xs + 12), s\<lparr>mem := m', total_allocated := total_allocated s + of_nat k\<rparr>)"
    "block_seg m' (unat (heap_end s)) heap_base bs' (unat (heap_end s))"
    "\<And>x. x < 4294967296 \<Longrightarrow> x \<notin> {heap_base + span xs..<heap_base + span xs + 12 + n} \<Longrightarrow> m' (of_nat x) = mem s (of_nat x)"
    using take_block_spec [OF h(4) [unfolded f(1)] _ e f(2)] f(4,5) by auto
  let ?s' = "s\<lparr>mem := m', total_allocated := total_allocated s + of_nat k\<rparr>"
  have "heap_ok ?s' bs'" using h(1-3,5) m'(2) f(1,4,9) by (simp add: heap_ok_def split_free_def)
  moreover have "heap_base + span xs + 12 + n \<le> unat (heap_end s)" using h(6) f(1) by simp
  moreover have "m' (of_nat x) = mem s (of_nat x)" if "(q, j) \<in> allocs heap_base bs" "q \<le> x" "x < q + j" for q j x
    using f(10) [OF that(1)] that(2,3) allocs_range [OF that(1)] h(6) e by (intro m'(3)) auto
  ultimately show thesis using m' f by (intro that [of ?s' k]) auto
qed

section \<open>Merging\<close>

definition merge_result :: "memory \<Rightarrow> nat \<Rightarrow> nat \<Rightarrow> block list \<Rightarrow> u32 \<Rightarrow> block list \<Rightarrow> bool" where
  "merge_result m e a bs p bs' \<longleftrightarrow> (\<exists>m'. merge_loop m p = Some m' \<and> block_seg m' e a bs' e
     \<and> (\<forall>x < 4294967296. x \<notin> header_bytes a bs \<longrightarrow> m' (of_nat x) = m (of_nat x)))"

lemma merge_skip:
  assumes seg: "block_seg m e a ((n, f) # bs) e" and a: "0 < a" and e: "e < 4294967296"
    and no: "bs = [] \<or> \<not> (f \<and> snd (hd bs))"
    and rest: "merge_result m e (a + 12 + n) bs (link e (a + 12 + n)) bs'"
  shows "merge_result m e a ((n, f) # bs) (of_nat a) ((n, f) # bs')"
proof -
  have tail: "block_seg m e (a + 12 + n) bs e" using seg by simp
  have next_eq: "hdr_next m (of_nat a) = link e (a + 12 + n)" using seg by simp
  have room: "a + 12 + n + span bs = e" using block_seg_span [OF seg] by simp
  note l = link_Cons [OF seg a e]
  obtain m' where m': "merge_loop m (link e (a + 12 + n)) = Some m'" "block_seg m' e (a + 12 + n) bs' e"
    "\<And>x. x < 4294967296 \<Longrightarrow> x \<notin> header_bytes (a + 12 + n) bs \<Longrightarrow> m' (of_nat x) = m (of_nat x)"
    using rest by (auto simp: merge_result_def)
  have "m' (of_nat (a + k)) = m (of_nat (a + k))" if "k < 12" for k
    using header_bytes_range [of "a + 12 + n" bs] that room e by (intro m'(3)) auto
  from hdr_cong [of m' a m, OF this] have seg': "block_seg m' e a ((n, f) # bs') e"
    using seg m'(2) by simp
  have "merge_loop m (of_nat a) = Some m'"
  proof (cases bs)
    case Nil
    then have "link e (a + 12 + n) = 0" using room by (simp add: link_def)
    moreover from this have "m' = m" using m'(1) by (subst (asm) merge_loop.simps) simp
    ultimately show ?thesis using next_eq by (subst merge_loop.simps) simp
  next
    case (Cons b bs2)
    note l2 = link_Cons [OF tail [unfolded Cons] _ e]
    obtain k g where b: "b = (k, g)" by fastforce
    have "\<not> (hdr_is_free m (of_nat a) \<noteq> 0 \<and> hdr_is_free m (link e (a + 12 + n)) \<noteq> 0)"
      using no seg Cons b l2 by auto
    then show ?thesis using next_eq l(2) l2 m'(1) by (subst merge_loop.simps) auto
  qed
  then show ?thesis using seg' m'(3) by (auto simp: merge_result_def)
qed

lemma merge_step:
  assumes seg: "block_seg m e a ((n, True) # (k, True) # bs) e" and a: "0 < a" and e: "e < 4294967296"
    and rest: "\<And>m2. block_seg m2 e a ((n + (12 + k), True) # bs) e \<Longrightarrow>
      merge_result m2 e a ((n + (12 + k), True) # bs) (of_nat a) bs'"
  shows "merge_result m e a ((n, True) # (k, True) # bs) (of_nat a) bs'"
proof -
  define d where "d = a + 12 + n"
  have room: "d + 12 + k + span bs = e" using block_seg_span [OF seg] by (simp add: d_def)
  note l = link_Cons [OF seg a e]
  have tail: "block_seg m e d ((k, True) # bs) e" using seg by (simp add: d_def)
  note l2 = link_Cons [OF tail _ e]
  have far: "a + 12 \<le> d" "d + 12 \<le> 4294967296" using room e by (auto simp: d_def)
  have hd: "hdr_size m (of_nat a) = of_nat n" "hdr_is_free m (of_nat a) = 1" "hdr_next m (of_nat a) = of_nat d"
    "hdr_size m (of_nat d) = of_nat k" "hdr_is_free m (of_nat d) = 1" "hdr_next m (of_nat d) = link e (d + 12 + k)"
    using seg l2 by (auto simp: d_def)
  let ?m2 = "store32 (store32 m (of_nat a) (of_nat (n + (12 + k)))) (of_nat a + 8) (link e (d + 12 + k))"
  have step: "merge_loop m (of_nat a) = merge_loop ?m2 (of_nat a)"
    using l(2) l2 far hd
    by (subst merge_loop.simps)
      (simp add: d_def [symmetric] Let_def far_simps hdr_next_def [of "store32 m _ _" "of_nat a"] hdr_next_def [of m "of_nat a"])
  have same: "?m2 (of_nat x) = m (of_nat x)" if "x < 4294967296" "x \<notin> {a..<a + 12}" for x
    using that far by (simp add: other_byte_simps)
  have "block_seg m e (d + 12 + k) bs e" using tail by simp
  then have "block_seg ?m2 e (d + 12 + k) bs e"
  proof (rule block_seg_cong)
    show "e \<le> 4294967296" using e by simp
    show "?m2 (of_nat x) = m (of_nat x)" if "d + 12 + k \<le> x" "x < e" for x
      using same [of x] that e far by simp
  qed
  then have "block_seg ?m2 e a ((n + (12 + k), True) # bs) e"
    using hd(2) by (simp add: d_def hdr_defs add.assoc)
  from rest [OF this] obtain m' where m': "merge_loop ?m2 (of_nat a) = Some m'" "block_seg m' e a bs' e"
    "\<And>x. x < 4294967296 \<Longrightarrow> x \<notin> header_bytes a ((n + (12 + k), True) # bs) \<Longrightarrow> m' (of_nat x) = ?m2 (of_nat x)"
    by (auto simp: merge_result_def)
  have "m' (of_nat x) = m (of_nat x)" if "x < 4294967296" "x \<notin> header_bytes a ((n, True) # (k, True) # bs)" for x
  proof -
    have "a + 12 + (n + (12 + k)) = d + 12 + k" by (simp add: d_def)
    then have "x \<notin> header_bytes a ((n + (12 + k), True) # bs)" "x \<notin> {a..<a + 12}"
      using that(2) by (auto simp: d_def add.assoc)
    then show ?thesis using same [OF that(1)] m'(3) [OF that(1)] by simp
  qed
  then show ?thesis using step m'(1,2) by (auto simp: merge_result_def)
qed

lemma merge_blocks_skip:
  "bs = [] \<or> \<not> (f \<and> snd (hd bs)) \<Longrightarrow> merge_blocks ((n, f) # bs) = (n, f) # merge_blocks bs"
  by (cases f; cases bs) auto

lemma merge_loop_spec:
  "block_seg m e a bs e \<Longrightarrow> 0 < a \<Longrightarrow> e < 4294967296 \<Longrightarrow>
   merge_result m e a bs (link e a) (merge_blocks bs)"
proof (induction "length bs" arbitrary: m a bs rule: less_induct)
  case less
  show ?case
  proof (cases bs)
    case Nil
    then show ?thesis using less.prems
      by (subst merge_result_def, subst merge_loop.simps) (auto simp: link_def)
  next
    case (Cons b bs2)
    obtain n f where b: "b = (n, f)" by fastforce
    note l = link_Cons [OF less.prems(1) [unfolded Cons] less.prems(2,3)]
    note seg = less.prems(1) [unfolded Cons b]
    show ?thesis
    proof (cases "bs2 = [] \<or> \<not> (f \<and> snd (hd bs2))")
      case True
      have "merge_result m e (a + 12 + n) bs2 (link e (a + 12 + n)) (merge_blocks bs2)"
        using seg less.prems Cons by (intro less.hyps) auto
      from merge_skip [OF seg less.prems(2,3) True this] show ?thesis
        using merge_blocks_skip [OF True] Cons b l(1) by simp
    next
      case False
      then obtain k bs3 where bs2: "bs2 = (k, True) # bs3" and f: "f = True" by (cases bs2) auto
      have "merge_result m2 e a ((n + (12 + k), True) # bs3) (of_nat a) (merge_blocks ((n + (12 + k), True) # bs3))"
        if "block_seg m2 e a ((n + (12 + k), True) # bs3) e" for m2
        using less.hyps [OF _ that less.prems(2,3)] l(1) Cons bs2 by simp
      from merge_step [OF seg [unfolded bs2 f] less.prems(2,3) this] show ?thesis
        using Cons b bs2 f l(1) by simp
    qed
  qed
qed

lemma merge_blocks_facts:
  "allocs a (merge_blocks bs) = allocs a bs \<and> used_bytes (merge_blocks bs) = used_bytes bs
   \<and> span (merge_blocks bs) = span bs \<and> (merge_blocks bs = [] \<longleftrightarrow> bs = [])"
proof (induction "length bs" arbitrary: a bs rule: less_induct)
  case less
  show ?case
  proof (cases bs)
    case (Cons b bs2)
    obtain n f where b: "b = (n, f)" by fastforce
    show ?thesis
    proof (cases "bs2 = [] \<or> \<not> (f \<and> snd (hd bs2))")
      case True
      from merge_blocks_skip [OF this] show ?thesis using less [of bs2 "a + 12 + n"] Cons b by simp
    next
      case False
      then obtain k bs3 where "bs2 = (k, True) # bs3" "f = True" by (cases bs2) auto
      then show ?thesis using less [of "(n + (12 + k), True) # bs3" a] Cons b by (simp add: add_ac)
    qed
  qed simp
qed

lemma merge_blocks_hd: "bs \<noteq> [] \<Longrightarrow> snd (hd (merge_blocks bs)) = snd (hd bs)"
  by (induction bs rule: merge_blocks.induct) auto

lemma no_adjacent_Cons:
  "no_adjacent_free (b # bs) \<longleftrightarrow> (bs = [] \<or> \<not> (snd b \<and> snd (hd bs))) \<and> no_adjacent_free bs"
  by (cases bs) auto

lemma merge_blocks_separate: "no_adjacent_free (merge_blocks bs)"
  by (induction bs rule: merge_blocks.induct) (auto simp: no_adjacent_Cons merge_blocks_hd)

lemma merge_blocks_id: "no_adjacent_free bs \<Longrightarrow> merge_blocks bs = bs"
  by (induction bs rule: merge_blocks.induct) (auto simp: no_adjacent_Cons)

lemma merge_blocks_rejoin:
  "no_adjacent_free (xs @ (i + (12 + j), True) # ys) \<Longrightarrow>
   merge_blocks (xs @ (i, True) # (j, True) # ys) = xs @ (i + (12 + j), True) # ys"
proof (induction xs)
  case Nil
  then show ?case by (simp add: merge_blocks_id)
next
  case (Cons b xs)
  obtain n f where b: "b = (n, f)" by fastforce
  have "xs @ (i, True) # (j, True) # ys = [] \<or> \<not> (f \<and> snd (hd (xs @ (i, True) # (j, True) # ys)))"
    using Cons.prems b by (cases xs) auto
  from merge_blocks_skip [OF this, of n] show ?case
    using Cons b by (auto simp: no_adjacent_Cons)
qed

section \<open>Release\<close>

lemma allocs_split:
  "(p, n) \<in> allocs a bs \<Longrightarrow> \<exists>xs ys. bs = xs @ (n, False) # ys \<and> p = a + span xs + 12"
proof (induction bs arbitrary: a rule: span.induct)
  case (2 k f bs)
  show ?case
  proof (cases "(p, n) \<in> allocs (a + 12 + k) bs")
    case True
    from "2.IH" [OF this] obtain xs ys where "bs = xs @ (n, False) # ys" "p = a + 12 + k + span xs + 12" by blast
    then have "(k, f) # bs = ((k, f) # xs) @ (n, False) # ys \<and> p = a + span ((k, f) # xs) + 12" by simp
    then show ?thesis by blast
  next
    case False
    then have "(k, f) # bs = [] @ (n, False) # bs \<and> p = a + span [] + 12" using "2.prems" by (auto split: if_splits)
    then show ?thesis by blast
  qed
qed simp

lemma release_block_at: "release_block a (a + span xs + 12) (xs @ (n, f) # ys) = xs @ (n, True) # ys"
proof (induction xs arbitrary: a rule: span.induct)
  case (2 k g xs)
  show ?case using "2.IH" [of "a + 12 + k"] by (simp add: add_ac)
qed simp

lemma release_effect:
  assumes "bs = xs @ (n, False) # ys" and "p = a + span xs + 12"
  shows "allocs a (release_block a p bs) = allocs a bs - {(p, n)}"
    "used_bytes (release_block a p bs) + n = used_bytes bs" "release_block a p bs = xs @ (n, True) # ys"
proof -
  show r: "release_block a p bs = xs @ (n, True) # ys" using release_block_at assms by simp
  show "used_bytes (release_block a p bs) + n = used_bytes bs" using r assms(1) by simp
  have "(p, n) \<notin> allocs a xs" "(p, n) \<notin> allocs (a + span xs + 12 + n) ys"
    using allocs_range [of p n a xs] allocs_range [of p n "a + span xs + 12 + n" ys] assms(2) by auto
  then show "allocs a (release_block a p bs) = allocs a bs - {(p, n)}"
    using r assms by auto
qed

lemma kfree_spec:
  fixes s :: "'a kheap_state_scheme"
  assumes ok: "heap_ok s bs" and p: "(p, n) \<in> allocs heap_base bs"
  obtains s' where "kfree (of_nat p) s = s'" "heap_ok s' (merge_blocks (release_block heap_base p bs))"
    "s' = s\<lparr>mem := mem s', total_allocated := total_allocated s - of_nat n\<rparr>"
    "\<And>x. x < 4294967296 \<Longrightarrow> x \<notin> header_bytes heap_base bs \<Longrightarrow> mem s' (of_nat x) = mem s (of_nat x)"
proof -
  note h = heap_okD [OF ok]
  let ?e = "unat (heap_end s)"
  have e: "?e < 4294967296" by (rule u32_bound)
  obtain xs ys where xs: "bs = xs @ (n, False) # ys" "p = heap_base + span xs + 12"
    using allocs_split [OF p] by blast
  define c where "c = heap_base + span xs"
  have pc: "p = c + 12" using xs(2) by (simp add: c_def)
  note at = block_at [OF h(4) [unfolded xs(1)], folded c_def]
  have c: "c + 12 + n \<le> ?e" using at(4) by simp
  have pw: "of_nat p - 12 = (of_nat c :: u32)" "(of_nat p :: u32) \<noteq> 0"
  proof -
    show "of_nat p - 12 = (of_nat c :: u32)" by (simp add: pc)
    have "unat (of_nat p :: u32) = p" using c e by (intro u32_of_nat) (simp add: pc)
    then show "(of_nat p :: u32) \<noteq> 0" by (auto simp: pc)
  qed
  let ?m1 = "store32 (mem s) (of_nat c + 4) 1"
  have size1: "hdr_size ?m1 (of_nat c) = of_nat n" using at(1) by (simp add: hdr_defs)
  have "block_seg ?m1 ?e c [(n, True)] (c + 12 + n)" using at by (simp add: hdr_defs)
  then have "block_seg ?m1 ?e heap_base (xs @ [(n, True)] @ ys) ?e"
    using e c by (intro block_seg_replace [OF h(4) [unfolded xs(1)], folded c_def]) (auto simp: other_byte_simps)
  then have seg1: "block_seg ?m1 ?e heap_base (release_block heap_base p bs) ?e"
    using release_effect(3) [OF xs] by simp
  obtain m' where m': "merge_loop ?m1 (link ?e heap_base) = Some m'"
    "block_seg m' ?e heap_base (merge_blocks (release_block heap_base p bs)) ?e"
    "\<And>x. x < 4294967296 \<Longrightarrow> x \<notin> header_bytes heap_base (release_block heap_base p bs) \<Longrightarrow> m' (of_nat x) = ?m1 (of_nat x)"
    using merge_loop_spec [OF seg1 _ e] by (auto simp: merge_result_def)
  let ?s' = "s\<lparr>mem := m', total_allocated := total_allocated s - of_nat n\<rparr>"
  have eq: "kfree (of_nat p) s = ?s'"
    using pw at(2) size1 m'(1) h(3,7)
    by (simp add: kfree_def Let_def merge_free_blocks_def set_is_free_def)
  have "used_bytes bs = used_bytes (release_block heap_base p bs) + n" using release_effect(2) [OF xs] by simp
  then have "heap_ok ?s' (merge_blocks (release_block heap_base p bs))"
    using h(1-3,5) m'(2) release_effect(3) [OF xs] by (simp add: heap_ok_def merge_blocks_facts)
  moreover have "m' (of_nat x) = mem s (of_nat x)" if "x < 4294967296" "x \<notin> header_bytes heap_base bs" for x
  proof -
    have "x \<notin> header_bytes heap_base (release_block heap_base p bs)" "x \<notin> {c..<c + 12}"
      using that(2) release_effect(3) [OF xs] by (auto simp: xs(1) c_def)
    then show ?thesis using that(1) m'(3) c e by (simp add: other_byte_simps)
  qed
  ultimately show thesis using eq by (intro that [of ?s']) auto
qed

section \<open>Growing the heap\<close>

text \<open>The end of the heap moves: links to blocks inside are as before.\<close>

lemma block_seg_end:
  assumes "block_seg m e a xs c" and "c < e" and "c < e'"
  shows "block_seg m e' a xs c"
  using assms
proof (induction m e a xs c rule: block_seg.induct)
  case (2 m e a n f bs b)
  have "a + 12 + n \<le> b" using block_seg_span [of m e "a + 12 + n" bs b] "2.prems"(1) by simp
  then have "link e' (a + 12 + n) = link e (a + 12 + n)" using "2.prems"(2,3) by (simp add: link_def)
  then show ?case using 2 by simp
qed simp

lemma extend_last_free:
  assumes seg: "block_seg m e a (zs @ [(n, True)]) e" and e: "e + x < 4294967296"
  defines "c \<equiv> a + span zs"
  shows "block_seg (store32 m (of_nat c) (of_nat n + of_nat x)) (e + x) a (zs @ [(n + x, True)]) (e + x)"
proof -
  let ?m' = "store32 m (of_nat c) (of_nat n + of_nat x)"
  note at = block_at [OF seg, folded c_def]
  have c: "c + 12 + n = e" using at(4) by simp
  have zs: "block_seg m e a zs c" using seg by (simp add: block_seg_append c_def)
  have "block_seg ?m' e a zs c"
    using c e by (intro block_seg_cong [OF zs]) (auto simp: other_byte_simps)
  then have "block_seg ?m' (e + x) a zs c" by (rule block_seg_end) (use c in auto)
  moreover have "hdr_is_free ?m' (of_nat c) = 1" "hdr_next ?m' (of_nat c) = 0" "hdr_size ?m' (of_nat c) = of_nat n + of_nat x"
    using at c by (simp_all add: hdr_defs link_def)
  ultimately show ?thesis using c by (simp add: block_seg_append c_def [symmetric] link_def)
qed

lemma extend_last_used:
  assumes seg: "block_seg m e a (zs @ [(n, False)]) e" and e: "e + x < 4294967296" and x: "12 \<le> x"
  defines "c \<equiv> a + span zs"
  shows "block_seg (store32 (store32 (store32 (store32 m (of_nat e) (of_nat (x - 12))) (of_nat e + 4) 1)
      (of_nat e + 8) 0) (of_nat c + 8) (of_nat e)) (e + x) a (zs @ [(n, False), (x - 12, True)]) (e + x)"
    (is "block_seg ?m' _ _ _ _")
proof -
  note at = block_at [OF seg, folded c_def]
  have c: "c + 12 + n = e" using at(4) by simp
  then have far: "c + 12 \<le> e" "e + 12 \<le> 4294967296" using e x by auto
  have zs: "block_seg m e a zs c" using seg by (simp add: block_seg_append c_def)
  have "block_seg ?m' e a zs c"
    using far by (intro block_seg_cong [OF zs]) (auto simp: other_byte_simps)
  then have "block_seg ?m' (e + x) a zs c" by (rule block_seg_end) (use c x in auto)
  moreover have "hdr_size ?m' (of_nat c) = of_nat n" "hdr_is_free ?m' (of_nat c) = 0" "hdr_next ?m' (of_nat c) = of_nat e"
    using at far by (simp_all add: far_simps) (simp_all add: hdr_defs far_simps [unfolded hdr_defs])
  moreover have "hdr_size ?m' (of_nat e) = of_nat (x - 12)" "hdr_is_free ?m' (of_nat e) = 1" "hdr_next ?m' (of_nat e) = 0"
    using far by (simp_all add: far_simps) (simp_all add: hdr_defs)
  ultimately show ?thesis
    using c x by (simp add: block_seg_append c_def [symmetric] link_def)
qed

text \<open>What mapping fresh pages changes: entries of the tables of those pages and nothing else that
  the heap reads.\<close>

definition kheap_vars :: "'a kheap_state_scheme \<Rightarrow> u32 \<times> u32 \<times> u32 \<times> u32 \<times> u32" where
  "kheap_vars s = (heap_start s, heap_end s, heap_max s, first_block s, total_allocated s)"

lemma kheap_vars_emit [simp]: "kheap_vars (hw_emit e s) = kheap_vars s" "kheap_vars (s\<lparr>mem := m\<rparr>) = kheap_vars s"
  by (simp_all add: kheap_vars_def hw_emit_def)

lemma kheap_vars_erase: "pmm_erase s' = pmm_erase s \<Longrightarrow> kheap_vars s' = kheap_vars s"
proof -
  assume "pmm_erase s' = pmm_erase s"
  then have "kheap_vars (pmm_erase s') = kheap_vars (pmm_erase s)" by simp
  then show ?thesis by (simp add: kheap_vars_def pmm_erase_def console_erase_def)
qed

lemma kheap_vars_kprintf [simp]: "kheap_vars (kprintf fmt args s) = kheap_vars s"
  by (rule kheap_vars_erase) simp

lemma set_entry_byte:
  assumes "page_no x \<noteq> page_no (table_of (pde s (pd_index va)))"
  shows "mem (paging_set_entry va pa flags s) x = mem s x"
proof -
  let ?t = "table_of (pde s (pd_index va))" and ?i = "pt_index va"
  have al: "page_aligned ?t" by simp
  have sl: "unat (entry_at ?t ?i) = unat ?t + 4 * unat ?i" by (rule unat_slot) simp_all
  have i: "unat ?i < 1024" by simp
  have room: "unat (entry_at ?t ?i) + 4 \<le> 4294967296" using sl i page_room [OF al] by linarith
  have "\<not> in_range (entry_at ?t ?i) 4 x"
  proof
    assume "in_range (entry_at ?t ?i) 4 x"
    then obtain d where d: "unat x = unat (entry_at ?t ?i) + d" "d < 4"
      unfolding in_range_iff [OF room] by (auto simp: le_iff_add)
    have "4 * unat ?i + d < 4096" using d(2) i by linarith
    from page_off [OF al this] assms show False using d(1) sl by (simp add: page_no_def add.assoc)
  qed
  then show ?thesis
    by (cases "window_fault s (pde s (pd_index va) AND 0xFFFFF000)") (simp_all add: set_entry_eq set_entry_hidden store32_byte_other)
qed

text \<open>The frames that the allocator can hand out. Mapping pages succeeds exactly with enough of them.\<close>

definition low_frames :: "'a pmm_state_scheme \<Rightarrow> nat set" where
  "low_frames s = {f. f < scan_limit s \<and> frame_free s f}"

lemma finite_low_frames: "finite (low_frames s)"
  by (rule finite_subset [of _ "{..<scan_limit s}"]) (auto simp: low_frames_def)

lemma alloc_low_frames:
  assumes "pmm_inv s" and "low_frames s \<noteq> {}" and "pmm_alloc_frame s = (a, s')"
  shows "a \<noteq> 0 \<and> card (low_frames s') + 1 = card (low_frames s)"
  using assms(1)
proof (cases rule: pmm_alloc_cases)
  case (frame f)
  have s': "a = of_nat f * 4096" "s' = (bitmap_set (of_nat f) s)\<lparr>used_frames := used_frames s + 1\<rparr>"
    using frame(1) assms(3) by auto
  have "unat a = f * 4096" using frame(6) by (simp add: s' frame_addr)
  then have nz: "a \<noteq> 0" using frame(5) by auto
  have "length (frame_bitmap s) = 4098" using assms(1) by (simp add: pmm_inv_def)
  then have "free_frames s' = free_frames s - {f}" and "scan_limit s' = scan_limit s"
    using frame(6) by (simp add: s' free_frames_set, simp add: s' scan_limit_def bitmap_set_in)
  then have "low_frames s' = low_frames s - {f}" by (auto simp: low_frames_def free_frames_def)
  moreover have "f \<in> low_frames s" using frame(2,3) by (simp add: low_frames_def)
  ultimately show ?thesis
    using nz card_Suc_Diff1 [OF finite_low_frames, of f s] by simp
next
  case none
  then show ?thesis using assms(2) by (auto simp: low_frames_def)
qed

lemma alloc_no_frames:
  assumes "pmm_inv s" and "low_frames s = {}"
  shows "fst (pmm_alloc_frame s) = 0"
  using assms(1)
proof (cases rule: pmm_alloc_cases)
  case (frame f)
  then show ?thesis using assms(2) by (auto simp: low_frames_def)
next
  case none
  then show ?thesis by simp
qed

lemma low_frames_set_entry: "low_frames (paging_set_entry va pa flags s) = low_frames s"
  by (cases "window_fault s (pde s (pd_index va) AND 0xFFFFF000)")
    (simp_all add: low_frames_def set_entry_eq set_entry_hidden frame_free_def scan_limit_def add_fault_def)

lemma map_fresh_frame:
  fixes s :: "'a kheap_state_scheme"
  assumes "paging_inv s" and "\<And>k. k < n \<Longrightarrow> page_ready s (va + 4096 * of_nat k)"
    and "\<And>k l. k < n \<Longrightarrow> l < n \<Longrightarrow> \<not> hides_table s (va + 4096 * of_nat k) (va + 4096 * of_nat l)"
    and "map_fresh pmm_alloc_frame paging_map_page fl n va s = (ok, s')"
  shows "paging_inv s' \<and> faults s' = faults s \<and> sym s' = sym s \<and> kheap_vars s' = kheap_vars s
    \<and> (\<forall>i. unat i < 1024 \<longrightarrow> pde s' i = pde s i)
    \<and> (\<forall>y. (\<forall>k < n. \<not> same_page (va + 4096 * of_nat k) y) \<longrightarrow> translate s' y = translate s y)
    \<and> (\<forall>x. (\<forall>k < n. page_no x \<noteq> page_no (table_of (pde s (pd_index (va + 4096 * of_nat k))))) \<longrightarrow> mem s' x = mem s x)
    \<and> (ok \<longleftrightarrow> n \<le> card (low_frames s)) \<and> (ok \<longrightarrow> card (low_frames s') + n = card (low_frames s))"
  using assms
proof (induction n arbitrary: va s)
  case (Suc n)
  obtain f s1 where a: "pmm_alloc_frame s = (f, s1)" by fastforce
  note i1 = alloc_paging_inv [OF Suc.prems(1) a]
  note p0 = paging_inv_parts(1) [OF Suc.prems(1)]
  note p1 = pmm_alloc_inv [OF p0 a]
  note e1 = pmm_erase_fields [OF p1(3)]
  have v1: "kheap_vars s1 = kheap_vars s" by (rule kheap_vars_erase [OF p1(3)])
  show ?case
  proof (cases "f = 0")
    case True
    then have "low_frames s = {}" using alloc_low_frames [OF p0 _ a] by blast
    then show ?thesis using True Suc.prems(4) a i1 p1(2) e1 v1 by simp
  next
    case False
    then have l: "card (low_frames s1) + 1 = card (low_frames s)"
      using alloc_low_frames [OF p0 _ a] alloc_no_frames [OF p0] a by fastforce
    have tab: "page_ready s1 va" using Suc.prems(2) [of 0] vm.alloc_ready [OF Suc.prems(1) a] by simp
    let ?s2 = "paging_set_entry va f fl s1"
    have m: "paging_map_page va f fl s1 = ?s2" by (rule map_page_present [OF page_readyD(1) [OF tab]])
    then have step: "map_fresh pmm_alloc_frame paging_map_page fl n (va + 4096) ?s2 = (ok, s')"
      using Suc.prems(4) a False by simp
    note i2 = set_entry_spec [OF i1(1) page_readyD(2,3) [OF tab], of f fl]
    have pde2: "pde ?s2 i = pde s i" if "unat i < 1024" for i
      using set_entry_pde [OF i1(1) page_readyD(1) [OF tab] that] i1(3) by simp
    have hid2: "hides_table ?s2 = hides_table s" using pde2 by (simp add: hides_table_def fun_eq_iff)
    have tabs: "page_ready ?s2 (va + 4096 + 4096 * of_nat k)" if "k < n" for k
      using Suc.prems(2) [of "Suc k"] Suc.prems(3) [of 0 "Suc k"] that vm.alloc_ready [OF Suc.prems(1) a]
        vm.alloc_hides [OF Suc.prems(1) a] map_page_ready [OF i1(1) tab, where pa = f and flags = fl, unfolded m]
      by (simp add: algebra_simps)
    have "\<not> hides_table ?s2 (va + 4096 + 4096 * of_nat k) (va + 4096 + 4096 * of_nat l)" if "k < n" "l < n" for k l
      using Suc.prems(3) [of "Suc k" "Suc l"] that hid2 by (simp add: algebra_simps)
    note IH = Suc.IH [OF i2(1) tabs this step]
    have mem2: "mem ?s2 x = mem s x" if "page_no x \<noteq> page_no (table_of (pde s (pd_index va)))" for x
      using set_entry_byte [of x s1 va f fl] that e1(1) i1(3) by simp
    have "mem s' x = mem s x"
      if x: "\<forall>k < Suc n. page_no x \<noteq> page_no (table_of (pde s (pd_index (va + 4096 * of_nat k))))" for x
    proof -
      have "page_no x \<noteq> page_no (table_of (pde ?s2 (pd_index (va + 4096 + 4096 * of_nat k))))" if "k < n" for k
        using x [rule_format, of "Suc k"] that pde2 by (simp add: algebra_simps)
      then have "mem s' x = mem ?s2 x" using IH by blast
      then show ?thesis using mem2 [of x] x [rule_format, of 0] by simp
    qed
    moreover have "translate s' y = translate s y" if y: "\<forall>k < Suc n. \<not> same_page (va + 4096 * of_nat k) y" for y
    proof -
      have "\<not> same_page (va + 4096 + 4096 * of_nat k) y" if "k < n" for k
        using y [rule_format, of "Suc k"] that by (simp add: algebra_simps)
      then show ?thesis using IH i2(3) [of y] i1(2) y [rule_format, of 0] by simp
    qed
    moreover have "sym ?s2 = sym s" "kheap_vars ?s2 = kheap_vars s"
      using e1 v1 set_entry_eq [OF page_readyD(3) [OF tab]] by simp_all
    ultimately show ?thesis using IH i2(2) p1(2) pde2 l by (auto simp: low_frames_set_entry)
  qed
qed simp

text \<open>The heap may grow up to \<open>lim\<close>: from the start of the kernel's window on, the page tables exist and
  lie, like the page directory, below the heap, where the window shows them.\<close>

definition in_window :: "nat \<Rightarrow> u32 \<Rightarrow> bool" where
  "in_window lim va \<longleftrightarrow> heap_base \<le> unat va \<and> unat va < lim"

definition in_linear :: "nat \<Rightarrow> u32 \<Rightarrow> bool" where
  "in_linear lim va \<longleftrightarrow> 3221225472 \<le> unat va \<and> unat va < lim"

definition heap_window :: "'a kheap_state_scheme \<Rightarrow> nat \<Rightarrow> bool" where
  "heap_window s lim \<longleftrightarrow> paging_inv s \<and> unat (heap_end s) mod 4096 = 0
     \<and> heap_base \<le> unat (heap_end s) \<and> unat (heap_end s) \<le> lim \<and> lim \<le> unat (heap_max s)
     \<and> (\<forall>va. in_window lim va \<longrightarrow> page_no va \<noteq> page_no (page_directory s))
     \<and> (\<forall>va. in_linear lim va \<longrightarrow> page_ready s va \<and> in_linear heap_base (table_of (pde s (pd_index va))))"

lemma page_below:
  assumes "unat b < heap_base" and "in_window lim va"
  shows "page_no va \<noteq> page_no b"
proof -
  have "page_no b < 787456"
    using assms(1) div_less_iff_less_mult [of 4096 "unat b" 787456] by (simp add: page_no_def)
  moreover have "787456 \<le> page_no va"
    using assms(2) less_eq_div_iff_mult_less_eq [of 4096 787456 "unat va"] by (simp add: page_no_def in_window_def)
  ultimately show ?thesis by simp
qed

lemma heap_windowD:
  assumes "heap_window s lim" and "in_linear lim va"
  shows "page_ready s va" "in_window lim y \<Longrightarrow> page_no y \<noteq> page_no (table_of (pde s (pd_index va)))"
    "in_linear lim (table_of (pde s (pd_index va)))"
proof -
  have t: "in_linear heap_base (table_of (pde s (pd_index va)))" and "page_ready s va" and "heap_base \<le> lim"
    using assms by (auto simp: heap_window_def)
  then show "page_ready s va" "in_linear lim (table_of (pde s (pd_index va)))" by (auto simp: in_linear_def)
  show "in_window lim y \<Longrightarrow> page_no y \<noteq> page_no (table_of (pde s (pd_index va)))"
    using t by (intro page_below) (simp_all add: in_linear_def)
qed

lemma window_view: "in_window lim va \<Longrightarrow> in_linear lim va"
  by (simp add: in_window_def in_linear_def)

lemma page_slot_kept:
  assumes al: "page_aligned d" and i: "unat i < 1024"
    and out: "\<And>va. in_window lim va \<Longrightarrow> page_no va \<noteq> page_no d"
    and same: "\<And>y. \<not> in_window lim y \<Longrightarrow> m' y = m y"
  shows "load32 m' (entry_at d i) = load32 m (entry_at d i)"
proof (rule load32_cong)
  fix k :: nat assume k: "k < 4"
  have sl: "unat (entry_at d i) = unat d + 4 * unat i" using al i by (rule unat_slot)
  have "unat (entry_at d i + of_nat k) = unat d + (4 * unat i + k)"
    using sl k i page_room [OF al] by (simp add: u32_add u32_of_nat)
  moreover have "4 * unat i + k < 4096" using i k by linarith
  ultimately have "page_no (entry_at d i + of_nat k) = page_no d"
    using page_off [OF al] by (simp add: page_no_def)
  then have "\<not> in_window lim (entry_at d i + of_nat k)" using out by auto
  then show "m' (entry_at d i + of_nat k) = m (entry_at d i + of_nat k)" by (rule same)
qed

lemma window_pde:
  assumes w: "heap_window s lim" and same: "\<And>y. \<not> in_window lim y \<Longrightarrow> mem s' y = mem s y"
    and sym: "sym s' = sym s" and i: "unat i < 1024"
  shows "pde s' i = pde s i"
  unfolding pde_def sym
  using w paging_inv_parts(2) by (intro page_slot_kept [OF _ i _ same]) (auto simp: heap_window_def)

text \<open>Writing into the heap does not change where the addresses of the window lead.\<close>

lemma window_translate:
  assumes w: "heap_window s lim" and same: "\<And>y. \<not> in_window lim y \<Longrightarrow> mem s' y = mem s y"
    and sym: "sym s' = sym s" and va: "in_linear lim va"
  shows "translate s' va = translate s va"
proof -
  have al: "page_aligned (page_directory s)" using w paging_inv_parts(2) by (auto simp: heap_window_def)
  have pde: "pde s' (pd_index va) = pde s (pd_index va)" using window_pde [OF w same sym] by simp
  have "pte s' va = pte s va"
    unfolding pte_def pde using heap_windowD(2) [OF w va] by (intro page_slot_kept [OF _ _ _ same]) auto
  then show ?thesis using al pde by (simp add: translate_eq sym)
qed

text \<open>The tables stay shown where the directory entries and the translations of the tables' addresses do.\<close>

lemma window_ready:
  assumes w: "heap_window s lim" and pde: "\<And>i. unat i < 1024 \<Longrightarrow> pde s' i = pde s i" and va: "in_linear lim va"
    and tr: "translate s' (table_of (pde s (pd_index va))) = translate s (table_of (pde s (pd_index va)))"
  shows "page_ready s' va"
  using heap_windowD(1) [OF w va] pde [of "pd_index va"] tr
  by (simp add: page_ready_def table_present_def window_shows_iff table_of_def)

lemma heap_window_update:
  assumes w: "heap_window s lim" and same: "\<And>y. \<not> in_window lim y \<Longrightarrow> mem s' y = mem s y"
    and sym: "sym s' = sym s" and pmm: "pmm_inv s'" "avail_frames s' = avail_frames s"
    and hp: "unat (heap_end s') mod 4096 = 0" "heap_base \<le> unat (heap_end s')" "unat (heap_end s') \<le> lim"
      "heap_max s' = heap_max s"
  shows "heap_window s' lim"
proof -
  have pde: "pde s' i = pde s i" if "unat i < 1024" for i using window_pde [OF w same sym that] .
  have "paging_inv s'"
    using w pde by (intro paging_inv_cong [OF _ pmm(1) sym pmm(2)]) (auto simp: heap_window_def)
  moreover have "page_ready s' va" if "in_linear lim va" for va
    by (rule window_ready [OF w pde that window_translate [OF w same sym heap_windowD(3) [OF w that]]])
  ultimately show ?thesis using w hp pde unfolding heap_window_def sym by simp
qed

lemma page_tail:
  assumes "page_aligned a" and "k < n" and "unat a + 4096 * n \<le> 4294967296"
  shows "unat (a + 4096 * of_nat k) = unat a + 4096 * k"
proof -
  have "unat (of_nat (4096 * k) :: u32) = 4096 * k" using assms by (intro u32_of_nat) linarith
  then show ?thesis using assms by (simp add: u32_add)
qed

text \<open>Mapping pages of the window leaves the heap as it is.\<close>

lemma map_fresh_window:
  fixes s :: "'a kheap_state_scheme"
  assumes w: "heap_window s lim" and room: "unat (heap_end s) + 4096 * n \<le> lim"
    and run: "map_fresh pmm_alloc_frame paging_map_page fl n (heap_end s) s = (done, s')"
  shows "heap_window s' lim" "faults s' = faults s" "kheap_vars s' = kheap_vars s"
    "\<And>y. in_window lim y \<Longrightarrow> mem s' y = mem s y" "sym s' = sym s"
    "\<And>k. k < n \<Longrightarrow> page_ready s (heap_end s + 4096 * of_nat k)"
    "\<And>k l. k < n \<Longrightarrow> l < n \<Longrightarrow> \<not> hides_table s (heap_end s + 4096 * of_nat k) (heap_end s + 4096 * of_nat l)"
    "done \<longleftrightarrow> n \<le> card (low_frames s)" "done \<Longrightarrow> card (low_frames s') + n = card (low_frames s)"
proof -
  let ?p = "\<lambda>k. heap_end s + 4096 * of_nat k"
  have lim: "lim < 4294967296" using w u32_bound [of "heap_max s"] by (auto simp: heap_window_def)
  have inw: "in_window lim (?p k)" if "k < n" for k
  proof -
    have "unat (?p k) = unat (heap_end s) + 4096 * k"
      using w room lim that by (intro page_tail [where n = n]) (auto simp: heap_window_def)
    then show ?thesis using w room that by (simp add: in_window_def heap_window_def)
  qed
  note wD = heap_windowD [OF w window_view [OF inw]]
  then show tabs: "page_ready s (?p k)" if "k < n" for k using that by blast
  show hid: "\<not> hides_table s (?p k) (?p l)" if "k < n" "l < n" for k l
    using wD(2) [OF that(2) inw [OF that(1)]] by (simp add: hides_table_def same_page_no)
  have inv: "paging_inv s" using w by (simp add: heap_window_def)
  note f = map_fresh_frame [OF inv tabs hid run]
  then show "faults s' = faults s" and vars: "kheap_vars s' = kheap_vars s" and sym: "sym s' = sym s"
    and "done \<longleftrightarrow> n \<le> card (low_frames s)" "done \<Longrightarrow> card (low_frames s') + n = card (low_frames s)" by auto
  show "mem s' y = mem s y" if "in_window lim y" for y
    using f wD(2) that by blast
  have "paging_inv s'" and pde: "\<And>i. unat i < 1024 \<Longrightarrow> pde s' i = pde s i" using f by auto
  moreover have "page_ready s' va" if va: "in_linear lim va" for va
  proof (rule window_ready [OF w pde va])
    have "\<not> same_page (?p k) (table_of (pde s (pd_index va)))" if "k < n" for k
      using heap_windowD(2) [OF w va inw [OF that]] by (simp add: same_page_no)
    then show "translate s' (table_of (pde s (pd_index va))) = translate s (table_of (pde s (pd_index va)))" using f by blast
  qed
  ultimately show "heap_window s' lim"
    using w vars unfolding heap_window_def sym by (simp add: kheap_vars_def)
qed

lemma map_fresh_heap_ok:
  fixes s :: "'a kheap_state_scheme"
  assumes ok: "heap_ok s bs" and w: "heap_window s lim" and room: "unat (heap_end s) + 4096 * n \<le> lim"
    and run: "map_fresh pmm_alloc_frame paging_map_page fl n (heap_end s) s = (done, s')"
  shows "heap_ok s' bs"
proof -
  note f = map_fresh_window [OF w room run]
  have "mem s' (of_nat x) = mem s (of_nat x)" if "heap_base \<le> x" "x < unat (heap_end s)" for x
  proof -
    have "unat (of_nat x :: u32) = x" using that u32_bound [of "heap_end s"] by (intro u32_of_nat) simp
    then show ?thesis using that w by (intro f(4)) (simp add: in_window_def heap_window_def)
  qed
  then have "block_seg (mem s') (unat (heap_end s)) heap_base bs (unat (heap_end s))"
    using u32_bound [of "heap_end s"] by (intro block_seg_cong [OF heap_okD(4) [OF ok]]) auto
  then show ?thesis using ok f(3) by (simp add: heap_ok_def kheap_vars_def)
qed

lemma extend_blocks_simps:
  "extend_blocks x (zs @ [(n, True)]) = zs @ [(n + x, True)]"
  "extend_blocks x (zs @ [(n, False)]) = zs @ [(n, False), (x - 12, True)]"
  by (simp_all add: extend_blocks_def)

lemma extend_blocks_facts:
  assumes "bs \<noteq> []"
  shows "allocs a (extend_blocks x bs) = allocs a bs" "used_bytes (extend_blocks x bs) = used_bytes bs"
    "extend_blocks x bs \<noteq> []"
proof -
  obtain zs n f where "bs = zs @ [(n, f)]" using assms by (metis append_butlast_last_id surj_pair)
  then show "allocs a (extend_blocks x bs) = allocs a bs" "used_bytes (extend_blocks x bs) = used_bytes bs"
    "extend_blocks x bs \<noteq> []" by (cases f; simp add: extend_blocks_simps)+
qed

lemma extend_blocks_fit:
  assumes "bs \<noteq> []" and "sz + 12 \<le> x"
  shows "first_fit a sz (extend_blocks x bs) \<noteq> None"
proof -
  have fit: "first_fit a sz (zs @ [(k, True)]) \<noteq> None" if "sz \<le> k" for zs k
    using that by (induction zs arbitrary: a rule: span.induct) auto
  obtain zs n f where bs: "bs = zs @ [(n, f)]" using assms(1) by (metis append_butlast_last_id surj_pair)
  show ?thesis
    using fit [of "n + x" zs] fit [of "x - 12" "zs @ [(n, False)]"] assms(2)
    by (cases f) (simp_all add: bs extend_blocks_simps)
qed

lemma expand_write_mem: "\<exists>m. expand_write b x s = s\<lparr>mem := m\<rparr>"
  by (simp add: expand_write_def Let_def set_size_def set_is_free_def set_next_def) blast

lemma expand_write_spec:
  assumes ok: "heap_ok s bs" and x: "12 \<le> x" "unat (heap_end s) + x < 4294967296"
  defines "b \<equiv> of_nat (heap_base + span (butlast bs))"
  shows "block_seg (mem (expand_write b (of_nat x) s)) (unat (heap_end s) + x) heap_base (extend_blocks x bs)
      (unat (heap_end s) + x)"
    and "\<And>y. y < 4294967296 \<Longrightarrow> y \<notin> header_bytes heap_base bs \<Longrightarrow> y \<notin> {unat (heap_end s)..<unat (heap_end s) + 12} \<Longrightarrow>
      mem (expand_write b (of_nat x) s) (of_nat y) = mem s (of_nat y)"
proof -
  note h = heap_okD [OF ok]
  obtain zs n f where bs: "bs = zs @ [(n, f)]" using h(1) by (metis append_butlast_last_id surj_pair)
  define c where "c = heap_base + span zs"
  have b: "b = of_nat c" by (simp add: b_def bs c_def)
  note seg = h(4) [unfolded bs]
  note at = block_at [OF seg, folded c_def]
  have end_w: "of_nat (unat (heap_end s)) = heap_end s" by simp
  have xw: "of_nat x - 12 = (of_nat (x - 12) :: u32)" using x by (simp add: of_nat_diff)
  have far: "c + 12 \<le> unat (heap_end s)" "unat (heap_end s) + 12 \<le> 4294967296" using at(4) x by auto
  show "block_seg (mem (expand_write b (of_nat x) s)) (unat (heap_end s) + x) heap_base (extend_blocks x bs)
      (unat (heap_end s) + x)"
    using extend_last_free [OF _ x(2), of "mem s" heap_base zs n] extend_last_used [OF _ x(2,1), of "mem s" heap_base zs n]
      seg at(1,2) unfolding bs b
    by (cases f) (simp_all add: extend_blocks_simps expand_write_def Let_def c_def [symmetric] xw del: of_nat_diff)
  show "mem (expand_write b (of_nat x) s) (of_nat y) = mem s (of_nat y)"
    if "y < 4294967296" "y \<notin> header_bytes heap_base bs" "y \<notin> {unat (heap_end s)..<unat (heap_end s) + 12}" for y
  proof -
    have "y \<notin> {c..<c + 12}" using that(2) by (auto simp: bs c_def)
    then show ?thesis
      using that(1,3) far other_byte_simps [of "unat (heap_end s)" y]
      by (auto simp: expand_write_def Let_def b other_byte_simps end_w)
  qed
qed

lemma heap_expand_spec:
  fixes s :: "'a kheap_state_scheme"
  assumes ok: "heap_ok s bs" and w: "heap_window s lim" and min: "12 \<le> unat min_size"
    and room: "unat (heap_end s) + (unat min_size + 4095) div 4096 * 4096 \<le> lim"
    and run: "heap_expand min_size s = (grown, s')"
  obtains x where "x = (unat min_size + 4095) div 4096 * 4096" "grown \<longleftrightarrow> x \<le> 4096 * card (low_frames s)"
    "heap_ok s' (if grown then extend_blocks x bs else bs)" "heap_window s' lim"
    "faults s' = faults s" "unat (heap_end s') = unat (heap_end s) + (if grown then x else 0)"
    "\<And>y. heap_base \<le> y \<Longrightarrow> y < unat (heap_end s) \<Longrightarrow> y \<notin> header_bytes heap_base bs \<Longrightarrow> mem s' (of_nat y) = mem s (of_nat y)"
proof -
  have lim: "lim \<le> unat (heap_max s)" "lim < 4294967296" "unat (heap_end s) \<le> lim"
    using w u32_bound [of "heap_max s"] by (auto simp: heap_window_def)
  define x where "x = unat (page_align_up min_size)"
  have x: "x = (unat min_size + 4095) div 4096 * 4096"
    unfolding x_def by (rule unat_page_align_up) (use room lim w in \<open>unfold heap_window_def, linarith\<close>)
  have xb: "unat min_size \<le> x" "x \<le> unat min_size + 4095" unfolding x by linarith+
  have roomx: "unat (heap_end s) + x \<le> lim" using room x by simp
  have n: "unat (page_align_up min_size div 4096) = x div 4096" by (simp add: x_def unat_div_distrib)
  have xn: "4096 * (x div 4096) = x" unfolding x by simp
  have ew: "unat (heap_end s + page_align_up min_size) = unat (heap_end s) + x"
    using roomx lim xb by (simp add: u32_add x_def)
  then have guard: "\<not> heap_end s + page_align_up min_size > heap_max s"
    using roomx lim xb by (simp add: u32_less_iff)
  obtain ok1 s1 where m: "map_fresh pmm_alloc_frame paging_map_page 3 (x div 4096) (heap_end s) s = (ok1, s1)" by fastforce
  have "unat (heap_end s) + 4096 * (x div 4096) \<le> lim" using xn roomx by simp
  note f = map_fresh_heap_ok [OF ok w this m] map_fresh_window [OF w this m]
  have grown: "ok1 \<longleftrightarrow> x \<le> 4096 * card (low_frames s)" using f(9) xn by linarith
  have flags: "1 OR 2 = (3 :: u32)" by simp
  have vars: "heap_end s1 = heap_end s" "heap_max s1 = heap_max s" using f(4) by (auto simp: kheap_vars_def)
  have inw: "in_window lim (of_nat y)" if "heap_base \<le> y" "y < lim" for y
    using that lim by (simp add: in_window_def u32_of_nat)
  show thesis
  proof (cases ok1)
    case False
    then have "heap_expand min_size s = (False, s1)"
      using m guard n flags by (simp add: heap_expand_def Let_def)
    then show thesis using run f inw vars lim grown x False by (intro that [of x]) auto
  next
    case True
    define b :: u32 where "b = of_nat (heap_base + span (butlast bs))"
    note h1 = heap_okD [OF f(1)]
    have lb: "last_block (mem s1) (first_block s1) = Some b"
      using last_block_eq [OF h1(4,1) _ u32_bound] h1(3) by (simp add: b_def)
    obtain m2 where m2: "expand_write b (of_nat x) s1 = s1\<lparr>mem := m2\<rparr>" using expand_write_mem by blast
    have xw: "page_align_up min_size = of_nat x" by (simp add: x_def)
    let ?s2 = "s1\<lparr>mem := m2, heap_end := heap_end s1 + of_nat x\<rparr>"
    have eq: "heap_expand min_size s = (True, ?s2)"
      using m True guard n flags lb h1(3) m2 by (simp add: heap_expand_def Let_def xw [symmetric])
    have x12: "12 \<le> x" "unat (heap_end s1) + x < 4294967296" using min roomx lim xb vars by auto
    note ws = expand_write_spec [OF f(1) x12, folded b_def, unfolded m2, simplified]
    have e2: "unat (heap_end ?s2) = unat (heap_end s) + x" using ew vars xw by simp
    have "heap_ok ?s2 (extend_blocks x bs)"
      using f(1) ws(1) e2 vars extend_blocks_facts [OF heap_okD(1) [OF ok]] by (simp add: heap_ok_def)
    moreover have "heap_window ?s2 lim"
    proof (rule heap_window_update [OF f(2)])
      show "mem ?s2 y = mem s1 y" if "\<not> in_window lim y" for y
      proof -
        have "unat y \<notin> header_bytes heap_base bs" "unat y \<notin> {unat (heap_end s1)..<unat (heap_end s1) + 12}"
          using that header_bytes_range [of heap_base bs] h1(6) vars roomx xb min lim
          by (auto simp: in_window_def)
        then show ?thesis using ws(2) [of "unat y"] u32_bound [of y] by simp
      qed
      show "pmm_inv ?s2" "avail_frames ?s2 = avail_frames s1"
        using f(2) paging_inv_parts(1) by (auto simp: heap_window_def pmm_inv_def term_inv_def frame_free_def avail_frames_def free_frames_def)
      show "unat (heap_end ?s2) mod 4096 = 0" using e2 w unfolding x by (simp add: heap_window_def mod_add_left_eq)
      show "heap_base \<le> unat (heap_end ?s2)" "unat (heap_end ?s2) \<le> lim" using e2 w roomx xb by (auto simp: heap_window_def)
    qed simp_all
    moreover have "mem ?s2 (of_nat y) = mem s (of_nat y)"
      if "heap_base \<le> y" "y < unat (heap_end s)" "y \<notin> header_bytes heap_base bs" for y
      using ws(2) [of y] that f(5) [OF inw] vars lim by auto
    ultimately show thesis using run eq f(3) e2 x grown True by (intro that [of x]) auto
  qed
qed

section \<open>Allocation and release on the abstract heap\<close>

lemma unat_round8:
  assumes "unat n + 7 < 4294967296"
  shows "unat (round8 n) = (unat n + 7) div 8 * 8"
proof -
  have "NOT 7 = NOT (mask 3 :: u32)" by (simp add: mask_eq_exp_minus_1)
  moreover have "x AND NOT (mask 3) = push_bit 3 (drop_bit 3 x)" for x :: u32
    by (rule bit_word_eqI) (auto simp: bit_simps)
  ultimately have r: "round8 n = push_bit 3 (drop_bit 3 (n + 7))" by (simp only: round8_def)
  have "unat (n + 7) div 8 * 8 < 4294967296" using u32_bound [of "n + 7"] by linarith
  then have "unat (round8 n) = unat (n + 7) div 8 * 8"
    by (simp add: r push_bit_eq_mult drop_bit_eq_div unat_mult_lem [THEN iffD1] unat_div_distrib)
  then show ?thesis using assms by (simp add: u32_add)
qed

text \<open>What \<^verbatim>\<open>kmalloc\<close> does to the list of blocks: first fit, on the list as it is or, when no block
  fits, with the heap grown.\<close>

definition alloc_blocks :: "nat \<Rightarrow> block list \<Rightarrow> nat \<Rightarrow> block list \<Rightarrow> bool" where
  "alloc_blocks sz bs p bs' \<longleftrightarrow> first_fit heap_base sz bs = Some (p, bs')
     \<or> first_fit heap_base sz bs = None \<and> (\<exists>x \<ge> sz + 12. first_fit heap_base sz (extend_blocks x bs) = Some (p, bs'))"

text \<open>Exactly: the heap grows by the least number of pages that hold the block and a header, and it does so if
  it stays below the given limit and there are frames for those pages.\<close>

definition grow_size :: "nat \<Rightarrow> nat" where
  "grow_size sz = (sz + 12 + 4095) div 4096 * 4096"

definition kmalloc_blocks :: "nat \<Rightarrow> nat \<Rightarrow> nat \<Rightarrow> block list \<Rightarrow> (nat \<times> block list) option" where
  "kmalloc_blocks limit frames sz bs =
     (case first_fit heap_base sz bs of
        Some r \<Rightarrow> Some r
      | None \<Rightarrow> if heap_base + span bs + grow_size sz \<le> limit \<and> grow_size sz \<le> 4096 * frames
                then first_fit heap_base sz (extend_blocks (grow_size sz) bs) else None)"

lemma grow_size_bounds: "sz + 12 \<le> grow_size sz" "grow_size sz \<le> sz + 4107"
  unfolding grow_size_def by linarith+

lemma kmalloc_blocks_alloc:
  "kmalloc_blocks limit frames sz bs = Some (p, bs') \<Longrightarrow> alloc_blocks sz bs p bs'"
  "kmalloc_blocks limit frames sz bs = None \<Longrightarrow> first_fit heap_base sz bs = None"
  using grow_size_bounds(1) [of sz]
  by (auto simp: kmalloc_blocks_def alloc_blocks_def split: option.splits if_splits)

definition payloads_kept :: "memory \<Rightarrow> memory \<Rightarrow> block list \<Rightarrow> bool" where
  "payloads_kept m m' bs \<longleftrightarrow>
     (\<forall>q j x. (q, j) \<in> allocs heap_base bs \<longrightarrow> q \<le> x \<longrightarrow> x < q + j \<longrightarrow> m' (of_nat x) = m (of_nat x))"

lemma alloc_blocks_effect:
  assumes "alloc_blocks sz bs p bs'" and "bs \<noteq> []"
  obtains k where "sz \<le> k" "allocs heap_base bs' = insert (p, k) (allocs heap_base bs)"
    "p \<notin> fst ` allocs heap_base bs" "used_bytes bs' = used_bytes bs + k"
proof -
  obtain bs0 where "first_fit heap_base sz bs0 = Some (p, bs')" "allocs heap_base bs0 = allocs heap_base bs"
    "used_bytes bs0 = used_bytes bs"
    using assms by (auto simp: alloc_blocks_def extend_blocks_facts)
  then show thesis by (elim first_fit_effect) (rule that; simp)
qed

lemma heap_window_kprintf:
  assumes "heap_window s lim" and "kprintf_ok fmt args"
  shows "heap_window (kprintf fmt args s) lim" "faults (kprintf fmt args s) = faults s"
proof -
  have "pmm_inv s" using assms(1) paging_inv_parts(1) by (auto simp: heap_window_def)
  then show "faults (kprintf fmt args s) = faults s" using assms(2) by (simp add: pmm_inv_def kprintf_safe)
  show "heap_window (kprintf fmt args s) lim"
    using \<open>pmm_inv s\<close> assms kheap_vars_kprintf [of fmt args s]
    by (intro heap_window_update [OF assms(1)])
       (auto simp: pmm_inv_kprintf avail_frames_def kheap_vars_def heap_window_def)
qed

lemma heap_ok_kprintf: "heap_ok s bs \<Longrightarrow> heap_ok (kprintf fmt args s) bs"
  using kheap_vars_kprintf [of fmt args s] by (auto simp: heap_ok_def kheap_vars_def)

lemma take_window:
  fixes s :: "'a kheap_state_scheme"
  assumes w: "heap_window s lim" and eq: "s' = s\<lparr>mem := mem s', total_allocated := t\<rparr>"
    and out: "\<And>x. x < 4294967296 \<Longrightarrow> x < heap_base \<or> unat (heap_end s) \<le> x \<Longrightarrow> mem s' (of_nat x) = mem s (of_nat x)"
  shows "heap_window s' lim" "faults s' = faults s" "heap_end s' = heap_end s"
proof -
  have "mem s' y = mem s y" if "\<not> in_window lim y" for y
    using out [of "unat y"] that w u32_bound [of y] by (auto simp: in_window_def heap_window_def)
  moreover have "pmm_inv s'" "avail_frames s' = avail_frames s" "sym s' = sym s" "heap_max s' = heap_max s"
    using w paging_inv_parts(1) [of s] by (subst eq; auto simp: heap_window_def pmm_inv_def term_inv_def frame_free_def
      avail_frames_def free_frames_def)+
  moreover show "heap_end s' = heap_end s" "faults s' = faults s" by (subst eq; simp)+
  ultimately show "heap_window s' lim" using w by (intro heap_window_update [OF w]) (auto simp: heap_window_def)
qed

lemma kmalloc_hit:
  fixes s :: "'a kheap_state_scheme"
  assumes ok: "heap_ok s bs" and fit: "first_fit heap_base (unat (round8 req)) bs = Some (p, bs')" and req: "req \<noteq> 0"
  obtains s' where "kmalloc req s = (of_nat p, s')" "take_block (of_nat (p - 12)) (round8 req) s = (of_nat p, s')"
    "of_nat (p - 12) \<noteq> (0 :: u32)"
proof -
  obtain k s' where t: "take_block (of_nat (p - 12)) (round8 req) s = (of_nat p, s')" "heap_ok s' bs'"
    "allocs heap_base bs' = insert (p, k) (allocs heap_base bs)"
    "s' = s\<lparr>mem := mem s', total_allocated := total_allocated s + of_nat k\<rparr>"
    by (rule take_first_fit [OF ok fit])
  have "(p, k) \<in> allocs heap_base bs'" using t(3) by simp
  then have "heap_base + 12 \<le> p" "p + k \<le> unat (heap_end s')"
    using allocs_range [of p k heap_base bs'] heap_okD(6) [OF t(2)] by auto
  then have "unat (of_nat (p - 12) :: u32) = p - 12" using u32_bound [of "heap_end s'"] by (intro u32_of_nat) simp
  then have "of_nat (p - 12) \<noteq> (0 :: u32)" using \<open>heap_base + 12 \<le> p\<close> by auto
  then show thesis
    using that [of s'] t(1) fit req find_free_block_eq [OF ok, of "round8 req"] by (simp add: kmalloc_def)
qed

definition heap_step :: "'a kheap_state_scheme \<Rightarrow> block list \<Rightarrow> 'a kheap_state_scheme \<Rightarrow> block list \<Rightarrow> nat \<Rightarrow> bool" where
  "heap_step s bs s' bs' lim \<longleftrightarrow> heap_ok s' bs' \<and> heap_window s' lim \<and> faults s' = faults s
     \<and> payloads_kept (mem s) (mem s') bs"

lemma take_step:
  fixes s :: "'a kheap_state_scheme"
  assumes "heap_ok s bs" and "heap_window s lim" and "first_fit heap_base (unat w) bs = Some (p, bs')"
    and "take_block (of_nat (p - 12)) w s = (q, s')"
  shows "q = of_nat p" "heap_step s bs s' bs' lim" "heap_end s' = heap_end s"
proof -
  obtain k t where t: "take_block (of_nat (p - 12)) w s = (of_nat p, t)" "heap_ok t bs'"
    "t = s\<lparr>mem := mem t, total_allocated := total_allocated s + of_nat k\<rparr>"
    "\<And>q j x. (q, j) \<in> allocs heap_base bs \<Longrightarrow> q \<le> x \<Longrightarrow> x < q + j \<Longrightarrow> mem t (of_nat x) = mem s (of_nat x)"
    "\<And>x. x < 4294967296 \<Longrightarrow> x < heap_base \<or> unat (heap_end s) \<le> x \<Longrightarrow> mem t (of_nat x) = mem s (of_nat x)"
    by (rule take_first_fit [OF assms(1,3)]) (rule that; assumption)
  then show "q = of_nat p" "heap_step s bs s' bs' lim" "heap_end s' = heap_end s"
    using assms(4) take_window [OF assms(2) t(3,5)] by (simp_all add: heap_step_def payloads_kept_def)
qed

lemma expand_step:
  fixes s :: "'a kheap_state_scheme"
  assumes ok: "heap_ok s bs" and w: "heap_window s lim" and fits: "unat (heap_end s) + sz + 4107 < 4294967296"
    and room: "unat (heap_end s) + grow_size sz \<le> lim \<or> unat (heap_max s) < unat (heap_end s) + grow_size sz"
    and n: "unat min_size = sz + 12" and run: "heap_expand min_size s = (grown, s')"
  shows "grown \<longleftrightarrow> unat (heap_end s) + grow_size sz \<le> unat (heap_max s) \<and> grow_size sz \<le> 4096 * card (low_frames s)"
    "heap_step s bs s' (if grown then extend_blocks (grow_size sz) bs else bs) lim"
proof -
  have "(grown \<longleftrightarrow> unat (heap_end s) + grow_size sz \<le> unat (heap_max s) \<and> grow_size sz \<le> 4096 * card (low_frames s))
    \<and> heap_step s bs s' (if grown then extend_blocks (grow_size sz) bs else bs) lim"
  proof (cases "unat (heap_end s) + grow_size sz \<le> lim")
    case True
    have min: "12 \<le> unat min_size" "unat (heap_end s) + (unat min_size + 4095) div 4096 * 4096 \<le> lim"
      using True n by (simp_all add: grow_size_def)
    obtain x where x: "x = (unat min_size + 4095) div 4096 * 4096" "grown \<longleftrightarrow> x \<le> 4096 * card (low_frames s)"
      "heap_ok s' (if grown then extend_blocks x bs else bs)" "heap_window s' lim" "faults s' = faults s"
      and kept: "\<And>y. heap_base \<le> y \<Longrightarrow> y < unat (heap_end s) \<Longrightarrow> y \<notin> header_bytes heap_base bs \<Longrightarrow>
        mem s' (of_nat y) = mem s (of_nat y)"
      by (rule heap_expand_spec [OF ok w min run]) (rule that; assumption)
    have "payloads_kept (mem s) (mem s') bs"
      unfolding payloads_kept_def
    proof (intro allI impI)
      fix q j y assume "(q, j) \<in> allocs heap_base bs" "q \<le> y" "y < q + j"
      then show "mem s' (of_nat y) = mem s (of_nat y)"
        using allocs_range [of q j heap_base bs] allocs_headers [of q j heap_base bs] heap_okD(6) [OF ok]
        by (intro kept) auto
    qed
    moreover have "x = grow_size sz" using x(1) n by (simp add: grow_size_def)
    moreover have "lim \<le> unat (heap_max s)" using w by (simp add: heap_window_def)
    ultimately show ?thesis using x True by (auto simp: heap_step_def)
  next
    case False
    then have r: "unat (heap_max s) < unat (heap_end s) + grow_size sz" using room by simp
    have "unat (page_align_up min_size) = grow_size sz"
      unfolding grow_size_def using n fits by (subst unat_page_align_up) simp_all
    then have "unat (heap_end s + page_align_up min_size) = unat (heap_end s) + grow_size sz"
      using fits grow_size_bounds(2) [of sz] by (simp add: u32_add)
    then have "heap_expand min_size s = (False, s)" using r by (simp add: heap_expand_def Let_def u32_less_iff)
    then show ?thesis using run r ok w by (auto simp: heap_step_def payloads_kept_def)
  qed
  then show "grown \<longleftrightarrow> unat (heap_end s) + grow_size sz \<le> unat (heap_max s) \<and> grow_size sz \<le> 4096 * card (low_frames s)"
    "heap_step s bs s' (if grown then extend_blocks (grow_size sz) bs else bs) lim" by auto
qed

lemma kmalloc_exact:
  fixes s :: "'a kheap_state_scheme" and req :: u32
  defines "sz \<equiv> unat (round8 req)"
  assumes ok: "heap_ok s bs" and w: "heap_window s lim" and req: "req \<noteq> 0"
    and fits: "unat (heap_end s) + unat req + 8192 \<le> 4294967296"
    and room: "unat (heap_end s) + grow_size sz \<le> lim \<or> unat (heap_max s) < unat (heap_end s) + grow_size sz"
    and run: "kmalloc req s = (ptr, s')"
  shows "case kmalloc_blocks (unat (heap_max s)) (card (low_frames s)) sz bs of
      None \<Rightarrow> ptr = 0 \<and> heap_step s bs s' bs lim
    | Some (p, bs') \<Rightarrow> ptr = of_nat p \<and> heap_step s bs s' bs' lim"
proof (cases "first_fit heap_base sz bs")
  case (Some r)
  obtain p bs' where r: "r = (p, bs')" by fastforce
  note fit = Some [unfolded r sz_def]
  obtain t where "kmalloc req s = (of_nat p, t)" "take_block (of_nat (p - 12)) (round8 req) s = (of_nat p, t)"
    by (rule kmalloc_hit [OF ok fit req])
  then show ?thesis using take_step(2) [OF ok w fit] run Some r by (simp add: kmalloc_blocks_def)
next
  case None
  have sz: "sz \<le> unat req + 7" unfolding sz_def using fits by (subst unat_round8) auto
  have mw: "unat (round8 req + 12) = sz + 12" using sz fits by (simp add: u32_add sz_def)
  have ff: "find_free_block (round8 req) s = Some 0"
    using find_free_block_eq [OF ok, of "round8 req"] None by (simp add: sz_def)
  have e_end: "heap_base + span bs = unat (heap_end s)" using heap_okD(6) [OF ok] by simp
  obtain grown s1 where e: "heap_expand (round8 req + 12) s = (grown, s1)" by fastforce
  have "unat (heap_end s) + sz + 4107 < 4294967296" using sz fits by simp
  note x = expand_step [OF ok w this room mw e]
  show ?thesis
  proof (cases grown)
    case False
    then have s': "ptr = 0" "s' = kprintf ''Heap: Out of memory!\<newline>'' [] s1"
      using run e ff req by (simp_all add: kmalloc_def Let_def)
    have "heap_step s bs s' bs lim"
      using x(2) False heap_window_kprintf [of s1 lim "''Heap: Out of memory!\<newline>''" "[]"]
      by (simp add: heap_step_def s' heap_ok_kprintf)
    then show ?thesis using x(1) False None s'(1) by (auto simp: kmalloc_blocks_def e_end)
  next
    case True
    let ?bs = "extend_blocks (grow_size sz) bs"
    have st: "heap_ok s1 ?bs" "heap_window s1 lim" "faults s1 = faults s" "payloads_kept (mem s) (mem s1) bs"
      using x(2) True by (auto simp: heap_step_def)
    obtain p bs' where fit: "first_fit heap_base sz ?bs = Some (p, bs')"
      using extend_blocks_fit [OF heap_okD(1) [OF ok] grow_size_bounds(1)] by fastforce
    then have fit': "first_fit heap_base (unat (round8 req)) ?bs = Some (p, bs')" by (simp add: sz_def)
    obtain t where t: "kmalloc req s1 = (of_nat p, t)" "take_block (of_nat (p - 12)) (round8 req) s1 = (of_nat p, t)"
      "of_nat (p - 12) \<noteq> (0 :: u32)"
      by (rule kmalloc_hit [OF st(1) fit' req])
    have "kmalloc req s = kmalloc req s1"
      using find_free_block_eq [OF st(1), of "round8 req"] fit ff e True req t
      by (simp add: kmalloc_def Let_def sz_def split: if_splits)
    then have "ptr = of_nat p" "s' = t" using run t by auto
    moreover have "heap_step s1 ?bs t bs' lim" by (rule take_step(2) [OF st(1,2) fit' t(2)])
    ultimately show ?thesis
      using st x(1) True None fit extend_blocks_facts [OF heap_okD(1) [OF ok]]
      by (auto simp: heap_step_def payloads_kept_def kmalloc_blocks_def e_end)
  qed
qed

lemma kmalloc_cases:
  fixes s :: "'a kheap_state_scheme"
  assumes ok: "heap_ok s bs" and w: "heap_window s lim" and req: "req \<noteq> 0"
    and room: "unat (heap_end s) + unat req + 8192 \<le> lim" and run: "kmalloc req s = (ptr, s')"
  defines "sz \<equiv> unat (round8 req)"
  obtains (full) "ptr = 0" "first_fit heap_base sz bs = None" "heap_step s bs s' bs lim"
    | (got) p bs' where "ptr = of_nat p" "alloc_blocks sz bs p bs'" "heap_step s bs s' bs' lim"
proof -
  have lim: "lim < 4294967296" using w u32_bound [of "heap_max s"] by (auto simp: heap_window_def)
  have "sz \<le> unat req + 7" unfolding sz_def using room lim by (subst unat_round8) auto
  then have "unat (heap_end s) + grow_size sz \<le> lim" using room grow_size_bounds(2) [of sz] by simp
  note e = kmalloc_exact [OF ok w req _ _ run, folded sz_def, OF _ disjI1 [OF this]]
  show thesis
  proof (cases "kmalloc_blocks (unat (heap_max s)) (card (low_frames s)) sz bs")
    case None
    then show thesis using e room lim full kmalloc_blocks_alloc(2) [OF None] by simp
  next
    case (Some r)
    obtain p bs' where r: "r = (p, bs')" by fastforce
    show thesis by (rule got [OF _ kmalloc_blocks_alloc(1) [OF Some [unfolded r]]]) (use e room lim Some r in simp_all)
  qed
qed

section \<open>Initialisation\<close>

text \<open>The kernel image, with the directory and the tables in it, ends below the heap.\<close>

definition image_low :: "'a hw_state_scheme \<Rightarrow> bool" where
  "image_low s \<longleftrightarrow> page_directory s < HEAP_START_ADDR
     \<and> (\<forall>t < 4. 0xC0000000 \<le> table_page (page_tables_sym (sym s)) t \<and> table_page (page_tables_sym (sym s)) t < HEAP_START_ADDR)"

definition tables_reserved :: "'a pmm_state_scheme \<Rightarrow> bool" where
  "tables_reserved s \<longleftrightarrow> VIRT_TO_PHYS (page_directory s) \<notin> avail_frames s
     \<and> (\<forall>t < 4. VIRT_TO_PHYS (table_page (page_tables_sym (sym s)) t) \<notin> avail_frames s)"

definition kheap_reset :: "'a kheap_state_scheme \<Rightarrow> 'a kheap_state_scheme" where
  "kheap_reset s = s\<lparr>heap_start := HEAP_START_ADDR, heap_end := HEAP_START_ADDR,
     heap_max := HEAP_START_ADDR + MAX_HEAP_SIZE\<rparr>"

lemma window_index:
  assumes "in_linear 3238002688 va"
  shows "768 \<le> unat (pd_index va)" "unat (pd_index va) < 772"
  using assms less_eq_div_iff_mult_less_eq [of 4194304 768 "unat va"] div_less_iff_less_mult [of 4194304 "unat va" 772]
  by (simp_all add: in_linear_def pd_index_def unat_drop22)

lemma paging_init_window:
  fixes s :: "'a kheap_state_scheme"
  assumes placed: "tables_placed s" and pmm: "pmm_inv s" and own: "tables_reserved s" and low: "image_low s"
  shows "heap_window (kheap_reset (paging_init s)) 3238002688"
proof -
  let ?T = "table_page (page_tables_sym (sym s))" and ?r = "kheap_reset (paging_init s)"
  have inv: "paging_inv (paging_init s)" using own by (intro paging_init_inv [OF placed pmm]) (auto simp: tables_reserved_def)
  have f: "pde ?r = pde (paging_init s)" "page_directory ?r = page_directory s" "avail_frames ?r = avail_frames (paging_init s)"
    "translate ?r = translate (paging_init s)"
    by (auto simp: fun_eq_iff pde_def translate_def kheap_reset_def paging_init_fields avail_frames_def free_frames_def frame_free_def)
  have "pmm_inv ?r" using paging_inv_parts(1) [OF inv] by (auto simp: pmm_inv_def kheap_reset_def term_inv_def frame_free_def)
  then have "paging_inv ?r"
    using f by (intro paging_inv_cong [OF inv]) (auto simp: kheap_reset_def)
  moreover have "page_ready ?r va \<and> in_linear heap_base (table_of (pde ?r (pd_index va)))" if "in_linear 3238002688 va" for va
  proof -
    let ?t = "?T (unat (pd_index va) - 768)"
    note i = window_index [OF that]
    then have t: "page_aligned ?t" "0xC0000000 \<le> ?t" "?t < HEAP_START_ADDR"
      using placed low table_page_aligned by (auto simp: tables_placed_def image_low_def)
    note e = present_writable [OF page_aligned_window(2) [OF t(1)]]
    have d: "pde ?r (pd_index va) = VIRT_TO_PHYS ?t OR 3"
      using i paging_init_entries(1) [OF placed, of "pd_index va" 0] by (simp add: f)
    have "translate ?r ?t = Some (VIRT_TO_PHYS ?t)"
      using paging_init_translate [OF placed, of ?t] t by (simp add: f VIRT_TO_PHYS_def u32_order)
    then show ?thesis
      unfolding page_ready_def table_present_def window_shows_iff table_of_def d e(2) window_inverse
      using e(1) t by (simp add: in_linear_def u32_order)
  qed
  moreover have "page_no va \<noteq> page_no (page_directory ?r)" if "in_window 3238002688 va" for va
    using low that by (intro page_below) (auto simp: f image_low_def u32_order)
  ultimately show ?thesis unfolding heap_window_def by (simp add: kheap_reset_def)
qed

text \<open>The heap after \<^verbatim>\<open>kheap_init\<close>: one free block over the first megabyte, every page of it on a
  frame of its own.\<close>

lemma kheap_init_eq:
  assumes "map_fresh pmm_alloc_frame paging_map_page 3 256 HEAP_START_ADDR (kheap_reset s) = (True, s2)"
    and "heap_start s2 = HEAP_START_ADDR"
  obtains s6 where "kheap_init s = kprintf ''Heap: Initialized at 0x%x, size %u KB\<newline>'' [VInt HEAP_START_ADDR, VInt 1024] s6"
    "s6 = s2\<lparr>heap_end := 0xC0500000, first_block := HEAP_START_ADDR, mem := mem s6\<rparr>"
    "mem s6 = store32 (store32 (store32 (mem s2) HEAP_START_ADDR 0xFFFF4) 0xC0400004 1) 0xC0400008 0"
proof -
  define s6 where "s6 = s2\<lparr>heap_end := 0xC0500000, first_block := HEAP_START_ADDR,
    mem := store32 (store32 (store32 (mem s2) HEAP_START_ADDR 0xFFFF4) 0xC0400004 1) 0xC0400008 0\<rparr>"
  have d: "(1048576 :: u32) div 4096 = 256" "(1048576 :: u32) div 1024 = 1024"
    by (simp_all add: word_div_def)
  have f: "1 OR 2 = (3 :: u32)" by simp
  have "kheap_init s = kprintf ''Heap: Initialized at 0x%x, size %u KB\<newline>'' [VInt HEAP_START_ADDR, VInt 1024] s6"
    using assms unfolding kheap_init_def kheap_reset_def [symmetric]
    by (simp add: Let_def d f set_size_def set_is_free_def set_next_def s6_def kheap_reset_def [of s])
  then show thesis by (rule that) (simp_all add: s6_def)
qed

lemma kheap_init_spec:
  fixes s :: "'a kheap_state_scheme"
  assumes w: "heap_window (kheap_reset s) 3238002688" and frames: "256 \<le> card (low_frames s)"
    and zero: "total_allocated s = 0"
  obtains fs where "heap_ok (kheap_init s) [(1048564, True)]" "heap_window (kheap_init s) 3238002688"
    "faults (kheap_init s) = faults s" "length fs = 256" "distinct fs" "set fs \<subseteq> avail_frames s"
    "avail_frames (kheap_init s) = avail_frames s - set fs"
    "\<And>va. HEAP_START_ADDR \<le> va \<Longrightarrow> va < 0xC0500000 \<Longrightarrow>
       translate (kheap_init s) va = Some (fs ! (page_no va - 787456) OR (va AND 0xFFF))"
    "card (low_frames (kheap_init s)) + 256 = card (low_frames s)" "heap_max (kheap_init s) = HEAP_START_ADDR + MAX_HEAP_SIZE"
proof -
  let ?r = "kheap_reset s"
  obtain ok s2 where m: "map_fresh pmm_alloc_frame paging_map_page 3 256 (heap_end ?r) ?r = (ok, s2)" by fastforce
  have end_r: "heap_end ?r = HEAP_START_ADDR" by (simp add: kheap_reset_def)
  have room: "unat (heap_end ?r) + 4096 * 256 \<le> 3238002688" by (simp add: end_r)
  note f = map_fresh_window [OF w room m]
  have inv: "paging_inv ?r" using w by (simp add: heap_window_def)
  have same: "low_frames ?r = low_frames s" "avail_frames ?r = avail_frames s" "faults ?r = faults s"
    by (simp_all add: kheap_reset_def low_frames_def frame_free_def scan_limit_def avail_frames_def free_frames_def)
  have ok: "ok" using f(8) frames same by simp
  have page: "page_no HEAP_START_ADDR = 787456" by (simp add: page_no_def)
  obtain fs where fs: "length fs = 256" "distinct fs" "set fs \<subseteq> avail_frames ?r" "avail_frames s2 = avail_frames ?r - set fs"
    "\<And>va'. translate s2 va' = (if 787456 \<le> page_no va' \<and> page_no va' < 787712
       then Some (fs ! (page_no va' - 787456) OR (va' AND 0xFFF)) else translate ?r va')"
    using vm.map_fresh_xlate [OF inv m [unfolded eqTrueI [OF ok]] f(6) _ f(7)] by (auto simp: end_r page)
  have vars: "heap_start s2 = HEAP_START_ADDR" "heap_max s2 = HEAP_START_ADDR + MAX_HEAP_SIZE" "total_allocated s2 = 0"
    using f(3) zero by (simp_all add: kheap_vars_def kheap_reset_def)
  obtain s6 where s6: "kheap_init s = kprintf ''Heap: Initialized at 0x%x, size %u KB\<newline>'' [VInt HEAP_START_ADDR, VInt 1024] s6"
    "s6 = s2\<lparr>heap_end := 0xC0500000, first_block := HEAP_START_ADDR, mem := mem s6\<rparr>"
    "mem s6 = store32 (store32 (store32 (mem s2) HEAP_START_ADDR 0xFFFF4) 0xC0400004 1) 0xC0400008 0"
    using kheap_init_eq [of s s2] m ok vars end_r by auto
  have "load32 (mem s6) HEAP_START_ADDR = 0xFFFF4" "load32 (mem s6) 0xC0400004 = 1" "load32 (mem s6) 0xC0400008 = 0"
    unfolding s6(3) by (simp_all add: load32_store32_sep sep4_def)
  then have "block_seg (mem s6) (unat (heap_end s6)) heap_base [(1048564, True)] (unat (heap_end s6))"
    by (subst (2 3) s6(2)) (simp add: hdr_defs link_def)
  then have hok: "heap_ok s6 [(1048564, True)]" using vars by (subst s6(2)) (simp add: heap_ok_def)
  have out: "mem s6 y = mem s2 y" if "\<not> in_window 3238002688 y" for y
  proof -
    have "unat y \<notin> {heap_base..<heap_base + 12}" using that by (auto simp: in_window_def)
    then show ?thesis
      unfolding s6(3) using other_byte_simps [of heap_base "unat y", simplified] u32_bound [of y] by simp
  qed
  have kept: "sym s6 = sym s2" "pmm_inv s6" "avail_frames s6 = avail_frames s2" "faults s6 = faults s2"
    "heap_end s6 = 0xC0500000" "heap_max s6 = heap_max s2"
    using f(1) paging_inv_parts(1) [of s2] by (subst s6(2); auto simp: heap_window_def pmm_inv_def term_inv_def
      frame_free_def avail_frames_def free_frames_def)+
  have w6: "heap_window s6 3238002688"
    by (rule heap_window_update [OF f(1) out kept(1-3)]) (simp_all add: kept)
  have fmt: "kprintf_ok ''Heap: Initialized at 0x%x, size %u KB\<newline>'' [VInt HEAP_START_ADDR, VInt 1024]" by simp
  note k = heap_window_kprintf [OF w6 fmt, folded s6(1)]
  have tr: "translate (kheap_init s) va = Some (fs ! (page_no va - 787456) OR (va AND 0xFFF))"
    if "HEAP_START_ADDR \<le> va" "va < 0xC0500000" for va
  proof -
    have "in_linear 3238002688 va" using that by (simp add: in_linear_def u32_order)
    note window_translate [OF f(1) out kept(1) this]
    moreover have "787456 \<le> page_no va \<and> page_no va < 787712"
      using that less_eq_div_iff_mult_less_eq [of 4096 787456 "unat va"] div_less_iff_less_mult [of 4096 "unat va" 787712]
      by (simp add: page_no_def u32_order)
    ultimately show ?thesis using fs(5) [of va] by (simp add: s6(1) translate_def)
  qed
  show thesis
  proof (rule that [of fs])
    show "heap_ok (kheap_init s) [(1048564, True)]" using heap_ok_kprintf [OF hok] by (simp add: s6(1))
    show "avail_frames (kheap_init s) = avail_frames s - set fs"
      using kept(3) fs(4) same(2) by (simp add: s6(1) avail_frames_def)
    have "low_frames (kheap_init s) = low_frames s2"
      unfolding s6(1) by (subst s6(2)) (simp add: low_frames_def frame_free_def scan_limit_def)
    then show "card (low_frames (kheap_init s)) + 256 = card (low_frames s)" using f(9) ok same(1) by simp
    show "heap_max (kheap_init s) = HEAP_START_ADDR + MAX_HEAP_SIZE"
      using kheap_vars_kprintf [of "''Heap: Initialized at 0x%x, size %u KB\<newline>''" "[VInt HEAP_START_ADDR, VInt 1024]" s6] kept(6) vars(2)
      unfolding s6(1) by (simp add: kheap_vars_def)
  qed (use k f(2) kept(4) same fs tr in simp_all)
qed

section \<open>The contract of the heap\<close>

text \<open>Memory determines the list of blocks, so the live allocations are a function of the state.\<close>

lemma block_seg_unique:
  "block_seg m e a bs b \<Longrightarrow> block_seg m e a bs' b \<Longrightarrow> b < 4294967296 \<Longrightarrow> bs = bs'"
proof (induction bs arbitrary: a bs' rule: span.induct)
  case 1
  then show ?case using block_seg_span [of m e a bs' b] by (cases bs') auto
next
  case (2 n f bs)
  have b: "b = a + span ((n, f) # bs)" "b = a + span bs'" using 2(2,3) block_seg_span by blast+
  then obtain n' f' bs'' where bs': "bs' = (n', f') # bs''" by (cases bs') auto
  have "n < 4294967296" "n' < 4294967296" using b 2(4) bs' by auto
  moreover have "(of_nat n :: u32) = of_nat n'" "f = f'" using 2(2,3) bs' by (auto split: if_splits)
  ultimately have "n = n'" by (metis u32_of_nat)
  then show ?case using 2 bs' \<open>f = f'\<close> by auto
qed

lemma heap_ok_unique: "heap_ok s bs \<Longrightarrow> heap_ok s bs' \<Longrightarrow> bs = bs'"
  using block_seg_unique u32_bound heap_okD(4) by blast

definition heap_live :: "'a kheap_state_scheme \<Rightarrow> (nat \<times> nat) set" where
  "heap_live s = {r. \<exists>bs. heap_ok s bs \<and> r \<in> allocs heap_base bs}"

lemma heap_live_eq: "heap_ok s bs \<Longrightarrow> heap_live s = allocs heap_base bs"
  by (auto simp: heap_live_def dest: heap_ok_unique)

text \<open>The heap stays below the end of the linear window, where every page has its table.\<close>

abbreviation heap_lim :: nat where "heap_lim \<equiv> 3238002688"

definition heap_inv :: "'a kheap_state_scheme \<Rightarrow> bool" where
  "heap_inv s \<longleftrightarrow> (\<exists>bs. heap_ok s bs) \<and> heap_window s heap_lim"

definition heap_fits :: "'a kheap_state_scheme \<Rightarrow> u32 \<Rightarrow> bool" where
  "heap_fits s n \<longleftrightarrow> n \<noteq> 0 \<and> unat (heap_end s) + unat n + 8192 \<le> heap_lim"

lemma heap_inv_blocks:
  assumes "heap_inv s"
  obtains bs where "heap_ok s bs" "heap_window s heap_lim" "heap_live s = allocs heap_base bs"
  using assms heap_live_eq by (auto simp: heap_inv_def)

locale heap_allocator =
  fixes alloc :: "u32 \<Rightarrow> 's \<Rightarrow> u32 \<times> 's" and release :: "u32 \<Rightarrow> 's \<Rightarrow> 's"
    and live :: "'s \<Rightarrow> (nat \<times> nat) set" and bytes :: "'s \<Rightarrow> memory"
    and inv :: "'s \<Rightarrow> bool" and fits :: "'s \<Rightarrow> u32 \<Rightarrow> bool"
  assumes alloc_inv: "inv s \<Longrightarrow> fits s n \<Longrightarrow> alloc n s = (ptr, s') \<Longrightarrow> inv s'"
    and alloc_null: "inv s \<Longrightarrow> fits s n \<Longrightarrow> alloc n s = (0, s') \<Longrightarrow> live s' = live s"
    and alloc_live: "inv s \<Longrightarrow> fits s n \<Longrightarrow> alloc n s = (ptr, s') \<Longrightarrow> ptr \<noteq> 0 \<Longrightarrow>
      \<exists>k \<ge> unat n. live s' = insert (unat ptr, k) (live s) \<and> unat ptr \<notin> fst ` live s"
    and alloc_bytes: "inv s \<Longrightarrow> fits s n \<Longrightarrow> alloc n s = (ptr, s') \<Longrightarrow> (q, j) \<in> live s \<Longrightarrow>
      q \<le> x \<Longrightarrow> x < q + j \<Longrightarrow> bytes s' (of_nat x) = bytes s (of_nat x)"
    and release_inv: "inv s \<Longrightarrow> (p, k) \<in> live s \<Longrightarrow> inv (release (of_nat p) s)"
    and release_live: "inv s \<Longrightarrow> (p, k) \<in> live s \<Longrightarrow> live (release (of_nat p) s) = live s - {(p, k)}"
    and release_bytes: "inv s \<Longrightarrow> (p, k) \<in> live s \<Longrightarrow> (q, j) \<in> live s \<Longrightarrow>
      q \<le> x \<Longrightarrow> x < q + j \<Longrightarrow> bytes (release (of_nat p) s) (of_nat x) = bytes s (of_nat x)"
    and live_disjoint: "inv s \<Longrightarrow> (p, k) \<in> live s \<Longrightarrow> (q, j) \<in> live s \<Longrightarrow> p \<noteq> q \<Longrightarrow>
      {p..<p + k} \<inter> {q..<q + j} = {}"
    and live_bound: "inv s \<Longrightarrow> (p, k) \<in> live s \<Longrightarrow> 0 < p \<and> p + k < 4294967296"
begin

text \<open>A new allocation lies apart from every live one, and releasing it gives the old set back.\<close>

lemma alloc_fresh:
  assumes "inv s" and "fits s n" and "alloc n s = (p, s')" and "p \<noteq> 0" and "(q, j) \<in> live s"
  shows "{unat p..<unat p + unat n} \<inter> {q..<q + j} = {}"
proof -
  obtain k where k: "unat n \<le> k" "live s' = insert (unat p, k) (live s)" "unat p \<notin> fst ` live s"
    using alloc_live [OF assms(1-4)] by blast
  have "unat p \<noteq> q" using k(3) assms(5) by force
  then have "{unat p..<unat p + k} \<inter> {q..<q + j} = {}"
    using k(2) assms(5) by (intro live_disjoint [OF alloc_inv [OF assms(1-3)]]) auto
  then show ?thesis using k(1) by force
qed

lemma alloc_room:
  assumes "inv s" and "fits s n" and "alloc n s = (p, s')" and "p \<noteq> 0"
  shows "unat p + unat n < 4294967296"
proof -
  obtain k where "unat n \<le> k" "live s' = insert (unat p, k) (live s)"
    using alloc_live [OF assms] by blast
  then show ?thesis using live_bound [OF alloc_inv [OF assms(1-3)], of "unat p" k] by simp
qed

lemma alloc_release:
  assumes "inv s" and "fits s n" and "alloc n s = (p, s')" and "p \<noteq> 0"
  shows "live (release p s') = live s" "inv (release p s')"
proof -
  obtain k where k: "live s' = insert (unat p, k) (live s)" "unat p \<notin> fst ` live s"
    using alloc_live [OF assms] by blast
  have i: "inv s'" by (rule alloc_inv [OF assms(1-3)])
  have "live (release (of_nat (unat p)) s') = live s' - {(unat p, k)}"
    using k(1) by (intro release_live [OF i]) simp
  then show "live (release p s') = live s" using k by force
  show "inv (release p s')" using release_inv [OF i, of "unat p" k] k(1) by simp
qed

end

lemma alloc_pointer:
  assumes "heap_ok s' bs'" and "(p, k) \<in> allocs heap_base bs'"
  shows "unat (of_nat p :: u32) = p" "of_nat p \<noteq> (0 :: u32)" "heap_base + 12 \<le> p" "p + k \<le> unat (heap_end s')"
proof -
  show r: "heap_base + 12 \<le> p" "p + k \<le> unat (heap_end s')"
    using allocs_range [OF assms(2)] heap_okD(6) [OF assms(1)] by auto
  then show u: "unat (of_nat p :: u32) = p" using u32_bound [of "heap_end s'"] by (intro u32_of_nat) simp
  show "of_nat p \<noteq> (0 :: u32)" using u r by auto
qed

lemma kmalloc_live:
  fixes s :: "'a kheap_state_scheme"
  assumes inv: "heap_inv s" and fits: "heap_fits s n" and run: "kmalloc n s = (ptr, s')"
  shows "heap_inv s'" "faults s' = faults s"
    "ptr = 0 \<Longrightarrow> heap_live s' = heap_live s"
    "ptr \<noteq> 0 \<Longrightarrow> \<exists>k \<ge> unat n. heap_live s' = insert (unat ptr, k) (heap_live s) \<and> unat ptr \<notin> fst ` heap_live s"
    "(q, j) \<in> heap_live s \<Longrightarrow> q \<le> x \<Longrightarrow> x < q + j \<Longrightarrow> mem s' (of_nat x) = mem s (of_nat x)"
proof -
  obtain bs where bs: "heap_ok s bs" "heap_window s heap_lim" "heap_live s = allocs heap_base bs"
    by (rule heap_inv_blocks [OF inv])
  have f: "n \<noteq> 0" "unat (heap_end s) + unat n + 8192 \<le> heap_lim" using fits by (auto simp: heap_fits_def)
  have n: "unat n \<le> unat (round8 n)" using f by (subst unat_round8) auto
  have "heap_inv s' \<and> faults s' = faults s \<and> (ptr = 0 \<longrightarrow> heap_live s' = heap_live s)
    \<and> (ptr \<noteq> 0 \<longrightarrow> (\<exists>k \<ge> unat n. heap_live s' = insert (unat ptr, k) (heap_live s) \<and> unat ptr \<notin> fst ` heap_live s))
    \<and> payloads_kept (mem s) (mem s') bs"
    using bs(1,2) f run
  proof (cases rule: kmalloc_cases)
    case full
    then show ?thesis using bs(3) heap_live_eq by (auto simp: heap_step_def heap_inv_def)
  next
    case (got p bs')
    obtain k where k: "unat (round8 n) \<le> k" "allocs heap_base bs' = insert (p, k) (allocs heap_base bs)"
      "p \<notin> fst ` allocs heap_base bs"
      by (rule alloc_blocks_effect [OF got(2) heap_okD(1) [OF bs(1)]])
    have ok': "heap_ok s' bs'" using got(3) by (simp add: heap_step_def)
    have "(p, k) \<in> allocs heap_base bs'" using k(2) by simp
    note p = alloc_pointer [OF ok' this]
    have "unat n \<le> k" using n k(1) by simp
    then show ?thesis
      using got(3) k p bs(3) heap_live_eq [OF ok'] by (auto simp: heap_step_def heap_inv_def got(1))
  qed
  then show "heap_inv s'" "faults s' = faults s" "ptr = 0 \<Longrightarrow> heap_live s' = heap_live s"
    "ptr \<noteq> 0 \<Longrightarrow> \<exists>k \<ge> unat n. heap_live s' = insert (unat ptr, k) (heap_live s) \<and> unat ptr \<notin> fst ` heap_live s"
    "(q, j) \<in> heap_live s \<Longrightarrow> q \<le> x \<Longrightarrow> x < q + j \<Longrightarrow> mem s' (of_nat x) = mem s (of_nat x)"
    using bs(3) by (auto simp: payloads_kept_def)
qed

lemma kfree_live:
  fixes s :: "'a kheap_state_scheme"
  assumes inv: "heap_inv s" and p: "(p, n) \<in> heap_live s"
  shows "heap_inv (kfree (of_nat p) s)" "faults (kfree (of_nat p) s) = faults s"
    "heap_live (kfree (of_nat p) s) = heap_live s - {(p, n)}"
    "(q, j) \<in> heap_live s \<Longrightarrow> q \<le> x \<Longrightarrow> x < q + j \<Longrightarrow> mem (kfree (of_nat p) s) (of_nat x) = mem s (of_nat x)"
proof -
  obtain bs where bs: "heap_ok s bs" "heap_window s heap_lim" "heap_live s = allocs heap_base bs"
    by (rule heap_inv_blocks [OF inv])
  note pa = p [unfolded bs(3)]
  let ?bs' = "merge_blocks (release_block heap_base p bs)"
  obtain s' where s': "kfree (of_nat p) s = s'" "heap_ok s' ?bs'"
    "s' = s\<lparr>mem := mem s', total_allocated := total_allocated s - of_nat n\<rparr>"
    "\<And>x. x < 4294967296 \<Longrightarrow> x \<notin> header_bytes heap_base bs \<Longrightarrow> mem s' (of_nat x) = mem s (of_nat x)"
    by (rule kfree_spec [OF bs(1) pa]) (rule that; assumption)
  have out: "mem s' (of_nat x) = mem s (of_nat x)" if "x < 4294967296" "x < heap_base \<or> unat (heap_end s) \<le> x" for x
    using that header_bytes_range [of heap_base bs] heap_okD(6) [OF bs(1)] by (intro s'(4)) auto
  note w = take_window [OF bs(2) s'(3) out]
  show "heap_inv (kfree (of_nat p) s)" "faults (kfree (of_nat p) s) = faults s"
    using s'(1,2) w(1,2) by (auto simp: heap_inv_def)
  obtain xs ys where "bs = xs @ (n, False) # ys" "p = heap_base + span xs + 12" using allocs_split [OF pa] by blast
  from release_effect(1) [OF this] show "heap_live (kfree (of_nat p) s) = heap_live s - {(p, n)}"
    using heap_live_eq [OF s'(2)] bs(3) s'(1) merge_blocks_facts by simp
  show "mem (kfree (of_nat p) s) (of_nat x) = mem s (of_nat x)"
    if "(q, j) \<in> heap_live s" "q \<le> x" "x < q + j" for q j x
    unfolding s'(1)
    using that allocs_range [of q j heap_base bs] allocs_headers [of q j heap_base bs] bs(3)
      heap_okD(6) [OF bs(1)] u32_bound [of "heap_end s"] by (intro s'(4)) auto
qed

interpretation kheap: heap_allocator kmalloc kfree heap_live mem heap_inv heap_fits
proof
  fix s :: "'a kheap_state_scheme" and p q n k
  assume inv: "heap_inv s" and p: "(p, n) \<in> heap_live s"
  obtain bs where bs: "heap_ok s bs" "heap_live s = allocs heap_base bs" by (rule heap_inv_blocks [OF inv])
  show "0 < p \<and> p + n < 4294967296"
    using alloc_pointer [OF bs(1) p [unfolded bs(2)]] u32_bound [of "heap_end s"] by auto
  show "{p..<p + n} \<inter> {q..<q + k} = {}" if "(q, k) \<in> heap_live s" "p \<noteq> q"
    using allocs_disjoint p that by (simp add: bs(2))
qed (erule (2) kmalloc_live(1), erule (2) kmalloc_live(3), rule refl, erule (3) kmalloc_live(4),
    erule (5) kmalloc_live(5), erule (1) kfree_live(1), erule (1) kfree_live(3), erule (4) kfree_live(4))

text \<open>\<^verbatim>\<open>kfree\<close> of an address inside the payload of a block, as with a pointer that \<^verbatim>\<open>kmalloc_aligned\<close>
  has moved: payload bytes are taken for a header, and whatever they are the block stays allocated.\<close>

lemma block_seg_headers:
  assumes "block_seg m e a bs b" and "\<And>x. x \<in> header_bytes a bs \<Longrightarrow> m' (of_nat x) = m (of_nat x)"
  shows "block_seg m' e a bs b"
  using assms
proof (induction m e a bs b rule: block_seg.induct)
  case (2 m e a n f bs b)
  have "m' (of_nat (a + k)) = m (of_nat (a + k))" if "k < 12" for k using "2.prems"(2) [of "a + k"] that by simp
  from hdr_cong [of m' a m, OF this] show ?case using 2 by simp
qed simp

lemma kfree_inside:
  fixes s :: "'a kheap_state_scheme"
  assumes ok: "heap_ok s bs" and q: "(q, k) \<in> allocs heap_base bs" and p: "q + 12 \<le> p" "p \<le> q + k"
  obtains bs' where "block_seg (mem (kfree (of_nat p) s)) (unat (heap_end s)) heap_base bs' (unat (heap_end s))"
    "allocs heap_base bs' = allocs heap_base bs" "heap_end (kfree (of_nat p) s) = heap_end s"
proof -
  note h = heap_okD [OF ok]
  let ?e = "unat (heap_end s)"
  define c where "c = p - 12"
  have pc: "p = c + 12" using p by (simp add: c_def)
  have r: "heap_base + 12 \<le> q" "q + k \<le> ?e" using allocs_range [OF q] h(6) by auto
  have e: "?e < 4294967296" by (rule u32_bound)
  have pw: "of_nat p - 12 = (of_nat c :: u32)" by (simp add: pc)
  have "unat (of_nat p :: u32) = p" using r p e by (intro u32_of_nat) simp
  then have nz: "(of_nat p :: u32) \<noteq> 0" using r p by auto
  show thesis
  proof (cases "hdr_is_free (mem s) (of_nat c) = 0")
    case False
    then have "kfree (of_nat p) s = kprintf ''Heap: Double free detected!\<newline>'' [] s"
      using nz by (simp add: kfree_def pw Let_def)
    moreover have "heap_end (kprintf fmt args s) = heap_end s" for fmt args
      using kheap_vars_kprintf [of fmt args s] by (simp add: kheap_vars_def)
    ultimately show thesis using h(4) by (intro that [of bs]) simp_all
  next
    case True
    let ?m1 = "store32 (mem s) (of_nat c + 4) 1"
    have "?m1 (of_nat x) = mem s (of_nat x)" if "x \<in> header_bytes heap_base bs" for x
    proof -
      have "x \<notin> {q..<q + k}" using allocs_headers [OF q] that by auto
      then have "x \<notin> {c..<c + 12}" using p by (auto simp: pc)
      moreover have "x < 4294967296" using that header_bytes_range [of heap_base bs] h(6) e by auto
      ultimately show ?thesis using r p e by (auto simp: other_byte_simps pc)
    qed
    then have seg1: "block_seg ?m1 ?e heap_base bs ?e" by (rule block_seg_headers [OF h(4)])
    obtain m' where m': "merge_loop ?m1 (link ?e heap_base) = Some m'" "block_seg m' ?e heap_base (merge_blocks bs) ?e"
      using merge_loop_spec [OF seg1 _ e] by (auto simp: merge_result_def)
    have "kfree (of_nat p) s = s\<lparr>mem := m', total_allocated := total_allocated s - hdr_size ?m1 (of_nat c)\<rparr>"
      using nz True m'(1) h(3,7) by (simp add: kfree_def Let_def merge_free_blocks_def set_is_free_def pw)
    then show thesis using m'(2) by (intro that [of "merge_blocks bs"]) (simp_all add: merge_blocks_facts)
  qed
qed

text \<open>The part of a block that \<^verbatim>\<open>kmalloc_aligned\<close> hands out is page-aligned and lies inside the block.\<close>

lemma kmalloc_aligned_spec:
  fixes s :: "'a kheap_state_scheme"
  assumes inv: "heap_inv s" and fits: "heap_fits s (n + 4096)" and n: "unat n + 4096 < 4294967296"
    and run: "kmalloc_aligned n s = (p, s')" and p: "p \<noteq> 0"
  obtains q k where "heap_inv s'" "faults s' = faults s" "page_aligned p" "heap_live s' = insert (q, k) (heap_live s)"
    "q \<notin> fst ` heap_live s" "q \<le> unat p" "unat p + unat n \<le> q + k" "q + k < 4294967296"
proof -
  obtain ptr where k: "kmalloc (n + 4096) s = (ptr, s')" "ptr \<noteq> 0" "p = page_align_up ptr"
    using run p by (auto simp: kmalloc_aligned_def split: prod.splits if_splits)
  note live = kmalloc_live [OF inv fits k(1)]
  obtain b where b: "unat (n + 4096) \<le> b" "heap_live s' = insert (unat ptr, b) (heap_live s)" "unat ptr \<notin> fst ` heap_live s"
    using live(4) k(2) by blast
  have un: "unat (n + 4096) = unat n + 4096" using n by (simp add: u32_add)
  have bound: "unat ptr + b < 4294967296" using kheap.live_bound [OF live(1)] b(2) by blast
  then have "unat p = (unat ptr + 4095) div 4096 * 4096"
    using b(1) un by (simp add: k(3) unat_page_align_up)
  then have "unat ptr \<le> unat p" "unat p \<le> unat ptr + 4095" by linarith+
  moreover have "page_aligned p" unfolding k(3) by (rule page_align_up_aligned)
  ultimately show thesis using live(1,2) b un bound by (intro that [of "unat ptr" b]) simp_all
qed

lemma kmalloc_aligned_zero:
  assumes "heap_inv s" and "heap_fits s (n + 4096)" and "unat n + 4096 < 4294967296" and "kmalloc_aligned n s = (0, s')"
  shows "kmalloc (n + 4096) s = (0, s')"
proof -
  obtain ptr where k: "kmalloc (n + 4096) s = (ptr, s')"
    using assms(4) by (auto simp: kmalloc_aligned_def split: prod.splits if_splits)
  have "ptr = 0"
  proof (rule ccontr)
    assume "ptr \<noteq> 0"
    then obtain b where b: "unat (n + 4096) \<le> b" "heap_live s' = insert (unat ptr, b) (heap_live s)"
      using kmalloc_live(4) [OF assms(1,2) k] by blast
    have "unat ptr + b < 4294967296" "0 < unat ptr"
      using kheap.live_bound [OF kmalloc_live(1) [OF assms(1,2) k]] b(2) by blast+
    then have "unat (page_align_up ptr) = (unat ptr + 4095) div 4096 * 4096"
      using b(1) assms(3) by (intro unat_page_align_up) (simp add: u32_add)
    moreover have "page_align_up ptr = 0" using assms(4) k \<open>ptr \<noteq> 0\<close> by (simp add: kmalloc_aligned_def)
    ultimately show False using \<open>0 < unat ptr\<close> by simp
  qed
  then show ?thesis using k by simp
qed

lemma kmalloc_aligned_null:
  assumes "heap_inv s" and "heap_fits s (n + 4096)" and "unat n + 4096 < 4294967296" and "kmalloc_aligned n s = (0, s')"
  shows "heap_inv s'" "faults s' = faults s" "heap_live s' = heap_live s"
  using kmalloc_live(1-3) [OF assms(1,2) kmalloc_aligned_zero [OF assms]] by auto

text \<open>A null pointer means that the heap is full.\<close>

definition heap_full :: "'a kheap_state_scheme \<Rightarrow> nat \<Rightarrow> bool" where
  "heap_full s n \<longleftrightarrow> (\<forall>bs. heap_ok s bs \<longrightarrow> kmalloc_blocks (unat (heap_max s)) (card (low_frames s)) ((n + 7) div 8 * 8) bs = None)"

lemma kmalloc_full:
  assumes inv: "heap_inv s" and fits: "heap_fits s n" and run: "kmalloc n s = (0, s')"
  shows "heap_full s (unat n)"
  unfolding heap_full_def
proof (intro allI impI)
  fix bs assume ok: "heap_ok s bs"
  have w: "heap_window s heap_lim" using inv by (simp add: heap_inv_def)
  have f: "n \<noteq> 0" "unat (heap_end s) + unat n + 8192 \<le> heap_lim" using fits by (simp_all add: heap_fits_def)
  have r: "unat (round8 n) = (unat n + 7) div 8 * 8" using f by (intro unat_round8) simp
  let ?sz = "(unat n + 7) div 8 * 8"
  have "unat (heap_end s) + grow_size ?sz \<le> heap_lim" using f(2) grow_size_bounds(2) [of ?sz] by linarith
  note e = kmalloc_exact [OF ok w f(1) _ _ run, unfolded r, OF _ disjI1 [OF this]]
  show "kmalloc_blocks (unat (heap_max s)) (card (low_frames s)) ?sz bs = None"
  proof (rule ccontr)
    assume "kmalloc_blocks (unat (heap_max s)) (card (low_frames s)) ?sz bs \<noteq> None"
    then obtain p bs' where c: "kmalloc_blocks (unat (heap_max s)) (card (low_frames s)) ?sz bs = Some (p, bs')" by auto
    have st: "of_nat p = (0 :: u32)" "heap_ok s' bs'" using e c f(2) by (simp_all add: heap_step_def)
    obtain k where "allocs heap_base bs' = insert (p, k) (allocs heap_base bs)"
      by (rule alloc_blocks_effect [OF kmalloc_blocks_alloc(1) [OF c] heap_okD(1) [OF ok]])
    then show False using alloc_pointer(2) [OF st(2), of p k] st(1) by simp
  qed
qed

section \<open>The sample state\<close>

text \<open>A machine whose frames from 4 MB on are free, before and after \<^verbatim>\<open>paging_init\<close> and \<^verbatim>\<open>kheap_init\<close>.\<close>

definition sample_kheap :: kheap_state where
  "sample_kheap = paging_state.extend (sample_paging\<lparr>frame_bitmap := replicate 128 0xFF @ replicate 3970 0,
       total_frames := 32768, used_frames := 1024\<rparr>)
     \<lparr>heap_start = 0, heap_end = 0, heap_max = 0, first_block = 0, total_allocated = 0\<rparr>"

definition sample_heap :: kheap_state where
  "sample_heap = kheap_init (paging_init sample_kheap)"

lemma sample_kheap_fields [simp]:
  "mem sample_kheap = sample_memory" "frame_bitmap sample_kheap = replicate 128 0xFF @ replicate 3970 0"
  "total_frames sample_kheap = 32768" "page_directory sample_kheap = 0xC0115000"
  "page_tables_sym (sym sample_kheap) = 0xC0116000" "faults sample_kheap = []" "term_inv sample_kheap"
  "total_allocated sample_kheap = 0"
  using sample_paging_fields by (simp_all add: sample_kheap_def paging_state.defs term_inv_def)

lemma sample_kheap_free: "frame_free sample_kheap f \<longleftrightarrow> 1024 \<le> f \<and> f < 32784"
proof -
  have "bit (255 :: u8) (f mod 8)"
  proof -
    have "(255 :: u8) = mask 8" by (simp add: mask_eq_exp_minus_1)
    then show ?thesis by (simp only: bit_mask_iff) simp
  qed
  moreover have "f div 8 < 4098 \<longleftrightarrow> f < 32784" "f div 8 < 128 \<longleftrightarrow> f < 1024"
    using div_less_iff_less_mult [of 8 f 4098] div_less_iff_less_mult [of 8 f 128] by simp_all
  ultimately show ?thesis by (auto simp: frame_free_def nth_append)
qed

lemma sample_kheap_reserved:
  "VIRT_TO_PHYS a \<notin> avail_frames sample_kheap" if "0xC0000000 \<le> a" "a < HEAP_START_ADDR"
proof -
  have "unat (VIRT_TO_PHYS a) < 4194304"
    using that by (simp add: VIRT_TO_PHYS_def u32_order u32_sub)
  then have "unat (VIRT_TO_PHYS a) div 4096 < 1024" by (simp add: div_less_iff_less_mult)
  then show ?thesis by (simp add: avail_frames_iff sample_kheap_free)
qed

lemma sample_kheap_frames: "card (low_frames sample_kheap) = 31744"
proof -
  have "low_frames sample_kheap = {1024..<32768}"
    by (auto simp: low_frames_def sample_kheap_free scan_limit_def)
  then show ?thesis by simp
qed

lemma sample_kheap_boot:
  "tables_placed sample_kheap" "pmm_inv sample_kheap" "tables_reserved sample_kheap" "image_low sample_kheap"
  "256 \<le> card (low_frames sample_kheap)"
proof -
  have four: "t \<in> {0, 1, 2, 3}" if "t < 4" for t :: nat using that by auto
  have tab: "table_page 0xC0116000 t < HEAP_START_ADDR \<and> 0xC0000000 \<le> table_page 0xC0116000 t
      \<and> table_page 0xC0116000 t \<noteq> 0xC0115000" if "t < 4" for t
    using four [OF that] by (auto simp: table_page_def)
  show "tables_placed sample_kheap" using tab by (simp add: tables_placed_def)
  show "pmm_inv sample_kheap" by (simp add: pmm_inv_def sample_kheap_free)
  show "tables_reserved sample_kheap" using tab sample_kheap_reserved by (simp add: tables_reserved_def)
  show "image_low sample_kheap" using tab by (simp add: image_low_def)
  show "256 \<le> card (low_frames sample_kheap)" by (simp add: sample_kheap_frames)
qed

lemma paging_init_kheap:
  "kheap_vars (paging_init s) = kheap_vars s" "low_frames (paging_init s) = low_frames s"
  "avail_frames (paging_init s) = avail_frames s"
proof -
  have u: "kheap_vars (t\<lparr>current_page_directory := d\<rparr>) = kheap_vars t" "kheap_vars (t\<lparr>cpu := c\<rparr>) = kheap_vars t"
    for t :: "'a kheap_state_scheme" and d c by (simp_all add: kheap_vars_def)
  show "kheap_vars (paging_init s) = kheap_vars s" by (simp add: paging_init_def Let_def paging_load_directory_def u)
  show "low_frames (paging_init s) = low_frames s" "avail_frames (paging_init s) = avail_frames s"
    by (simp_all add: low_frames_def frame_free_def scan_limit_def avail_frames_def free_frames_def paging_init_fields)
qed

lemma sample_heap_ok: "heap_ok sample_heap [(1048564, True)]" "heap_window sample_heap heap_lim" "faults sample_heap = []"
  "card (low_frames sample_heap) = 31488" "heap_max sample_heap = 0xC1400000"
proof -
  note b = sample_kheap_boot
  have "256 \<le> card (low_frames (paging_init sample_kheap))" "total_allocated (paging_init sample_kheap) = 0"
    using b(5) paging_init_kheap(1) [of sample_kheap] by (simp_all add: paging_init_kheap(2) kheap_vars_def)
  note i = kheap_init_spec [OF paging_init_window [OF b(1-4)] this, folded sample_heap_def]
  show "heap_ok sample_heap [(1048564, True)]" "heap_window sample_heap heap_lim" "faults sample_heap = []"
    using i paging_init_console(2) [of sample_kheap] by auto
  have "card (low_frames sample_heap) + 256 = 31744"
    using i sample_kheap_frames by (metis paging_init_kheap(2))
  then show "card (low_frames sample_heap) = 31488" by simp
  show "heap_max sample_heap = 0xC1400000" by (rule i) simp
qed

lemma sample_heap_inv: "heap_inv sample_heap" "heap_live sample_heap = {}" "heap_end sample_heap = 0xC0500000"
  using sample_heap_ok heap_live_eq [OF sample_heap_ok(1)] heap_okD(6) [OF sample_heap_ok(1)]
  by (auto simp: heap_inv_def u32_eq_iff)

section \<open>Properties\<close>

lemma kmalloc_refines:
  fixes s :: "'a kheap_state_scheme"
  assumes ok: "heap_ok s bs" and "heap_window s lim" and "req \<noteq> 0"
    and room: "unat (heap_end s) + unat req + 8192 \<le> lim" and "kmalloc req s = (ptr, s')"
  shows "(if ptr = 0 then first_fit heap_base ((unat req + 7) div 8 * 8) bs = None \<and> heap_step s bs s' bs lim
      else \<exists>bs'. alloc_blocks ((unat req + 7) div 8 * 8) bs (unat ptr) bs' \<and> heap_step s bs s' bs' lim)"
proof -
  have "lim < 4294967296" using assms(2) u32_bound [of "heap_max s"] by (auto simp: heap_window_def)
  then have n: "unat (round8 req) = (unat req + 7) div 8 * 8" using room by (intro unat_round8) simp
  from assms show ?thesis
  proof (cases rule: kmalloc_cases)
    case full
    then show ?thesis by (simp add: n)
  next
    case (got p bs')
    obtain k where k: "allocs heap_base bs' = insert (p, k) (allocs heap_base bs)"
      by (rule alloc_blocks_effect [OF got(2) heap_okD(1) [OF ok]])
    have "heap_ok s' bs'" using got(3) by (simp add: heap_step_def)
    note p = alloc_pointer [OF this, of p k]
    then show ?thesis using got k by (auto simp: n)
  qed
qed

text \<open>
  C2. \<^verbatim>\<open>kmalloc\<close> refines first-fit allocation on the list of blocks, with the size rounded up to a
  multiple of 8: it takes the first free block that is large enough and splits it when the
  rest can hold a header and 32 bytes. When no block fits it grows the heap by the least number of whole
  pages that hold the block and a header, and allocates there. It returns null exactly when no block
  fits and the grown heap would exceed \<^verbatim>\<open>heap_max\<close> or there are fewer free frames than pages; the blocks are
  unchanged then. In every case memory represents the resulting list, the counter is the number
  of bytes allocated, the payloads of the allocated blocks keep their bytes, and there is no fault.
  The heap either has its page tables up to the new end, which is where \<open>lim\<close> comes in, or must not grow.
\<close>

theorem kmalloc_refines_first_fit:
  assumes "heap_ok s bs" and "heap_window s lim" and "req \<noteq> 0" and "kmalloc req s = (ptr, s')"
    and "unat (heap_end s) + unat req + 8192 \<le> 4294967296"
    and "unat (heap_end s) + grow_size ((unat req + 7) div 8 * 8) \<le> lim
      \<or> unat (heap_max s) < unat (heap_end s) + grow_size ((unat req + 7) div 8 * 8)"
  shows "\<exists>bs'. (case kmalloc_blocks (unat (heap_max s)) (card (low_frames s)) ((unat req + 7) div 8 * 8) bs of
        None \<Rightarrow> ptr = 0 \<and> bs' = bs
      | Some (p, bs'') \<Rightarrow> ptr \<noteq> 0 \<and> unat ptr = p \<and> bs' = bs'')
    \<and> heap_ok s' bs' \<and> kheap_get_used s' = of_nat (used_bytes bs') \<and> payloads_kept (mem s) (mem s') bs
    \<and> heap_window s' lim \<and> faults s' = faults s"
proof -
  have n: "unat (round8 req) = (unat req + 7) div 8 * 8" using assms(5) by (intro unat_round8) simp
  note e = kmalloc_exact [OF assms(1-3,5) _ assms(4), unfolded n, OF assms(6)]
  show ?thesis
  proof (cases "kmalloc_blocks (unat (heap_max s)) (card (low_frames s)) ((unat req + 7) div 8 * 8) bs")
    case None
    then show ?thesis using e heap_okD(5) [of s'] by (auto simp: heap_step_def kheap_get_used_def)
  next
    case (Some r)
    obtain p bs' where r: "r = (p, bs')" by fastforce
    have st: "ptr = of_nat p" "heap_step s bs s' bs' lim" using e Some r by simp_all
    then have ok': "heap_ok s' bs'" by (simp add: heap_step_def)
    obtain k where "allocs heap_base bs' = insert (p, k) (allocs heap_base bs)"
      by (rule alloc_blocks_effect [OF kmalloc_blocks_alloc(1) [OF Some [unfolded r]] heap_okD(1) [OF assms(1)]])
    then have "(p, k) \<in> allocs heap_base bs'" by simp
    note q = alloc_pointer [OF ok' this]
    then show ?thesis using st Some r heap_okD(5) [OF ok'] by (auto simp: heap_step_def kheap_get_used_def)
  qed
qed

text \<open>The witness: a block that fits, and one of 2 MB for which the heap of one megabyte grows.\<close>

theorem kmalloc_refines_first_fit_witness:
  "heap_ok sample_heap [(1048564, True)] \<and> heap_window sample_heap heap_lim
   \<and> fst (kmalloc 100 sample_heap) = 0xC040000C
   \<and> heap_ok (snd (kmalloc 100 sample_heap)) [(104, False), (1048448, True)]
   \<and> fst (kmalloc 0x200000 sample_heap) = 0xC040000C
   \<and> heap_ok (snd (kmalloc 0x200000 sample_heap)) [(2097152, False), (1052648, True)]"
proof -
  have e: "heap_end sample_heap = 0xC0500000" by (rule sample_heap_inv)
  note r = kmalloc_refines_first_fit [OF sample_heap_ok(1,2) _ prod.collapse [symmetric]]
  have g: "grow_size 104 = 4096" "grow_size 2097152 = 2101248" by (simp_all add: grow_size_def)
  have fit: "kmalloc_blocks m k 104 [(1048564, True)] = Some (3225419788, [(104, False), (1048448, True)])" for m k
    by (simp add: kmalloc_blocks_def split_free_def)
  have fit2: "kmalloc_blocks (unat (heap_max sample_heap)) (card (low_frames sample_heap)) 2097152 [(1048564, True)]
      = Some (3225419788, [(2097152, False), (1052648, True)])"
    by (simp add: kmalloc_blocks_def split_free_def g sample_heap_ok(4,5) extend_blocks_def)
  have "unat (fst (kmalloc 100 sample_heap)) = 3225419788 \<and> heap_ok (snd (kmalloc 100 sample_heap)) [(104, False), (1048448, True)]"
    using r [of 100] fit by (auto simp: e g)
  moreover have "unat (fst (kmalloc 0x200000 sample_heap)) = 3225419788
      \<and> heap_ok (snd (kmalloc 0x200000 sample_heap)) [(2097152, False), (1052648, True)]"
    using r [of "0x200000"] fit2 by (auto simp: e g)
  ultimately show ?thesis using sample_heap_ok by (simp add: u32_eq_iff)
qed

text \<open>
  C16. A block returned by \<^verbatim>\<open>kmalloc\<close> is as large as requested, does not wrap around the address space
  and overlaps no block that is still allocated; the contents of those are unchanged; and
  giving the block back makes the set of allocated blocks what it was before.
\<close>

theorem kmalloc_fresh_block:
  assumes "heap_inv s" and "heap_fits s n" and "kmalloc n s = (ptr, s')" and "ptr \<noteq> 0"
  shows "unat ptr + unat n < 4294967296
    \<and> (\<forall>q j. (q, j) \<in> heap_live s \<longrightarrow> {unat ptr..<unat ptr + unat n} \<inter> {q..<q + j} = {}
         \<and> (\<forall>x. q \<le> x \<longrightarrow> x < q + j \<longrightarrow> mem s' (of_nat x) = mem s (of_nat x)))
    \<and> heap_inv s' \<and> heap_live (kfree ptr s') = heap_live s \<and> heap_inv (kfree ptr s')"
  using kheap.alloc_room [OF assms] kheap.alloc_fresh [OF assms] kheap.alloc_bytes [OF assms(1-3)]
    kheap.alloc_inv [OF assms(1-3)] kheap.alloc_release [OF assms] by blast

theorem kmalloc_fresh_block_witness:
  "heap_inv sample_heap \<and> heap_fits sample_heap 100 \<and> fst (kmalloc 100 sample_heap) \<noteq> 0
   \<and> heap_live (kfree (fst (kmalloc 100 sample_heap)) (snd (kmalloc 100 sample_heap))) = {}"
proof -
  have f: "heap_fits sample_heap 100" by (simp add: heap_fits_def sample_heap_inv)
  have "fst (kmalloc 100 sample_heap) \<noteq> 0"
    using kmalloc_refines [OF sample_heap_ok(1,2) _ _ prod.collapse [symmetric], of 100] sample_heap_inv(3)
    by (auto split: if_splits)
  from kmalloc_fresh_block [OF sample_heap_inv(1) f prod.collapse [symmetric] this] this f
  show ?thesis using sample_heap_inv by simp
qed

text \<open>
  C17. \<^verbatim>\<open>kfree\<close> of an allocated block marks it free and merges all neighbouring free blocks: no two
  adjacent blocks are free afterwards, exactly that block stops being allocated, the counter
  goes down by its size, and no byte outside the headers changes.
\<close>

theorem kfree_releases_and_merges:
  assumes ok: "heap_ok s bs" and p: "(p, n) \<in> allocs heap_base bs"
  shows "let bs' = merge_blocks (release_block heap_base p bs); s' = kfree (of_nat p) s in
    heap_ok s' bs' \<and> no_adjacent_free bs' \<and> allocs heap_base bs' = allocs heap_base bs - {(p, n)}
    \<and> kheap_get_used s' = of_nat (used_bytes bs - n) \<and> faults s' = faults s
    \<and> (\<forall>x < 4294967296. x \<notin> header_bytes heap_base bs \<longrightarrow> mem s' (of_nat x) = mem s (of_nat x))"
proof -
  let ?bs' = "merge_blocks (release_block heap_base p bs)"
  obtain s' where s': "kfree (of_nat p) s = s'" "heap_ok s' ?bs'"
    "s' = s\<lparr>mem := mem s', total_allocated := total_allocated s - of_nat n\<rparr>"
    "\<And>x. x < 4294967296 \<Longrightarrow> x \<notin> header_bytes heap_base bs \<Longrightarrow> mem s' (of_nat x) = mem s (of_nat x)"
    by (rule kfree_spec [OF ok p]) (rule that; assumption)
  obtain xs ys where "bs = xs @ (n, False) # ys" "p = heap_base + span xs + 12" using allocs_split [OF p] by blast
  note eff = release_effect(1,2) [OF this]
  have "used_bytes ?bs' = used_bytes bs - n" using eff(2) merge_blocks_facts by simp
  then have "kheap_get_used s' = of_nat (used_bytes bs - n)"
    using heap_okD(5) [OF s'(2)] by (simp add: kheap_get_used_def)
  moreover have "faults s' = faults s" by (subst s'(3)) simp
  ultimately show ?thesis
    using s'(1,2,4) merge_blocks_facts eff(1) merge_blocks_separate by (simp add: Let_def)
qed

lemma sample_two:
  obtains s' :: kheap_state where "heap_ok s' [(104, False), (8, False), (1048428, True)]" "heap_window s' heap_lim"
    "heap_end s' = 0xC0500000"
proof -
  have e: "first_fit heap_base (unat (104 :: u32)) [(1048564, True)] = Some (3225419788, [(104, False), (1048448, True)])"
    by (simp add: split_free_def)
  have e2: "first_fit heap_base (unat (8 :: u32)) [(104, False), (1048448, True)]
      = Some (3225419904, [(104, False), (8, False), (1048428, True)])"
    by (simp add: split_free_def)
  obtain s1 where s1: "take_block (of_nat (3225419788 - 12)) 104 sample_heap = (of_nat 3225419788, s1)" "heap_ok s1 [(104, False), (1048448, True)]"
    by (rule take_first_fit [OF sample_heap_ok(1) e])
  note t1 = take_step(2,3) [OF sample_heap_ok(1,2) e s1(1)]
  obtain s2 where s2: "take_block (of_nat (3225419904 - 12)) 8 s1 = (of_nat 3225419904, s2)"
    by (rule take_first_fit [OF s1(2) e2])
  have "heap_window s1 heap_lim" using t1 by (simp add: heap_step_def)
  note take_step(2,3) [OF s1(2) this e2 s2]
  then show thesis using t1(2) sample_heap_inv(3) by (intro that [of s2]) (auto simp: heap_step_def)
qed

theorem kfree_releases_and_merges_witness:
  "\<exists>s :: kheap_state. heap_ok s [(104, False), (8, False), (1048428, True)]
     \<and> heap_ok (kfree 0xC0400080 s) [(104, False), (1048448, True)]"
proof -
  obtain s :: kheap_state where s: "heap_ok s [(104, False), (8, False), (1048428, True)]" by (rule sample_two)
  have "(3225419904, 8) \<in> allocs heap_base [(104, False), (8, False), (1048428, True)]" by simp
  from kfree_releases_and_merges [OF s this] s show ?thesis by (auto simp: Let_def)
qed

text \<open>
  A second free of a block is detected: for every free block of the heap, \<^verbatim>\<open>kfree\<close> prints its
  message and does nothing else. The null pointer is ignored.
\<close>

lemma kfree_double_free:
  assumes ok: "heap_ok s (xs @ (m, True) # ys)"
  shows "kfree (of_nat (heap_base + span xs + 12)) s = kprintf ''Heap: Double free detected!\<newline>'' [] s
    \<and> kfree 0 s = s"
proof -
  have seg: "block_seg (mem s) (unat (heap_end s)) heap_base (xs @ (m, True) # ys) (unat (heap_end s))"
    using heap_okD(4) [OF ok] by simp
  have "of_nat (heap_base + span xs + 12) \<noteq> (0 :: u32)"
    using heap_okD(6) [OF ok] u32_bound [of "heap_end s"] u32_of_nat [of "heap_base + span xs + 12"] by force
  then show ?thesis using block_at(2) [OF seg] by (simp add: kfree_def Let_def)
qed

lemma kfree_double_free_example:
  "heap_ok sample_heap [(1048564, True)]
   \<and> kfree 0xC040000C sample_heap = kprintf ''Heap: Double free detected!\<newline>'' [] sample_heap"
  using sample_heap_ok(1) kfree_double_free [of sample_heap "[]" 1048564 "[]"] by simp

text \<open>
  C32. Freeing the block just allocated gives the list of blocks back, split blocks rejoined, when
  the heap had no adjacent free blocks and did not have to grow.
\<close>

theorem kmalloc_kfree_roundtrip:
  assumes ok: "heap_ok s bs" and sep: "no_adjacent_free bs" and "req \<noteq> 0"
    and fit: "first_fit heap_base (unat (round8 req)) bs \<noteq> None" and "kmalloc req s = (ptr, s')"
  shows "heap_ok (kfree ptr s') bs"
proof -
  obtain p bs' where ff: "first_fit heap_base (unat (round8 req)) bs = Some (p, bs')" using fit by auto
  obtain t where t: "kmalloc req s = (of_nat p, t)" "take_block (of_nat (p - 12)) (round8 req) s = (of_nat p, t)"
    by (rule kmalloc_hit [OF ok ff assms(3)])
  obtain k t' where k: "take_block (of_nat (p - 12)) (round8 req) s = (of_nat p, t')" "heap_ok t' bs'"
    "allocs heap_base bs' = insert (p, k) (allocs heap_base bs)"
    by (rule take_first_fit [OF ok ff])
  obtain xs n ys where bs: "bs = xs @ (n, True) # ys" "p = heap_base + span xs + 12"
    "bs' = xs @ split_free (unat (round8 req)) n @ ys"
    using first_fit_Some [OF ff] by blast
  have "(p, k) \<in> allocs heap_base bs'" using k(3) by simp
  then have "heap_ok (kfree (of_nat p) t') (merge_blocks (release_block heap_base p bs'))"
    using kfree_spec [OF k(2)] by metis
  moreover have "merge_blocks (release_block heap_base p bs') = bs"
  proof (cases "unat (round8 req) + 44 \<le> n")
    case True
    then have "n = unat (round8 req) + (12 + (n - unat (round8 req) - 12))" by simp
    then show ?thesis
      using merge_blocks_rejoin [of xs "unat (round8 req)" "n - unat (round8 req) - 12" ys] sep True bs
        release_block_at [of heap_base xs "unat (round8 req)" False "(n - unat (round8 req) - 12, True) # ys"]
      by (simp add: split_free_def)
  next
    case False
    then show ?thesis using merge_blocks_id [OF sep] bs release_block_at [of heap_base xs n False ys]
      by (simp add: split_free_def)
  qed
  ultimately show ?thesis using t k(1) assms(5) by simp
qed

theorem kmalloc_kfree_roundtrip_witness:
  "heap_ok sample_heap [(1048564, True)]
   \<and> heap_ok (kfree (fst (kmalloc 100 sample_heap)) (snd (kmalloc 100 sample_heap))) [(1048564, True)]"
proof -
  have "unat (round8 100) = 104" by (subst unat_round8) simp_all
  then have "first_fit heap_base (unat (round8 100)) [(1048564, True)] \<noteq> None" by simp
  from kmalloc_kfree_roundtrip [OF sample_heap_ok(1) _ _ this prod.collapse [symmetric]] sample_heap_ok(1)
  show ?thesis by simp
qed

text \<open>
  Starting the heap after paging, with 256 frames the allocator can reach, succeeds: the heap is
  one free block over the first megabyte from 0xC0400000, every one of its 256 pages is mapped
  to a frame of its own, exactly those frames are taken, and there is no fault.
\<close>

lemma kheap_init_one_free_block:
  fixes s :: "'a kheap_state_scheme"
  assumes "tables_placed s" and "pmm_inv s" and "tables_reserved s" and "image_low s"
    and "256 \<le> card (low_frames s)" and "total_allocated s = 0"
  shows "let s' = kheap_init (paging_init s) in
    heap_ok s' [(1048564, True)] \<and> heap_window s' heap_lim \<and> faults s' = faults s \<and> kheap_get_free s' = 1048576
    \<and> (\<exists>fs. length fs = 256 \<and> distinct fs \<and> set fs \<subseteq> avail_frames s \<and> avail_frames s' = avail_frames s - set fs
        \<and> (\<forall>va. 0xC0400000 \<le> va \<longrightarrow> va < 0xC0500000 \<longrightarrow>
              translate s' va = Some (fs ! (page_no va - 787456) OR (va AND 0xFFF))))"
proof -
  let ?s' = "kheap_init (paging_init s)"
  have "256 \<le> card (low_frames (paging_init s))" "total_allocated (paging_init s) = 0"
    using assms(5,6) paging_init_kheap(1) [of s] by (simp_all add: paging_init_kheap(2) kheap_vars_def)
  then obtain fs where fs: "heap_ok ?s' [(1048564, True)]" "heap_window ?s' heap_lim" "faults ?s' = faults (paging_init s)"
    "length fs = 256" "distinct fs" "set fs \<subseteq> avail_frames (paging_init s)"
    "avail_frames ?s' = avail_frames (paging_init s) - set fs"
    "\<And>va. 0xC0400000 \<le> va \<Longrightarrow> va < 0xC0500000 \<Longrightarrow> translate ?s' va = Some (fs ! (page_no va - 787456) OR (va AND 0xFFF))"
    by (rule kheap_init_spec [OF paging_init_window [OF assms(1-4)]]) (rule that; assumption)
  have "heap_end ?s' = 0xC0500000" using heap_okD(6) [OF fs(1)] by (simp add: u32_eq_iff)
  then have "kheap_get_free ?s' = 1048576"
    using heap_okD(2,5) [OF fs(1)] by (simp add: kheap_get_free_def)
  moreover have "faults (paging_init s) = faults s"
    using assms(2) by (intro paging_init_console(2)) (simp add: pmm_inv_def)
  ultimately show ?thesis using fs by (auto simp: Let_def paging_init_kheap(3))
qed

lemma kheap_init_one_free_block_example:
  "tables_placed sample_kheap \<and> pmm_inv sample_kheap \<and> 256 \<le> card (low_frames sample_kheap)
   \<and> heap_ok sample_heap [(1048564, True)] \<and> kheap_get_free sample_heap = 1048576"
  using kheap_init_one_free_block [OF sample_kheap_boot, folded sample_heap_def] sample_kheap_boot
  by (simp add: Let_def)

text \<open>
  C35. The pointer walks of the heap end: on a heap that represents a list of blocks the search for a
  free block of any size, the walk to the last block and the merging of free blocks all
  return, the search with a free block that is large enough or with null.
\<close>

theorem kheap_walks_terminate:
  assumes ok: "heap_ok s bs"
  shows "(\<exists>b. find_free_block w s = Some b) \<and> (\<exists>b. last_block (mem s) (first_block s) = Some b)
    \<and> (\<exists>m. merge_loop (mem s) (first_block s) = Some m)
    \<and> (\<forall>b. find_free_block w s = Some b \<longrightarrow> b \<noteq> 0 \<longrightarrow> hdr_is_free (mem s) b = 1 \<and> w \<le> hdr_size (mem s) b)"
proof -
  note h = heap_okD [OF ok]
  have "merge_result (mem s) (unat (heap_end s)) heap_base bs (first_block s) (merge_blocks bs)"
    using merge_loop_spec [OF h(4) _ u32_bound] h(3,7) by simp
  moreover have "\<exists>b. last_block (mem s) (first_block s) = Some b"
    using last_block_eq [OF h(4,1) _ u32_bound] h(3) by simp
  moreover have "hdr_is_free (mem s) b = 1 \<and> w \<le> hdr_size (mem s) b"
    if b: "find_free_block w s = Some b" "b \<noteq> 0" for b
  proof -
    obtain p bs' where ff: "first_fit heap_base (unat w) bs = Some (p, bs')" "b = of_nat (p - 12)"
      using b find_free_block_eq [OF ok, of w] by (auto split: option.splits)
    obtain xs n ys where bs: "bs = xs @ (n, True) # ys" "unat w \<le> n" "p = heap_base + span xs + 12"
      using first_fit_Some [OF ff(1)] by blast
    note at = block_at [OF h(4) [unfolded bs(1)]]
    have "unat (of_nat n :: u32) = n" using at(4) u32_bound [of "heap_end s"] by (intro u32_of_nat) simp
    then show ?thesis using at(1,2) bs ff(2) by (simp add: word_le_nat_alt)
  qed
  ultimately show ?thesis using find_free_block_eq [OF ok] by (auto simp: merge_result_def)
qed

theorem kheap_walks_terminate_witness:
  "heap_ok sample_heap [(1048564, True)] \<and> (\<exists>b. find_free_block 64 sample_heap = Some b)
   \<and> (\<exists>m. merge_loop (mem sample_heap) (first_block sample_heap) = Some m)"
  using sample_heap_ok(1) kheap_walks_terminate [OF sample_heap_ok(1)] by blast

text \<open>
  The rounding of the size wraps around: a request of 0xFFFFFFF9 bytes or more is rounded to 0, so
  as long as any block is free \<^verbatim>\<open>kmalloc\<close> does not fail but returns a block that is smaller than
  requested.
\<close>

lemma kmalloc_wraps_huge_request:
  assumes ok: "heap_ok s bs" and req: "0xFFFFFFF9 \<le> req" and free: "first_fit heap_base 0 bs \<noteq> None"
  shows "fst (kmalloc req s) \<noteq> 0
    \<and> (\<exists>k. (unat (fst (kmalloc req s)), k) \<in> heap_live (snd (kmalloc req s)) \<and> k < unat req)"
proof -
  have "unat (req + 7) < 8"
  proof -
    have "req + 7 = req - 0xFFFFFFF9" by simp
    then have "unat (req + 7) = unat req - 4294967289" using req by (simp add: u32_sub u32_order)
    then show ?thesis using u32_bound [of req] by simp
  qed
  have "round8 req = 0"
  proof -
    have "(req + 7) div 8 = 0" using \<open>unat (req + 7) < 8\<close> by (simp add: word_less_nat_alt div_word_less)
    moreover have "NOT 7 = NOT (mask 3 :: u32)" by (simp add: mask_eq_exp_minus_1)
    moreover have "x AND NOT (mask 3) = push_bit 3 (drop_bit 3 x)" for x :: u32
      by (rule bit_word_eqI) (auto simp: bit_simps)
    ultimately show ?thesis by (simp only: round8_def) (simp add: drop_bit_eq_div)
  qed
  then have z: "unat (round8 req) = 0" by simp
  obtain p bs' where ff: "first_fit heap_base (unat (round8 req)) bs = Some (p, bs')" using free z by auto
  have "req \<noteq> 0" using req by auto
  obtain t where t: "kmalloc req s = (of_nat p, t)" "take_block (of_nat (p - 12)) (round8 req) s = (of_nat p, t)"
    by (rule kmalloc_hit [OF ok ff \<open>req \<noteq> 0\<close>])
  obtain k t' where k: "take_block (of_nat (p - 12)) (round8 req) s = (of_nat p, t')" "heap_ok t' bs'"
    "allocs heap_base bs' = insert (p, k) (allocs heap_base bs)"
    by (rule take_first_fit [OF ok ff])
  have pk: "(p, k) \<in> allocs heap_base bs'" using k(3) by simp
  have "k < unat req"
    using alloc_pointer(3,4) [OF k(2) pk] u32_bound [of "heap_end t'"] req by (simp add: u32_order)
  then show ?thesis using t k(1) heap_live_eq [OF k(2)] pk alloc_pointer(1,2) [OF k(2) pk] by auto
qed

lemma kmalloc_wraps_huge_request_example:
  "heap_ok sample_heap [(1048564, True)] \<and> fst (kmalloc 0xFFFFFFFF sample_heap) \<noteq> 0"
proof -
  have "first_fit heap_base 0 [(1048564, True)] \<noteq> None" by simp
  from kmalloc_wraps_huge_request [OF sample_heap_ok(1) _ this, of "0xFFFFFFFF"] show ?thesis
    using sample_heap_ok(1) by simp
qed

end
