(* ===== verification/Memory_Frame.thy ===== *)
theory Memory_Frame
  imports Kheap
begin

text \<open>
  What the memory managers and the console leave alone, without any assumption on the state:
  \<open>mm_erase\<close> forgets the parts of the state that \<^verbatim>\<open>pmm.c\<close>, \<^verbatim>\<open>paging.c\<close>, \<^verbatim>\<open>kheap.c\<close> and the console
  may change. An operation that keeps \<open>mm_erase\<close> keeps every other part, in particular the
  variables of the components above the heap.
\<close>

definition mm_erase :: "'a kheap_state_scheme \<Rightarrow> 'a kheap_state_scheme" where
  "mm_erase s = (pmm_erase s)\<lparr>mem := (\<lambda>_. 0), heap_start := 0, heap_end := 0, heap_max := 0,
     first_block := 0, total_allocated := 0\<rparr>"

lemmas mm_erase_defs = mm_erase_def pmm_erase_def console_erase_def

lemma mm_erase_pmm: "pmm_erase s' = pmm_erase s \<Longrightarrow> mm_erase s' = mm_erase s"
  by (simp add: mm_erase_def)

lemma mm_erase_upd [simp]:
  "mm_erase (s\<lparr>mem := m\<rparr>) = mm_erase s" "mm_erase (s\<lparr>heap_start := v\<rparr>) = mm_erase s"
  "mm_erase (s\<lparr>heap_end := v\<rparr>) = mm_erase s" "mm_erase (s\<lparr>heap_max := v\<rparr>) = mm_erase s"
  "mm_erase (s\<lparr>first_block := v\<rparr>) = mm_erase s" "mm_erase (s\<lparr>total_allocated := v\<rparr>) = mm_erase s"
  "mm_erase (add_fault f s) = mm_erase s" "mm_erase (hw_emit e s) = mm_erase s"
  by (simp_all add: mm_erase_defs add_fault_def hw_emit_def)

lemma mm_erase_kprintf [simp]: "mm_erase (kprintf fmt args s) = mm_erase s"
  by (rule mm_erase_pmm) simp

text \<open>A field that \<open>mm_erase\<close> does not forget is the same in two states with the same erasure.\<close>

lemma mm_erase_field:
  assumes "mm_erase s' = mm_erase s" and "\<And>t. f (mm_erase t) = f t"
  shows "f s' = f s"
  using arg_cong [OF assms(1), of f] assms(2) by simp

section \<open>Frames and pages\<close>

lemma pmm_erase_alloc: "pmm_erase (snd (pmm_alloc_frame s)) = pmm_erase s"
  by (simp add: pmm_alloc_frame_def Let_def split: scan_result.split)

lemma pmm_erase_free: "pmm_erase (pmm_free_frame a s) = pmm_erase s"
  by (auto simp: pmm_free_frame_def Let_def dest: pmm_erase_bitmap(3) split: prod.split)

lemma mm_erase_alloc [simp]: "mm_erase (snd (pmm_alloc_frame s)) = mm_erase s"
  by (rule mm_erase_pmm [OF pmm_erase_alloc])

lemma mm_erase_free [simp]: "mm_erase (pmm_free_frame a s) = mm_erase s"
  by (rule mm_erase_pmm [OF pmm_erase_free])

lemma mm_erase_set_entry [simp]: "mm_erase (paging_set_entry va pa flags s) = mm_erase s"
  by (cases "window_fault s (pde s (pd_index va) AND 0xFFFFF000)") (simp_all add: set_entry_eq set_entry_hidden)

lemma mm_erase_map_page [simp]: "mm_erase (paging_map_page va pa flags s) = mm_erase s"
  by (simp add: paging_map_page_def Let_def split_beta split: option.split)

lemma mm_erase_unmap_page [simp]: "mm_erase (paging_unmap_page va s) = mm_erase s"
  by (simp add: paging_unmap_page_def Let_def paging_flush_tlb_def)

lemma mm_erase_create_directory [simp]: "mm_erase (snd (paging_create_directory s)) = mm_erase s"
proof -
  have copy: "mm_erase (copy_kernel_entries d t) = mm_erase t" for d and t :: "'a kheap_state_scheme"
    unfolding copy_kernel_entries_def
    by (rule fold_invariant [where P = "\<lambda>u. mm_erase u = mm_erase t" and Q = "\<lambda>_. True"])
      (simp_all del: upt_rec_numeral)
  show ?thesis
    by (simp add: paging_create_directory_def Let_def copy split_beta split: option.split)
qed

lemma mm_erase_map_fresh:
  "mm_erase (snd (map_fresh pmm_alloc_frame paging_map_page fl n va s)) = mm_erase s"
proof (induction n arbitrary: va s)
  case (Suc n)
  then show ?case by (simp add: split_beta)
qed simp

section \<open>The heap\<close>

lemma mm_erase_headers [simp]:
  "mm_erase (set_size b v s) = mm_erase s" "mm_erase (set_is_free b v s) = mm_erase s"
  "mm_erase (set_next b v s) = mm_erase s"
  by (simp_all add: set_size_def set_is_free_def set_next_def)

lemma mm_erase_expand_write [simp]: "mm_erase (expand_write b x s) = mm_erase s"
  by (simp add: expand_write_def Let_def)

lemma mm_erase_expand: "mm_erase (snd (heap_expand n s)) = mm_erase s"
  using mm_erase_map_fresh [of 3 "unat (page_align_up n div 4096)" "heap_end s" s]
  by (auto simp: heap_expand_def Let_def split: prod.split bool.split option.split)

lemma mm_erase_take [simp]: "mm_erase (snd (take_block b n s)) = mm_erase s"
  by (simp add: take_block_def split_block_def Let_def)

lemma mm_erase_kmalloc [simp]: "mm_erase (snd (kmalloc n s)) = mm_erase s"
  using mm_erase_expand [of "round8 n + 12" s]
  by (auto simp: kmalloc_def Let_def split: prod.split bool.split option.split)

lemma mm_erase_kmalloc_aligned [simp]: "mm_erase (snd (kmalloc_aligned n s)) = mm_erase s"
  by (simp add: kmalloc_aligned_def split_beta)

lemma mm_erase_kcalloc [simp]: "mm_erase (snd (kcalloc n k s)) = mm_erase s"
  by (simp add: kcalloc_def Let_def split_beta)

lemma mm_erase_kfree [simp]: "mm_erase (kfree p s) = mm_erase s"
  by (simp add: kfree_def merge_free_blocks_def Let_def split: option.split)

lemma mm_erase_kheap_init [simp]: "mm_erase (kheap_init s) = mm_erase s"
  using mm_erase_map_fresh [of 3 "unat (0x100000 div 4096 :: u32)" HEAP_START_ADDR
    "s\<lparr>heap_start := HEAP_START_ADDR, heap_end := HEAP_START_ADDR, heap_max := HEAP_START_ADDR + 0x1000000\<rparr>"]
  by (auto simp: kheap_init_def Let_def split: prod.split bool.split)

text \<open>\<^verbatim>\<open>paging_init\<close> also sets CR3 and the current directory.\<close>

lemma mm_erase_paging_init:
  "mm_erase (paging_init s) = (mm_erase s)\<lparr>current_page_directory := page_directory s,
     cpu := (cpu s)\<lparr>reg_cr3 := VIRT_TO_PHYS (page_directory s)\<rparr>\<rparr>"
proof -
  have u: "mm_erase (t\<lparr>current_page_directory := d\<rparr>) = (mm_erase t)\<lparr>current_page_directory := d\<rparr>"
    "mm_erase (t\<lparr>cpu := c\<rparr>) = (mm_erase t)\<lparr>cpu := c\<rparr>" for t :: "'a kheap_state_scheme" and d c
    by (simp_all add: mm_erase_defs)
  have f: "cpu (kprintf fmt args t) = cpu t" "sym (kprintf fmt args t) = sym t" for fmt args and t :: "'a kheap_state_scheme"
    by (rule mm_erase_field [OF mm_erase_kprintf]; simp add: mm_erase_defs)+
  show ?thesis by (simp add: paging_init_def Let_def paging_load_directory_def u f)
qed

section \<open>States of the components above the heap\<close>

text \<open>The invariants of the memory managers speak about the part of the state up to the heap.\<close>

lemma truncate_fields [simp]:
  "mem (kheap_state.truncate s) = mem s" "sym (kheap_state.truncate s) = sym s" "faults (kheap_state.truncate s) = faults s"
  "frame_bitmap (kheap_state.truncate s) = frame_bitmap s" "total_frames (kheap_state.truncate s) = total_frames s"
  "heap_start (kheap_state.truncate s) = heap_start s" "heap_end (kheap_state.truncate s) = heap_end s"
  "heap_max (kheap_state.truncate s) = heap_max s" "first_block (kheap_state.truncate s) = first_block s"
  "total_allocated (kheap_state.truncate s) = total_allocated s" "terminal_row (kheap_state.truncate s) = terminal_row s"
  "terminal_column (kheap_state.truncate s) = terminal_column s" "terminal_buffer (kheap_state.truncate s) = terminal_buffer s"
  by (simp_all add: kheap_state.defs)

lemma truncate_frames [simp]:
  "frame_free (kheap_state.truncate s) = frame_free s" "avail_frames (kheap_state.truncate s) = avail_frames s"
  "scan_limit (kheap_state.truncate s) = scan_limit s" "low_frames (kheap_state.truncate s) = low_frames s"
  by (simp_all add: fun_eq_iff frame_free_def avail_frames_def free_frames_def scan_limit_def low_frames_def)

lemma truncate_invs [simp]:
  "term_inv (kheap_state.truncate s) = term_inv s" "pmm_inv (kheap_state.truncate s) = pmm_inv s"
  "paging_inv (kheap_state.truncate s) = paging_inv s" "tables_placed (kheap_state.truncate s) = tables_placed s"
  "tables_reserved (kheap_state.truncate s) = tables_reserved s" "image_low (kheap_state.truncate s) = image_low s"
  by (simp_all add: term_inv_def pmm_inv_def paging_inv_def pde_def tables_placed_def tables_reserved_def image_low_def)

lemma truncate_ready [simp]: "page_ready (kheap_state.truncate s) = page_ready s" "pde (kheap_state.truncate s) = pde s"
  by (simp_all add: fun_eq_iff page_ready_def table_present_def window_shows_iff translate_def pde_def)

lemma truncate_heap [simp]:
  "heap_ok (kheap_state.truncate s) = heap_ok s" "heap_live (kheap_state.truncate s) = heap_live s"
  "heap_window (kheap_state.truncate s) = heap_window s" "heap_inv (kheap_state.truncate s) = heap_inv s"
  "heap_fits (kheap_state.truncate s) = heap_fits s"
  by (simp_all add: fun_eq_iff heap_ok_def heap_live_def heap_window_def heap_inv_def heap_fits_def)

text \<open>Operations that change nothing below.\<close>

lemma heap_inv_above:
  assumes "kheap_state.truncate s' = kheap_state.truncate s"
  shows "heap_inv s' = heap_inv s" "heap_live s' = heap_live s" "heap_fits s' = heap_fits s" "heap_ok s' = heap_ok s"
    "heap_window s' = heap_window s" "paging_inv s' = paging_inv s" "pmm_inv s' = pmm_inv s" "mem s' = mem s" "sym s' = sym s"
    "faults s' = faults s" "heap_end s' = heap_end s"
  using assms truncate_heap [of s] truncate_heap [of s'] truncate_invs [of s] truncate_invs [of s']
    truncate_fields [of s] truncate_fields [of s'] by metis+

text \<open>Output and the registration of interrupt handlers.\<close>

lemma console_field:
  assumes "console_erase s' = console_erase s" and "\<And>t. f (console_erase t) = f t"
  shows "f s' = f s"
  using arg_cong [OF assms(1), of f] assms(2) by simp

lemma heap_inv_console:
  assumes c: "console_erase s' = console_erase s" and t: "term_inv s'" and inv: "heap_inv s"
  shows "heap_inv s'" "heap_live s' = heap_live s" "heap_fits s' = heap_fits s" "heap_ok s' = heap_ok s"
proof -
  have f: "mem s' = mem s" "sym s' = sym s" "frame_bitmap s' = frame_bitmap s" "total_frames s' = total_frames s"
    "heap_start s' = heap_start s" "heap_end s' = heap_end s" "heap_max s' = heap_max s" "first_block s' = first_block s"
    "total_allocated s' = total_allocated s"
    by (rule console_field [OF c]; simp add: console_erase_def)+
  have frames: "frame_free s' = frame_free s" "avail_frames s' = avail_frames s"
    by (simp_all add: fun_eq_iff frame_free_def avail_frames_def free_frames_def f)
  show "heap_ok s' = heap_ok s" "heap_live s' = heap_live s" "heap_fits s' = heap_fits s"
    by (simp_all add: fun_eq_iff heap_ok_def heap_live_def heap_fits_def f)
  then show "heap_inv s'"
    using inv t by (simp add: heap_inv_def heap_window_def paging_inv_def pmm_inv_def pde_def page_ready_def table_present_def window_shows_iff translate_def f frames)
qed

lemma heap_inv_term: "heap_inv s \<Longrightarrow> term_inv s"
  by (simp add: heap_inv_def heap_window_def paging_inv_def pmm_inv_def)

lemma heap_inv_kprintf:
  assumes "heap_inv s" and "kprintf_ok fmt args"
  shows "heap_inv (kprintf fmt args s)" "faults (kprintf fmt args s) = faults s" "heap_live (kprintf fmt args s) = heap_live s"
    "heap_fits (kprintf fmt args s) = heap_fits s" "heap_ok (kprintf fmt args s) = heap_ok s"
  using heap_inv_console [OF console_erase_kprintf _ assms(1)] kprintf_safe [OF assms(2) heap_inv_term [OF assms(1)]] by auto

lemma heap_handlers [simp]:
  "heap_inv (s\<lparr>handlers := h\<rparr>) = heap_inv s" "heap_live (s\<lparr>handlers := h\<rparr>) = heap_live s"
  "heap_fits (s\<lparr>handlers := h\<rparr>) = heap_fits s" "heap_ok (s\<lparr>handlers := h\<rparr>) = heap_ok s"
proof -
  have f: "frame_free (s\<lparr>handlers := h\<rparr>) = frame_free s" "avail_frames (s\<lparr>handlers := h\<rparr>) = avail_frames s"
    "term_inv (s\<lparr>handlers := h\<rparr>) = term_inv s"
    by (simp_all add: fun_eq_iff frame_free_def avail_frames_def free_frames_def term_inv_def)
  show ok: "heap_ok (s\<lparr>handlers := h\<rparr>) = heap_ok s" "heap_live (s\<lparr>handlers := h\<rparr>) = heap_live s"
    "heap_fits (s\<lparr>handlers := h\<rparr>) = heap_fits s"
    by (simp_all add: fun_eq_iff heap_ok_def heap_live_def heap_fits_def)
  show "heap_inv (s\<lparr>handlers := h\<rparr>) = heap_inv s"
    by (simp add: heap_inv_def heap_window_def paging_inv_def pmm_inv_def pde_def page_ready_def table_present_def window_shows_iff translate_def f ok)
qed

text \<open>The sample boot state of the heap, with the variables of further components.\<close>

lemma sample_kheap_above:
  assumes "kheap_state.truncate s = sample_kheap"
  shows "heap_inv (kheap_init (paging_init s))" "heap_live (kheap_init (paging_init s)) = {}"
    "heap_end (kheap_init (paging_init s)) = 0xC0500000" "faults (kheap_init (paging_init s)) = []"
    "heap_ok (kheap_init (paging_init s)) [(1048564, True)]"
proof -
  have b: "tables_placed s" "pmm_inv s" "tables_reserved s" "image_low s" "256 \<le> card (low_frames s)"
    "total_allocated s = 0" "faults s = []"
    using sample_kheap_boot sample_kheap_fields(6,8) unfolding assms [symmetric] by simp_all
  have "256 \<le> card (low_frames (paging_init s))" "total_allocated (paging_init s) = 0"
    using b(5,6) paging_init_kheap(1) [of s] by (simp_all add: paging_init_kheap(2) kheap_vars_def)
  note i = kheap_init_spec [OF paging_init_window [OF b(1-4)] this]
  show ok: "heap_ok (kheap_init (paging_init s)) [(1048564, True)]" using i by blast
  have "term_inv s" using b(2) by (simp add: pmm_inv_def)
  then show "heap_inv (kheap_init (paging_init s))" "faults (kheap_init (paging_init s)) = []"
    using i b(7) paging_init_console(2) [of s] by (auto simp: heap_inv_def)
  show "heap_live (kheap_init (paging_init s)) = {}" "heap_end (kheap_init (paging_init s)) = 0xC0500000"
    using heap_live_eq [OF ok] heap_okD(6) [OF ok] by (simp_all add: u32_eq_iff)
qed

end
