(* ===== verification/Serial.thy ===== *)
theory Serial
  imports Kprintf
begin

text \<open>
  The serial port driver, \<^verbatim>\<open>serial.c\<close>. The wait for the transmitter polls the line status
  register; how often it has to is up to the device, so the loop is a partial function: \<open>None\<close>
  is a wait that never ends, which the caller records as the fault \<open>Diverges\<close>. The lemmas
  show that on a device that is ready again and again every call returns, that the bytes sent
  are exactly the text that the format describes (here \<^verbatim>\<open>%%\<close> is one percent sign), and that no
  byte is written to a busy transmitter.
\<close>

section \<open>Operations\<close>

abbreviation (input) COM1 :: u16 where "COM1 \<equiv> 0x3F8"

definition serial_is_transmit_empty :: "'a hw_state_scheme \<Rightarrow> u8 \<times> 'a hw_state_scheme" where
  "serial_is_transmit_empty s = (case inb (COM1 + 5) s of (v, s1) \<Rightarrow> (v AND 0x20, s1))"

definition serial_init :: "'a hw_state_scheme \<Rightarrow> 'a hw_state_scheme" where
  "serial_init s =
     (let s1 = outb (COM1 + 1) 0x00 s;
          s2 = outb (COM1 + 3) 0x80 s1;
          s3 = outb (COM1 + 0) 0x03 s2;
          s4 = outb (COM1 + 1) 0x00 s3;
          s5 = outb (COM1 + 3) 0x03 s4;
          s6 = outb (COM1 + 2) 0xC7 s5
      in outb (COM1 + 4) 0x0B s6)"

text \<open>\<^verbatim>\<open>while (serial_is_transmit_empty() == 0);\<close>\<close>

partial_function (option) serial_wait :: "'a hw_state_scheme \<Rightarrow> 'a hw_state_scheme option" where
  "serial_wait s =
     (if fst (serial_is_transmit_empty s) = 0 then serial_wait (snd (serial_is_transmit_empty s))
      else Some (snd (serial_is_transmit_empty s)))"

definition serial_putchar :: "char \<Rightarrow> 'a hw_state_scheme \<Rightarrow> 'a hw_state_scheme" where
  "serial_putchar c s =
     (case serial_wait s of
        None \<Rightarrow> add_fault Diverges s
      | Some s1 \<Rightarrow> outb COM1 (of_char c) s1)"

fun serial_writestring :: "string \<Rightarrow> 'a hw_state_scheme \<Rightarrow> 'a hw_state_scheme" where
  "serial_writestring [] s = s"
| "serial_writestring (c # str) s =
     (if c \<noteq> char_nul then serial_writestring str (serial_putchar c s) else s)"

definition serial_print_uint :: "u32 \<Rightarrow> 'a hw_state_scheme \<Rightarrow> 'a hw_state_scheme" where
  "serial_print_uint num s =
     (if num = 0 then serial_putchar CHR ''0'' s
      else case uint_fill 12 num [] of
             None \<Rightarrow> add_fault Out_Of_Bounds s
           | Some buffer \<Rightarrow> fold serial_putchar (rev buffer) s)"

definition serial_print_int :: "u32 \<Rightarrow> 'a hw_state_scheme \<Rightarrow> 'a hw_state_scheme" where
  "serial_print_int num s =
     (if sint num < 0 then
        let s1 = serial_putchar CHR ''-'' s;
            s2 = (if num = 0x80000000 then add_fault Signed_Overflow s1 else s1)
        in serial_print_uint (- num) s2
      else serial_print_uint num s)"

definition serial_print_hex :: "u32 \<Rightarrow> 'a hw_state_scheme \<Rightarrow> 'a hw_state_scheme" where
  "serial_print_hex num s =
     (if num = 0 then serial_putchar CHR ''0'' s
      else case hex_fill 8 num [] of
             None \<Rightarrow> add_fault Out_Of_Bounds s
           | Some buffer \<Rightarrow> fold serial_putchar (rev buffer) s)"

text \<open>A format that ends in a percent sign is read beyond its terminator.\<close>

fun serial_printf :: "string \<Rightarrow> va_arg list \<Rightarrow> 'a hw_state_scheme \<Rightarrow> 'a hw_state_scheme" where
  "serial_printf [] args s = s"
| "serial_printf (c # fmt) args s =
     (if c = CHR ''%'' then
        (case fmt of
           [] \<Rightarrow> add_fault Out_Of_Bounds (serial_putchar char_nul (serial_putchar CHR ''%'' s))
         | d # fmt' \<Rightarrow>
             if d = CHR ''d'' then
               (case args of VInt n # args' \<Rightarrow> serial_printf fmt' args' (serial_print_int n s)
                           | _ \<Rightarrow> add_fault Bad_Vararg s)
             else if d = CHR ''u'' then
               (case args of VInt n # args' \<Rightarrow> serial_printf fmt' args' (serial_print_uint n s)
                           | _ \<Rightarrow> add_fault Bad_Vararg s)
             else if d = CHR ''x'' then
               (case args of VInt n # args' \<Rightarrow> serial_printf fmt' args' (serial_print_hex n s)
                           | _ \<Rightarrow> add_fault Bad_Vararg s)
             else if d = CHR ''s'' then
               (case args of VStr str # args' \<Rightarrow> serial_printf fmt' args' (serial_writestring str s)
                           | _ \<Rightarrow> add_fault Bad_Vararg s)
             else if d = CHR ''%'' then serial_printf fmt' args (serial_putchar CHR ''%'' s)
             else serial_printf fmt' args (serial_putchar d (serial_putchar CHR ''%'' s)))
      else serial_printf fmt args (serial_putchar c s))"

section \<open>The device\<close>

text \<open>Whatever has been read so far, a later read of the line status shows an empty transmitter.\<close>

definition uart_live :: "'a hw_state_scheme \<Rightarrow> bool" where
  "uart_live s \<longleftrightarrow> (\<forall>n. \<exists>k \<ge> n. port_in s 0x3FD k AND 0x20 \<noteq> 0)"

text \<open>The bytes written to the data register, oldest first, and the protocol: the event before such a
  write is a read of the line status with the transmitter empty. Traces are newest first.\<close>

definition sent_bytes :: "hw_event list \<Rightarrow> u8 list" where
  "sent_bytes tr = rev (List.map_filter (\<lambda>e. case e of Outb p v \<Rightarrow> if p = 0x3F8 then Some v else None | _ \<Rightarrow> None) tr)"

fun uart_protocol :: "hw_event list \<Rightarrow> bool" where
  "uart_protocol [] = True"
| "uart_protocol (e # tr) =
     (uart_protocol tr \<and> (case e of
        Outb p v \<Rightarrow> p = 0x3F8 \<longrightarrow> (case tr of Inb q w # _ \<Rightarrow> q = 0x3FD \<and> w AND 0x20 \<noteq> 0 | _ \<Rightarrow> False)
      | _ \<Rightarrow> True))"

text \<open>A call of the driver: it leaves everything but the trace and the number of reads alone, and
  sends the given text.\<close>

definition sends :: "string \<Rightarrow> 'a hw_state_scheme \<Rightarrow> 'a hw_state_scheme \<Rightarrow> bool" where
  "sends t s s' \<longleftrightarrow> s' = s\<lparr>hw_trace := hw_trace s', port_reads := port_reads s'\<rparr>
     \<and> sent_bytes (hw_trace s') = sent_bytes (hw_trace s) @ map of_char t
     \<and> (uart_protocol (hw_trace s) \<longrightarrow> uart_protocol (hw_trace s'))"

lemma only_history:
  "s' = s\<lparr>hw_trace := hw_trace s', port_reads := port_reads s'\<rparr> \<Longrightarrow>
   s'' = s'\<lparr>hw_trace := hw_trace s'', port_reads := port_reads s''\<rparr> \<Longrightarrow>
   s'' = s\<lparr>hw_trace := hw_trace s'', port_reads := port_reads s''\<rparr>" for s :: "'a hw_state_scheme"
  by (metis hw_state.update_convs(1,3) hw_state.surjective)

lemma sends_refl: "sends [] s s"
  by (simp add: sends_def)

lemma sends_trans: "sends t s s' \<Longrightarrow> sends u s' s'' \<Longrightarrow> sends (t @ u) s s''"
  unfolding sends_def using only_history [of s' s s''] by auto

lemma sends_live: "sends t s s' \<Longrightarrow> uart_live s' = uart_live s"
proof -
  assume "sends t s s'"
  then have "port_in s' = port_in (s\<lparr>hw_trace := hw_trace s', port_reads := port_reads s'\<rparr>)"
    by (simp add: sends_def)
  then show ?thesis by (simp add: uart_live_def)
qed

lemma poll_eq:
  "serial_is_transmit_empty s = (port_in s 0x3FD (port_reads s 0x3FD) AND 0x20,
     s\<lparr>port_reads := (port_reads s)(0x3FD := Suc (port_reads s 0x3FD)),
       hw_trace := Inb 0x3FD (port_in s 0x3FD (port_reads s 0x3FD)) # hw_trace s\<rparr>)"
  by (simp add: serial_is_transmit_empty_def inb_def hw_emit_def Let_def)

lemma sent_bytes_simps [simp]:
  "sent_bytes (Inb p v # tr) = sent_bytes tr"
  "sent_bytes (Outb p v # tr) = sent_bytes tr @ (if p = 0x3F8 then [v] else [])"
  by (simp_all add: sent_bytes_def map_filter_simps)

text \<open>The wait ends at the first read that shows an empty transmitter.\<close>

lemma serial_wait_ends:
  assumes "port_in s 0x3FD k AND 0x20 \<noteq> 0" and "port_reads s 0x3FD \<le> k"
  shows "\<exists>s1 v tr. serial_wait s = Some s1 \<and> s1 = s\<lparr>hw_trace := hw_trace s1, port_reads := port_reads s1\<rparr>
    \<and> hw_trace s1 = Inb 0x3FD v # tr \<and> v AND 0x20 \<noteq> 0
    \<and> sent_bytes tr = sent_bytes (hw_trace s) \<and> (uart_protocol (hw_trace s) \<longrightarrow> uart_protocol tr)"
  using assms
proof (induction "k - port_reads s 0x3FD" arbitrary: s)
  case 0
  then have k: "k = port_reads s 0x3FD" by simp
  show ?case
    using 0 unfolding k serial_wait.simps [of s] poll_eq [of s] by simp
next
  case (Suc d)
  show ?case
  proof (cases "port_in s 0x3FD (port_reads s 0x3FD) AND 0x20 = 0")
    case True
    define s2 where "s2 = snd (serial_is_transmit_empty s)"
    have wait: "serial_wait s = serial_wait s2"
      using True by (subst serial_wait.simps) (simp add: poll_eq s2_def)
    have "d = k - port_reads s2 0x3FD" "port_in s2 0x3FD k AND 0x20 \<noteq> 0" "port_reads s2 0x3FD \<le> k"
      using Suc by (auto simp: poll_eq s2_def)
    note IH = Suc.hyps(1) [OF this]
    have tr: "hw_trace s2 = Inb 0x3FD (port_in s 0x3FD (port_reads s 0x3FD)) # hw_trace s"
      and only: "s2 = s\<lparr>hw_trace := hw_trace s2, port_reads := port_reads s2\<rparr>" by (simp_all add: poll_eq s2_def)
    from IH obtain s1 v tr' where w: "serial_wait s2 = Some s1"
      "s1 = s2\<lparr>hw_trace := hw_trace s1, port_reads := port_reads s1\<rparr>" "hw_trace s1 = Inb 0x3FD v # tr'"
      "v AND 0x20 \<noteq> 0" "sent_bytes tr' = sent_bytes (hw_trace s2)" "uart_protocol (hw_trace s2) \<longrightarrow> uart_protocol tr'"
      by blast
    have "s1 = s\<lparr>hw_trace := hw_trace s1, port_reads := port_reads s1\<rparr>" by (rule only_history [OF only w(2)])
    moreover have "sent_bytes tr' = sent_bytes (hw_trace s)" "uart_protocol (hw_trace s) \<longrightarrow> uart_protocol tr'"
      using w(5,6) by (simp_all add: tr)
    ultimately show ?thesis unfolding wait using w(1,3,4) by blast
  next
    case False
    then show ?thesis by (subst serial_wait.simps) (simp add: poll_eq)
  qed
qed

lemma serial_putchar_sends:
  assumes "uart_live s"
  shows "sends [c] s (serial_putchar c s)"
proof -
  obtain k where "port_in s 0x3FD k AND 0x20 \<noteq> 0" "port_reads s 0x3FD \<le> k"
    using assms by (auto simp: uart_live_def)
  from serial_wait_ends [OF this] obtain s1 v tr where w: "serial_wait s = Some s1" "s1 = s\<lparr>hw_trace := hw_trace s1, port_reads := port_reads s1\<rparr>"
    "hw_trace s1 = Inb 0x3FD v # tr" "v AND 0x20 \<noteq> 0" "sent_bytes tr = sent_bytes (hw_trace s)"
    "uart_protocol (hw_trace s) \<longrightarrow> uart_protocol tr"
    by (elim exE conjE) (rule that)
  let ?s' = "s1\<lparr>hw_trace := Outb 0x3F8 (of_char c) # hw_trace s1\<rparr>"
  have eq: "serial_putchar c s = ?s'" using w(1) by (simp add: serial_putchar_def outb_def hw_emit_def)
  have "?s' = s\<lparr>hw_trace := hw_trace ?s', port_reads := port_reads ?s'\<rparr>"
    by (rule only_history [OF w(2)]) simp
  moreover have "sent_bytes (hw_trace ?s') = sent_bytes (hw_trace s) @ map of_char [c]"
    "uart_protocol (hw_trace s) \<longrightarrow> uart_protocol (hw_trace ?s')" using w(3-6) by simp_all
  ultimately show ?thesis unfolding eq sends_def by blast
qed

lemma serial_puts_sends: "uart_live s \<Longrightarrow> sends t s (fold serial_putchar t s)"
proof (induction t arbitrary: s)
  case (Cons c t)
  note p = serial_putchar_sends [OF Cons.prems, of c]
  then have "sends t (serial_putchar c s) (fold serial_putchar t (serial_putchar c s))"
    using Cons.IH Cons.prems sends_live [OF p] by blast
  then show ?case using sends_trans [OF p] by simp
qed (simp add: sends_refl)

lemma serial_writestring_fold: "char_nul \<notin> set str \<Longrightarrow> serial_writestring str s = fold serial_putchar str s"
  by (induction str arbitrary: s) auto

lemma serial_uint_eq: "serial_print_uint num s = fold serial_putchar (dec_numeral (unat num)) s"
proof (cases "num = 0")
  case False
  then have "uint_fill 12 num [] = Some (rev (dec_numeral (unat num)))"
    using uint_fill_numeral [of num "[]" 12] length_dec_numeral_u32 [of num] by simp
  then show ?thesis using False by (simp add: serial_print_uint_def)
qed (simp add: serial_print_uint_def dec_numeral_small char_of_48)

lemma serial_hex_eq: "serial_print_hex num s = fold serial_putchar (hex_numeral (unat num)) s"
proof (cases "num = 0")
  case False
  then have "hex_fill 8 num [] = Some (rev (hex_numeral (unat num)))"
    using hex_fill_numeral [of num "[]" 8] length_hex_numeral_u32 [of num] by simp
  then show ?thesis using False by (simp add: serial_print_hex_def)
qed (simp add: serial_print_hex_def hex_numeral_small hex_char_def char_of_48)

lemma serial_int_eq:
  assumes "n \<noteq> 0x80000000"
  shows "serial_print_int n s = fold serial_putchar (int_numeral n) s"
  using unat_abs_sint [of n] assms by (auto simp: serial_print_int_def serial_uint_eq int_numeral_def)

lemma serial_text_eq:
  "kprintf_text fmt args = Some t \<Longrightarrow> serial_printf fmt args s = fold serial_putchar t s"
proof (induction fmt args s arbitrary: t rule: serial_printf.induct)
  case (2 c fmt args s)
  show ?case
  proof (cases "c = CHR ''%''")
    case False
    then show ?thesis using 2 by auto
  next
    case True
    then obtain d fmt' where fmt: "fmt = d # fmt'" using "2.prems" by (cases fmt) auto
    from "2.prems" consider
        (pct) t' where "d = CHR ''%''" "kprintf_text fmt' args = Some t'" "t = CHR ''%'' # t'"
      | (int) n as t' where "args = VInt n # as" "kprintf_text fmt' as = Some t'" "d = CHR ''d''"
          "n \<noteq> 0x80000000" "t = int_numeral n @ t'"
      | (uint) n as t' where "args = VInt n # as" "kprintf_text fmt' as = Some t'" "d = CHR ''u''"
          "t = dec_numeral (unat n) @ t'"
      | (hex) n as t' where "args = VInt n # as" "kprintf_text fmt' as = Some t'" "d = CHR ''x''"
          "t = hex_numeral (unat n) @ t'"
      | (str) str as t' where "args = VStr str # as" "kprintf_text fmt' as = Some t'" "d = CHR ''s''"
          "char_nul \<notin> set str" "t = str @ t'"
      using fmt True by (auto split: list.splits va_arg.splits if_splits)
    then show ?thesis
      using "2.IH" True fmt
      by cases (simp_all add: serial_uint_eq serial_hex_eq serial_int_eq serial_writestring_fold)
  qed
qed simp

section \<open>Properties\<close>

text \<open>
  C29. If the transmitter becomes ready again after every moment, a call of \<^verbatim>\<open>serial_printf\<close> whose
  arguments fit its format returns, has sent exactly the text of the format byte by byte, has
  never written to a busy transmitter, and has changed nothing in the machine but the devices'
  history.
\<close>

theorem serial_printf_transmits:
  assumes "uart_live s" and "kprintf_text fmt args = Some t"
  shows "sent_bytes (hw_trace (serial_printf fmt args s)) = sent_bytes (hw_trace s) @ map of_char t
    \<and> (uart_protocol (hw_trace s) \<longrightarrow> uart_protocol (hw_trace (serial_printf fmt args s)))
    \<and> (let s' = serial_printf fmt args s in s' = s\<lparr>hw_trace := hw_trace s', port_reads := port_reads s'\<rparr>)"
  using serial_puts_sends [OF assms(1), of t]
  unfolding serial_text_eq [OF assms(2), of s] sends_def Let_def by (elim conjE, intro conjI) assumption+

text \<open>A transmitter that is ready at every other read.\<close>

definition sample_uart :: term_state where
  "sample_uart = numbered_screen\<lparr>port_in := (\<lambda>p n. if p = 0x3FD \<and> odd n then 0x60 else 0)\<rparr>"

theorem serial_printf_transmits_witness:
  "uart_live sample_uart \<and> faults (serial_printf ''n=%u%%'' [VInt 7] sample_uart) = []
   \<and> sent_bytes (hw_trace (serial_printf ''n=%u%%'' [VInt 7] sample_uart)) = [0x6E, 0x3D, 0x37, 0x25]"
proof -
  have "\<exists>k \<ge> n. odd k" for n :: nat by (rule exI [of _ "2 * n + 1"]) simp
  moreover have "(0x60 :: u8) AND 0x20 \<noteq> 0" by simp
  ultimately have live: "uart_live sample_uart" by (auto simp: uart_live_def sample_uart_def)
  have t: "kprintf_text ''n=%u%%'' [VInt 7] = Some ''n=7%''"
    by (simp add: dec_numeral_small char_eval)
  have init: "sent_bytes (hw_trace sample_uart) = []" "faults sample_uart = []"
    by (simp_all add: sample_uart_def numbered_screen_def sent_bytes_def map_filter_simps)
  have only: "faults s' = faults s" if "s' = s\<lparr>hw_trace := hw_trace s', port_reads := port_reads s'\<rparr>"
    for s s' :: term_state by (subst that) simp
  note r = serial_printf_transmits [OF live t]
  from r have "faults (serial_printf ''n=%u%%'' [VInt 7] sample_uart) = []"
    unfolding Let_def using only init(2) by metis
  moreover from conjunct1 [OF r]
  have "sent_bytes (hw_trace (serial_printf ''n=%u%%'' [VInt 7] sample_uart)) = [0x6E, 0x3D, 0x37, 0x25]"
    by (simp add: init)
  ultimately show ?thesis using live by blast
qed

end
