(* ===== verification/Vmm.thy ===== *)
theory Vmm
  imports Memory_Frame Serial
begin

text \<open>
  The virtual memory manager, \<^verbatim>\<open>vmm.c\<close>. Regions are records of a pool of 256, linked by the
  index of the next one; address-space structures are kept in a store of their own, by their
  address (the kernel's is the static \<^verbatim>\<open>kernel_space\<close>, the others are allocated with \<^verbatim>\<open>kmalloc\<close>). The
  walks along a region list and the page loops are partial functions; \<open>None\<close> is a loop that does
  not end and is recorded as the fault \<open>Diverges\<close>.

  Here are the definitions only; the lemmas on region lists are in \<^verbatim>\<open>Vmm_Regions\<close>, those on mapping and
  unmapping in \<^verbatim>\<open>Vmm_Map\<close>.
\<close>

section \<open>Data\<close>

datatype vmm_region_type =
    REGION_FREE | REGION_KERNEL_CODE | REGION_KERNEL_DATA | REGION_KERNEL_HEAP | REGION_KERNEL_STACK
  | REGION_IDENTITY_MAP | REGION_USER_CODE | REGION_USER_DATA | REGION_USER_HEAP | REGION_USER_STACK
  | REGION_MMIO

fun region_value :: "vmm_region_type \<Rightarrow> nat" where
  "region_value REGION_FREE = 0"
| "region_value REGION_KERNEL_CODE = 1"
| "region_value REGION_KERNEL_DATA = 2"
| "region_value REGION_KERNEL_HEAP = 3"
| "region_value REGION_KERNEL_STACK = 4"
| "region_value REGION_IDENTITY_MAP = 5"
| "region_value REGION_USER_CODE = 6"
| "region_value REGION_USER_DATA = 7"
| "region_value REGION_USER_HEAP = 8"
| "region_value REGION_USER_STACK = 9"
| "region_value REGION_MMIO = 10"

text \<open>The code compares the values of the enumeration.\<close>

instantiation vmm_region_type :: linorder
begin

definition less_eq_vmm_region_type :: "vmm_region_type \<Rightarrow> vmm_region_type \<Rightarrow> bool" where
  "less_eq_vmm_region_type a b \<longleftrightarrow> region_value a \<le> region_value b"

definition less_vmm_region_type :: "vmm_region_type \<Rightarrow> vmm_region_type \<Rightarrow> bool" where
  "less_vmm_region_type a b \<longleftrightarrow> region_value a < region_value b"

instance
proof
  fix x y :: vmm_region_type
  show "x \<le> y \<Longrightarrow> y \<le> x \<Longrightarrow> x = y"
    unfolding less_eq_vmm_region_type_def by (cases x; cases y) simp_all
qed (auto simp: less_eq_vmm_region_type_def less_vmm_region_type_def)

end

abbreviation (input) VMM_READ :: u32 where "VMM_READ \<equiv> 0x01"
abbreviation (input) VMM_WRITE :: u32 where "VMM_WRITE \<equiv> 0x02"
abbreviation (input) VMM_EXEC :: u32 where "VMM_EXEC \<equiv> 0x04"
abbreviation (input) VMM_USER :: u32 where "VMM_USER \<equiv> 0x08"
abbreviation (input) VMM_MAX_REGIONS :: u32 where "VMM_MAX_REGIONS \<equiv> 256"

record vmm_region =
  r_base :: u32
  r_size :: u32
  r_flags :: u32
  r_type :: vmm_region_type
  r_next :: "nat option"

record vmm_address_space =
  as_directory :: u32
  as_regions :: "nat option"
  as_count :: u32

record vmm_state = kheap_state +
  spaces :: "u32 \<Rightarrow> vmm_address_space"
  current_space :: u32
  region_pool :: "vmm_region list"
  region_pool_used :: u32

abbreviation kernel_space :: "'a hw_state_scheme \<Rightarrow> u32" where
  "kernel_space s \<equiv> kernel_space_sym (sym s)"

section \<open>Operations on regions\<close>

definition alloc_region :: "'a vmm_state_scheme \<Rightarrow> nat option \<times> 'a vmm_state_scheme" where
  "alloc_region s =
     (if region_pool_used s \<ge> VMM_MAX_REGIONS
      then (None, kprintf ''VMM: ran out of region slots, this is bad\<newline>'' [] s)
      else
        let r = unat (region_pool_used s)
        in (Some r, s\<lparr>region_pool_used := region_pool_used s + 1,
              region_pool := (region_pool s)[r :=
                \<lparr>r_base = 0, r_size = 0, r_flags = 0, r_type = REGION_FREE, r_next = None\<rparr>]\<rparr>))"

definition set_next_region :: "nat \<Rightarrow> nat option \<Rightarrow> 'a vmm_state_scheme \<Rightarrow> 'a vmm_state_scheme" where
  "set_next_region r n s = s\<lparr>region_pool := (region_pool s)[r := (region_pool s ! r)\<lparr>r_next := n\<rparr>]\<rparr>"

definition set_regions :: "u32 \<Rightarrow> nat option \<Rightarrow> 'a vmm_state_scheme \<Rightarrow> 'a vmm_state_scheme" where
  "set_regions space r s = s\<lparr>spaces := (spaces s)(space := (spaces s space)\<lparr>as_regions := r\<rparr>)\<rparr>"

definition set_count :: "u32 \<Rightarrow> u32 \<Rightarrow> 'a vmm_state_scheme \<Rightarrow> 'a vmm_state_scheme" where
  "set_count space n s = s\<lparr>spaces := (spaces s)(space := (spaces s space)\<lparr>as_count := n\<rparr>)\<rparr>"

definition set_directory :: "u32 \<Rightarrow> u32 \<Rightarrow> 'a vmm_state_scheme \<Rightarrow> 'a vmm_state_scheme" where
  "set_directory space d s = s\<lparr>spaces := (spaces s)(space := (spaces s space)\<lparr>as_directory := d\<rparr>)\<rparr>"

text \<open>\<^verbatim>\<open>while (curr->next && curr->next->base < region->base) curr = curr->next;\<close>\<close>

partial_function (option) insert_walk :: "vmm_region list \<Rightarrow> u32 \<Rightarrow> nat \<Rightarrow> nat option" where
  "insert_walk pool base cur =
     (case r_next (pool ! cur) of
        None \<Rightarrow> Some cur
      | Some n \<Rightarrow> if r_base (pool ! n) < base then insert_walk pool base n else Some cur)"

definition insert_region :: "u32 \<Rightarrow> nat \<Rightarrow> 'a vmm_state_scheme \<Rightarrow> 'a vmm_state_scheme" where
  "insert_region space region s =
     (case as_regions (spaces s space) of
        None \<Rightarrow>
          let s1 = set_next_region region None s;
              s2 = set_regions space (Some region) s1
          in set_count space (as_count (spaces s2 space) + 1) s2
      | Some first \<Rightarrow>
          if r_base (region_pool s ! region) < r_base (region_pool s ! first) then
            let s1 = set_next_region region (Some first) s;
                s2 = set_regions space (Some region) s1
            in set_count space (as_count (spaces s2 space) + 1) s2
          else
            case insert_walk (region_pool s) (r_base (region_pool s ! region)) first of
              None \<Rightarrow> add_fault Diverges s
            | Some cur \<Rightarrow>
                let s1 = set_next_region region (r_next (region_pool s ! cur)) s;
                    s2 = set_next_region cur (Some region) s1
                in set_count space (as_count (spaces s2 space) + 1) s2)"

text \<open>\<^verbatim>\<open>while (curr->next && curr->next != region) curr = curr->next;\<close>\<close>

partial_function (option) remove_walk :: "vmm_region list \<Rightarrow> nat \<Rightarrow> nat \<Rightarrow> nat option" where
  "remove_walk pool region cur =
     (case r_next (pool ! cur) of
        None \<Rightarrow> Some cur
      | Some n \<Rightarrow> if n \<noteq> region then remove_walk pool region n else Some cur)"

definition remove_region :: "u32 \<Rightarrow> nat \<Rightarrow> 'a vmm_state_scheme \<Rightarrow> 'a vmm_state_scheme" where
  "remove_region space region s =
     (case as_regions (spaces s space) of
        None \<Rightarrow> add_fault Null_Deref s
      | Some first \<Rightarrow>
          if first = region then
            let s1 = set_regions space (r_next (region_pool s ! region)) s
            in set_count space (as_count (spaces s1 space) - 1) s1
          else
            case remove_walk (region_pool s) region first of
              None \<Rightarrow> add_fault Diverges s
            | Some cur \<Rightarrow>
                if r_next (region_pool s ! cur) = Some region then
                  let s1 = set_next_region cur (r_next (region_pool s ! region)) s
                  in set_count space (as_count (spaces s1 space) - 1) s1
                else s)"

definition fill_region :: "nat \<Rightarrow> u32 \<Rightarrow> u32 \<Rightarrow> u32 \<Rightarrow> vmm_region_type \<Rightarrow> 'a vmm_state_scheme \<Rightarrow> 'a vmm_state_scheme" where
  "fill_region r base sz flags type s =
     s\<lparr>region_pool := (region_pool s)[r := (region_pool s ! r)\<lparr>r_base := base, r_size := sz, r_flags := flags, r_type := type\<rparr>]\<rparr>"

definition register_existing_region ::
    "u32 \<Rightarrow> u32 \<Rightarrow> u32 \<Rightarrow> u32 \<Rightarrow> vmm_region_type \<Rightarrow> 'a vmm_state_scheme \<Rightarrow> nat option \<times> 'a vmm_state_scheme" where
  "register_existing_region space base sz flags type s =
     (case alloc_region s of
        (None, s1) \<Rightarrow> (None, s1)
      | (Some region, s1) \<Rightarrow>
          (Some region, insert_region space region (fill_region region base sz flags type s1)))"

text \<open>The loops over a region list that stop at the first region with a property.\<close>

partial_function (option) chain_find :: "vmm_region list \<Rightarrow> (vmm_region \<Rightarrow> bool) \<Rightarrow> nat option \<Rightarrow> nat option option" where
  "chain_find pool P region =
     (case region of
        None \<Rightarrow> Some None
      | Some i \<Rightarrow> if P (pool ! i) then Some (Some i) else chain_find pool P (r_next (pool ! i)))"

definition vmm_find_region :: "u32 \<Rightarrow> u32 \<Rightarrow> 'a vmm_state_scheme \<Rightarrow> nat option option" where
  "vmm_find_region space vaddr s =
     (if space = 0 then Some None
      else chain_find (region_pool s) (\<lambda>r. vaddr \<ge> r_base r \<and> vaddr < r_base r + r_size r) (as_regions (spaces s space)))"

definition vmm_is_mapped :: "u32 \<Rightarrow> 'a vmm_state_scheme \<Rightarrow> bool" where
  "vmm_is_mapped vaddr s = (paging_get_physical vaddr s \<noteq> 0)"

fun type_name :: "vmm_region_type \<Rightarrow> string" where
  "type_name REGION_FREE = ''FREE''"
| "type_name REGION_KERNEL_CODE = ''KCODE''"
| "type_name REGION_KERNEL_DATA = ''KDATA''"
| "type_name REGION_KERNEL_HEAP = ''KHEAP''"
| "type_name REGION_KERNEL_STACK = ''KSTACK''"
| "type_name REGION_IDENTITY_MAP = ''IDMAP''"
| "type_name REGION_USER_CODE = ''UCODE''"
| "type_name REGION_USER_DATA = ''UDATA''"
| "type_name REGION_USER_HEAP = ''UHEAP''"
| "type_name REGION_USER_STACK = ''USTACK''"
| "type_name REGION_MMIO = ''MMIO''"

definition print_region :: "vmm_region \<Rightarrow> 'a vmm_state_scheme \<Rightarrow> 'a vmm_state_scheme" where
  "print_region r s =
     kprintf '' 0x%x - 0x%x  [%s] %s%s%s\<newline>''
       [VInt (r_base r), VInt (r_base r + r_size r), VStr (type_name (r_type r)),
        VStr (if r_flags r AND VMM_READ \<noteq> 0 then ''R'' else ''-''),
        VStr (if r_flags r AND VMM_WRITE \<noteq> 0 then ''W'' else ''-''),
        VStr (if r_flags r AND VMM_USER \<noteq> 0 then ''U'' else ''K'')] s"

partial_function (option) dump_walk :: "nat option \<Rightarrow> 'a vmm_state_scheme \<Rightarrow> 'a vmm_state_scheme option" where
  "dump_walk region s =
     (case region of
        None \<Rightarrow> Some s
      | Some i \<Rightarrow> dump_walk (r_next (region_pool s ! i)) (print_region (region_pool s ! i) s))"

definition vmm_dump_regions :: "u32 \<Rightarrow> 'a vmm_state_scheme \<Rightarrow> 'a vmm_state_scheme" where
  "vmm_dump_regions space s =
     (if space = 0 then s
      else
        let s1 = kprintf ''VMM: --- Region Map (%u regions) ---\<newline>'' [VInt (as_count (spaces s space))] s in
        case dump_walk (as_regions (spaces s1 space)) s1 of
          None \<Rightarrow> add_fault Diverges s1
        | Some s2 \<Rightarrow> kprintf ''VMM: --- End Region Map ---\<newline>'' [] s2)"

section \<open>The page fault handler\<close>

definition describe_fault ::
    "nat option \<Rightarrow> bool \<Rightarrow> bool \<Rightarrow> bool \<Rightarrow> 'a vmm_state_scheme \<Rightarrow> 'a vmm_state_scheme" where
  "describe_fault found present write user s =
     (case found of
        Some i \<Rightarrow>
          let region = region_pool s ! i in
          if \<not> present then
            let s1 = kprintf '' -> Address is in region: type=%u, base=0x%x, size=0x%x\<newline>''
                       [VInt (of_nat (region_value (r_type region))), VInt (r_base region), VInt (r_size region)] s;
                s2 = kprintf '' -> This region exists but page isn't present\<newline>'' [] s1
            in kprintf '' -> (demand paging not implemented yet, halting)\<newline>'' [] s2
          else
            let s1 = kprintf '' -> Protection violation in region type-%u\<newline>''
                       [VInt (of_nat (region_value (r_type region)))] s;
                s2 = (if write \<and> r_flags region AND VMM_WRITE = 0
                      then kprintf '' -> Write to read-only region\<newline>'' [] s1 else s1)
            in if user \<and> r_flags region AND VMM_USER = 0
               then kprintf '' -> User access to kernel region\<newline>'' [] s2 else s2
      | None \<Rightarrow> kprintf '' -> Address not in any mapped region (segfault)\<newline>'' [] s)"

definition page_fault_handler :: "interrupt_frame \<Rightarrow> 'a vmm_state_scheme \<Rightarrow> 'a vmm_state_scheme" where
  "page_fault_handler frame s =
     (let faulting_addr = reg_cr2 (cpu s);
          present = (error_code frame AND 0x1 \<noteq> 0);
          write = (error_code frame AND 0x2 \<noteq> 0);
          user = (error_code frame AND 0x4 \<noteq> 0);
          s1 = kprintf ''\<newline>!!!!!!! PAGE FAULT !!!!!!!!!!'' [] s;
          s2 = kprintf ''Address: 0x%x\<newline>'' [VInt faulting_addr] s1;
          s3 = kprintf ''Error: %s %s in %s mode\<newline>''
                 [VStr (if present then ''protection violation'' else ''page not present''),
                  VStr (if write then ''(write)'' else ''(read)''), VStr (if user then ''user'' else ''kernel'')] s2;
          s4 = kprintf ''At EIP: 0x%x\<newline>'' [VInt (f_eip frame)] s3;
          s5 = serial_printf ''PAGE FAULT: addr=0x%x err=0x%x eip=0x%x\<newline>''
                 [VInt faulting_addr, VInt (error_code frame), VInt (f_eip frame)] s4;
          s6 = (if current_space s5 \<noteq> 0 then
                  (case vmm_find_region (current_space s5) faulting_addr s5 of
                     None \<Rightarrow> add_fault Diverges s5
                   | Some found \<Rightarrow> describe_fault found present write user s5)
                else s5);
          s7 = kprintf ''System halted.\<newline>'' [] s6
      in hw_emit Hlt (hw_emit Cli s7))"

section \<open>Address spaces\<close>

definition vmm_flags_to_page_flags :: "u32 \<Rightarrow> u32" where
  "vmm_flags_to_page_flags vmm_flags =
     (let pf = PAGE_PRESENT;
          pf1 = (if vmm_flags AND VMM_WRITE \<noteq> 0 then pf OR PAGE_WRITE else pf)
      in if vmm_flags AND VMM_USER \<noteq> 0 then pf1 OR PAGE_USER else pf1)"

definition vmm_init :: "'a vmm_state_scheme \<Rightarrow> 'a vmm_state_scheme" where
  "vmm_init s =
     (let s1 = kprintf ''VMM: Initializing...\<newline>'' [] s;
          ks = kernel_space s1;
          s2 = set_directory ks (paging_get_directory s1) s1;
          s3 = set_regions ks None s2;
          s4 = set_count ks 0 s3;
          s5 = s4\<lparr>current_space := ks\<rparr>;
          s6 = snd (register_existing_region ks 0xC0001000 0x000FF000 (VMM_READ OR VMM_WRITE) REGION_MMIO s5);
          kend = page_align_up (kernel_end_sym (sym s6));
          s7 = snd (register_existing_region ks 0xC0100000 (kend - 0xC0100000) (VMM_READ OR VMM_WRITE OR VMM_EXEC)
                      REGION_KERNEL_CODE s6);
          s8 = (if kend < 0xC0400000
                then snd (register_existing_region ks kend (0xC0400000 - kend) (VMM_READ OR VMM_WRITE)
                            REGION_IDENTITY_MAP s7)
                else s7);
          s9 = snd (register_existing_region ks 0xC0400000 (16 * 1024 * 1024) (VMM_READ OR VMM_WRITE)
                      REGION_KERNEL_HEAP s8);
          s10 = idt_register_handler 14 Page_fault_handler s9;
          s11 = kprintf ''VMM: Initialized with %u regions\<newline>'' [VInt (as_count (spaces s10 ks))] s10
      in vmm_dump_regions ks s11)"

text \<open>The loop that copies the kernel's regions; the result of a failed registration is ignored.\<close>

partial_function (option) copy_regions :: "u32 \<Rightarrow> nat option \<Rightarrow> 'a vmm_state_scheme \<Rightarrow> 'a vmm_state_scheme option" where
  "copy_regions space kr s =
     (case kr of
        None \<Rightarrow> Some s
      | Some i \<Rightarrow>
          let r = region_pool s ! i;
              s1 = snd (register_existing_region space (r_base r) (r_size r) (r_flags r) (r_type r) s)
          in copy_regions space (r_next (region_pool s1 ! i)) s1)"

definition vmm_create_address_space :: "'a vmm_state_scheme \<Rightarrow> u32 \<times> 'a vmm_state_scheme" where
  "vmm_create_address_space s =
     (case kmalloc 12 s of
        (space, s1) \<Rightarrow>
          if space = 0 then (0, kprintf ''VMM: couldn't allocate address space struct\<newline>'' [] s1)
          else case paging_create_directory s1 of
            (dir, s2) \<Rightarrow>
              let s3 = set_directory space dir s2 in
              if as_directory (spaces s3 space) = 0
              then (0, kfree space (kprintf ''VMM: couldn't create page directory\<newline>'' [] s3))
              else
                let s4 = set_regions space None s3;
                    s5 = set_count space 0 s4
                in case copy_regions space (as_regions (spaces s5 (kernel_space s5))) s5 of
                     None \<Rightarrow> (0, add_fault Diverges s5)
                   | Some s6 \<Rightarrow> (space, s6))"

text \<open>\<^verbatim>\<open>for (uint32_t off = first; off < limit; off += PAGE_SIZE)\<close>\<close>

partial_function (option) page_loop :: "(u32 \<Rightarrow> 's \<Rightarrow> 's) \<Rightarrow> u32 \<Rightarrow> u32 \<Rightarrow> 's \<Rightarrow> 's option" where
  "page_loop body limit off s =
     (if off < limit then page_loop body limit (off + PAGE_SIZE) (body off s) else Some s)"

definition destroy_page :: "u32 \<Rightarrow> 'a vmm_state_scheme \<Rightarrow> 'a vmm_state_scheme" where
  "destroy_page addr s =
     (let phys = paging_get_physical addr s in
      if phys \<noteq> 0 then pmm_free_frame phys (paging_unmap_page addr s) else s)"

partial_function (option) destroy_walk :: "nat option \<Rightarrow> 'a vmm_state_scheme \<Rightarrow> 'a vmm_state_scheme option" where
  "destroy_walk region s =
     (case region of
        None \<Rightarrow> Some s
      | Some i \<Rightarrow>
          let r = region_pool s ! i in
          if r_type r \<ge> REGION_USER_CODE then
            Option.bind (page_loop destroy_page (r_base r + r_size r) (r_base r) s)
              (\<lambda>s1. destroy_walk (r_next r) s1)
          else destroy_walk (r_next r) s)"

definition vmm_destroy_address_space :: "u32 \<Rightarrow> 'a vmm_state_scheme \<Rightarrow> 'a vmm_state_scheme" where
  "vmm_destroy_address_space space s =
     (if space = 0 \<or> space = kernel_space s
      then kprintf ''VMM: refusing to destroy kernel address space\<newline>'' [] s
      else case destroy_walk (as_regions (spaces s space)) s of
        None \<Rightarrow> add_fault Diverges s
      | Some s1 \<Rightarrow> kfree space (pmm_free_frame (as_directory (spaces s1 space)) s1))"

definition vmm_switch_address_space :: "u32 \<Rightarrow> 'a vmm_state_scheme \<Rightarrow> 'a vmm_state_scheme" where
  "vmm_switch_address_space space s =
     (if space = 0 \<or> as_directory (spaces s space) = 0 then s
      else
        let s1 = s\<lparr>current_space := space\<rparr>
        in paging_switch_directory (as_directory (spaces s1 space)) s1)"

definition vmm_get_current_space :: "'a vmm_state_scheme \<Rightarrow> u32" where
  "vmm_get_current_space s = current_space s"

definition vmm_get_kernel_space :: "'a vmm_state_scheme \<Rightarrow> u32" where
  "vmm_get_kernel_space s = kernel_space s"

section \<open>Mapping and unmapping regions\<close>

definition undo_page :: "u32 \<Rightarrow> u32 \<Rightarrow> 'a vmm_state_scheme \<Rightarrow> 'a vmm_state_scheme" where
  "undo_page vaddr off s =
     (let phys = paging_get_physical (vaddr + off) s;
          s1 = paging_unmap_page (vaddr + off) s
      in if phys \<noteq> 0 then pmm_free_frame (phys AND 0xFFFFF000) s1 else s1)"

text \<open>The clearing loop writes through the page tables that CR3 points to: if the page is not
  mapped there, the first write is a page fault.\<close>

definition clear_page :: "u32 \<Rightarrow> 'a vmm_state_scheme \<Rightarrow> 'a vmm_state_scheme" where
  "clear_page va s =
     (if mmu_walk (mem s) (reg_cr3 (cpu s)) va = None then add_fault Page_Fault s
      else s\<lparr>mem := zero_bytes (mem s) va 4096\<rparr>)"

partial_function (option) map_pages ::
    "u32 \<Rightarrow> u32 \<Rightarrow> u32 \<Rightarrow> u32 \<Rightarrow> 'a vmm_state_scheme \<Rightarrow> (bool \<times> 'a vmm_state_scheme) option" where
  "map_pages vaddr sz page_flags off s =
     (if off < sz then
        let frame = fst (pmm_alloc_frame s);
            s1 = snd (pmm_alloc_frame s) in
        if frame = 0 then
          map_option (Pair False)
            (page_loop (undo_page vaddr) off 0 (kprintf ''VMM: out of physical memory during map\<newline>'' [] s1))
        else
          map_pages vaddr sz page_flags (off + PAGE_SIZE)
            (clear_page (vaddr + off) (paging_map_page (vaddr + off) frame page_flags s1))
      else Some (True, s))"

definition overlaps :: "u32 \<Rightarrow> u32 \<Rightarrow> vmm_region \<Rightarrow> bool" where
  "overlaps vaddr sz existing =
     (let existing_end = r_base existing + r_size existing; new_end = vaddr + sz
      in vaddr < existing_end \<and> new_end > r_base existing)"

definition vmm_map_region ::
    "u32 \<Rightarrow> u32 \<Rightarrow> u32 \<Rightarrow> u32 \<Rightarrow> vmm_region_type \<Rightarrow> 'a vmm_state_scheme \<Rightarrow> int \<times> 'a vmm_state_scheme" where
  "vmm_map_region space vaddr sz flags type s =
     (if space = 0 then (-1, s)
      else if vaddr AND (PAGE_SIZE - 1) \<noteq> 0 then (-1, s)
      else if sz AND (PAGE_SIZE - 1) \<noteq> 0 then (-1, s)
      else case chain_find (region_pool s) (overlaps vaddr sz) (as_regions (spaces s space)) of
        None \<Rightarrow> (-1, add_fault Diverges s)
      | Some (Some i) \<Rightarrow>
          (-1, kprintf ''VMM: region overlap! 0x%x-0x%x conflicts with 0x%x-0x%x\<newline>''
                 [VInt vaddr, VInt (vaddr + sz), VInt (r_base (region_pool s ! i)),
                  VInt (r_base (region_pool s ! i) + r_size (region_pool s ! i))] s)
      | Some None \<Rightarrow>
          (case map_pages vaddr sz (vmm_flags_to_page_flags flags) 0 s of
             None \<Rightarrow> (-1, add_fault Diverges s)
           | Some (False, s1) \<Rightarrow> (-1, s1)
           | Some (True, s1) \<Rightarrow>
               (case alloc_region s1 of
                  (None, s2) \<Rightarrow>
                    (case page_loop (undo_page vaddr) sz 0 s2 of
                       None \<Rightarrow> (-1, add_fault Diverges s2)
                     | Some s3 \<Rightarrow> (-1, s3))
                | (Some region, s2) \<Rightarrow> (0, insert_region space region (fill_region region vaddr sz flags type s2)))))"

definition unmap_page :: "u32 \<Rightarrow> u32 \<Rightarrow> 'a vmm_state_scheme \<Rightarrow> 'a vmm_state_scheme" where
  "unmap_page base off s =
     (let addr = base + off;
          phys = paging_get_physical addr s
      in if phys \<noteq> 0 then pmm_free_frame (phys AND 0xFFFFF000) (paging_unmap_page addr s) else s)"

definition vmm_unmap_region :: "u32 \<Rightarrow> u32 \<Rightarrow> 'a vmm_state_scheme \<Rightarrow> int \<times> 'a vmm_state_scheme" where
  "vmm_unmap_region space vaddr s =
     (if space = 0 then (-1, s)
      else case chain_find (region_pool s) (\<lambda>r. r_base r = vaddr) (as_regions (spaces s space)) of
        None \<Rightarrow> (-1, add_fault Diverges s)
      | Some None \<Rightarrow> (-1, kprintf ''VMM: no region at 0x%x to unmap\<newline>'' [VInt vaddr] s)
      | Some (Some region) \<Rightarrow>
          if r_type (region_pool s ! region) \<le> REGION_IDENTITY_MAP
          then (-1, kprintf ''VMM: refusing to unmap kernel region at 0x%x\<newline>'' [VInt vaddr] s)
          else case page_loop (unmap_page (r_base (region_pool s ! region))) (r_size (region_pool s ! region)) 0 s of
            None \<Rightarrow> (-1, add_fault Diverges s)
          | Some s1 \<Rightarrow> (0, remove_region space region s1))"

text \<open>The gap search. The candidate moves behind the region it lies in; the room for it ends at the
  next region. \<open>None\<close> inside is a search without success.\<close>

definition gap_candidate :: "u32 \<Rightarrow> vmm_region \<Rightarrow> u32" where
  "gap_candidate candidate r =
     (let region_end = r_base r + r_size r
      in if candidate \<ge> r_base r \<and> candidate < region_end then page_align_up region_end else candidate)"

definition gap_limit :: "vmm_region list \<Rightarrow> vmm_region \<Rightarrow> u32" where
  "gap_limit pool r = (case r_next r of Some n \<Rightarrow> r_base (pool ! n) | None \<Rightarrow> 0xFFFFF000)"

partial_function (option) gap_walk :: "vmm_region list \<Rightarrow> u32 \<Rightarrow> u32 \<Rightarrow> nat option \<Rightarrow> u32 option option" where
  "gap_walk pool sz candidate region =
     (if region = None then Some None
      else
        let r = pool ! the region;
            candidate1 = gap_candidate candidate r in
        if candidate1 + sz \<le> gap_limit pool r then Some (Some candidate1)
        else gap_walk pool sz candidate1 (r_next r))"

definition vmm_find_free_region :: "u32 \<Rightarrow> u32 \<Rightarrow> u32 \<Rightarrow> 'a vmm_state_scheme \<Rightarrow> u32 \<times> 'a vmm_state_scheme" where
  "vmm_find_free_region space sz start_hint s =
     (if space = 0 then (0, s)
      else
        let sz1 = page_align_up sz;
            hint = page_align_up (if start_hint = 0 then 0xD0000000 else start_hint) in
        case gap_walk (region_pool s) sz1 hint (as_regions (spaces s space)) of
          None \<Rightarrow> (0, add_fault Diverges s)
        | Some (Some candidate) \<Rightarrow> (candidate, s)
        | Some None \<Rightarrow> (0, kprintf ''VMM: no free region of size 0x%x found\<newline>'' [VInt sz1] s))"

end
