(* ===== verification/Process.thy ===== *)
theory Process
  imports Vmm
begin

text \<open>
  Processes, \<^verbatim>\<open>process.c\<close> and \<^verbatim>\<open>process.h\<close>: the table of 64 process control blocks, their allocation
  with a kernel stack, their release and lookup. A pointer to a control block is the index of
  its slot, the null pointer is \<open>None\<close>; a name is the array of its 32 characters.
\<close>

section \<open>Data\<close>

datatype process_lifecycle =
    PROCESS_UNUSED | PROCESS_READY | PROCESS_RUNNING | PROCESS_BLOCKED | PROCESS_ZOMBIE

record cpu_registers =
  cr_edi :: u32
  cr_esi :: u32
  cr_ebp :: u32
  cr_esp :: u32
  cr_ebx :: u32
  cr_edx :: u32
  cr_ecx :: u32
  cr_eax :: u32
  cr_ds :: u32
  cr_es :: u32
  cr_fs :: u32
  cr_gs :: u32
  cr_eip :: u32
  cr_cs :: u32
  cr_eflags :: u32
  cr_user_esp :: u32
  cr_user_ss :: u32

record process =
  pid :: u32
  state :: process_lifecycle
  pname :: string
  registers :: cpu_registers
  p_directory :: u32
  address_space :: u32
  kernel_stack :: u32
  kernel_esp :: u32
  priority :: u32
  parent_pid :: u32
  exit_code :: u32

record proc_state = vmm_state +
  process_table :: "process list"
  next_pid :: u32
  current_process :: "nat option"
  scheduler_enabled :: bool

abbreviation (input) MAX_PROCESSES :: nat where "MAX_PROCESSES \<equiv> 64"
abbreviation (input) PROCESS_NAME_LEN :: nat where "PROCESS_NAME_LEN \<equiv> 32"
abbreviation (input) KERNEL_STACK_SIZE :: u32 where "KERNEL_STACK_SIZE \<equiv> 8192"

section \<open>Operations\<close>

text \<open>\<^verbatim>\<open>zero_memory\<close> on a control block.\<close>

definition zero_registers :: cpu_registers where
  "zero_registers = \<lparr>cr_edi = 0, cr_esi = 0, cr_ebp = 0, cr_esp = 0, cr_ebx = 0, cr_edx = 0, cr_ecx = 0, cr_eax = 0,
     cr_ds = 0, cr_es = 0, cr_fs = 0, cr_gs = 0, cr_eip = 0, cr_cs = 0, cr_eflags = 0, cr_user_esp = 0, cr_user_ss = 0\<rparr>"

definition zero_process :: process where
  "zero_process = \<lparr>pid = 0, state = PROCESS_UNUSED, pname = replicate 32 char_nul, registers = zero_registers,
     p_directory = 0, address_space = 0, kernel_stack = 0, kernel_esp = 0, priority = 0, parent_pid = 0, exit_code = 0\<rparr>"

text \<open>The end of a string literal counts as its terminating null character.\<close>

function copy_name_from :: "nat \<Rightarrow> string \<Rightarrow> string \<Rightarrow> nat \<Rightarrow> string" where
  "copy_name_from i dest src max_len =
     (if i < max_len - 1 \<and> i < length src \<and> src ! i \<noteq> char_nul
      then copy_name_from (Suc i) (dest[i := src ! i]) src max_len
      else dest[i := char_nul])"
  by pat_completeness auto
termination
  by (relation "measure (\<lambda>(i, dest, src, max_len). length src - i)") auto

declare copy_name_from.simps [simp del]

definition copy_name :: "string \<Rightarrow> string \<Rightarrow> nat \<Rightarrow> string" where
  "copy_name dest src max_len = copy_name_from 0 dest src max_len"

text \<open>Assignments through a pointer to a control block.\<close>

definition upd_proc :: "nat \<Rightarrow> (process \<Rightarrow> process) \<Rightarrow> 'a proc_state_scheme \<Rightarrow> 'a proc_state_scheme" where
  "upd_proc slot f s = s\<lparr>process_table := (process_table s)[slot := f (process_table s ! slot)]\<rparr>"

abbreviation proc_at :: "'a proc_state_scheme \<Rightarrow> nat \<Rightarrow> process" where
  "proc_at s slot \<equiv> process_table s ! slot"

definition process_init :: "'a proc_state_scheme \<Rightarrow> 'a proc_state_scheme" where
  "process_init s =
     (let s1 = s\<lparr>process_table := replicate MAX_PROCESSES zero_process\<rparr>;
          s2 = upd_proc 0 (\<lambda>p. p\<lparr>pid := 0\<rparr>) s1;
          s3 = upd_proc 0 (\<lambda>p. p\<lparr>state := PROCESS_RUNNING\<rparr>) s2;
          s4 = upd_proc 0 (\<lambda>p. p\<lparr>pname := copy_name (pname p) ''kernel'' PROCESS_NAME_LEN\<rparr>) s3;
          s5 = upd_proc 0 (\<lambda>p. p\<lparr>p_directory := paging_get_directory s4\<rparr>) s4;
          s6 = upd_proc 0 (\<lambda>p. p\<lparr>address_space := vmm_get_kernel_space s5\<rparr>) s5;
          s7 = upd_proc 0 (\<lambda>p. p\<lparr>kernel_stack := 0, kernel_esp := 0, priority := 0, parent_pid := 0, exit_code := 0\<rparr>) s6;
          s8 = s7\<lparr>next_pid := 1, current_process := Some 0\<rparr>
      in kprintf ''[PROCESS] Subsystem initialized, PID 0 (kernel) active\<newline>'' [] s8)"

text \<open>The scan for a free slot.\<close>

definition free_slot :: "process list \<Rightarrow> nat option" where
  "free_slot table = find (\<lambda>i. state (table ! i) = PROCESS_UNUSED) [0..<MAX_PROCESSES]"

definition process_alloc :: "'a proc_state_scheme \<Rightarrow> nat option \<times> 'a proc_state_scheme" where
  "process_alloc s =
     (case free_slot (process_table s) of
        None \<Rightarrow> (None, kprintf ''[PROCESS] Table full! (max %d)\<newline>'' [VInt 64] s)
      | Some slot \<Rightarrow>
          let s1 = upd_proc slot (\<lambda>p. zero_process) s;
              s2 = (upd_proc slot (\<lambda>p. p\<lparr>pid := next_pid s1\<rparr>) s1)\<lparr>next_pid := next_pid s1 + 1\<rparr>;
              s3 = upd_proc slot (\<lambda>p. p\<lparr>state := PROCESS_READY\<rparr>) s2;
              s4 = upd_proc slot (\<lambda>p. p\<lparr>parent_pid :=
                     (case current_process s3 of Some c \<Rightarrow> pid (proc_at s3 c) | None \<Rightarrow> 0)\<rparr>) s3 in
          case kmalloc_aligned KERNEL_STACK_SIZE s4 of
            (stack, s5) \<Rightarrow>
              let s6 = upd_proc slot (\<lambda>p. p\<lparr>kernel_stack := stack\<rparr>) s5 in
              if kernel_stack (proc_at s6 slot) = 0 then
                let s7 = kprintf ''[PROCESS] Failed to allocate kernel stack for PID %u\<newline>'' [VInt (pid (proc_at s6 slot))] s6
                in (None, upd_proc slot (\<lambda>p. p\<lparr>state := PROCESS_UNUSED\<rparr>) s7)
              else
                let s7 = upd_proc slot (\<lambda>p. p\<lparr>kernel_esp := kernel_stack p + KERNEL_STACK_SIZE\<rparr>) s6
                in (Some slot, kprintf ''[PROCESS] Allocated PID %u (slot %d, kstack @ 0x%x)\<newline>''
                      [VInt (pid (proc_at s7 slot)), VInt (of_nat slot), VInt (kernel_stack (proc_at s7 slot))] s7))"

definition process_free :: "nat option \<Rightarrow> 'a proc_state_scheme \<Rightarrow> 'a proc_state_scheme" where
  "process_free proc s =
     (case proc of
        None \<Rightarrow> s
      | Some slot \<Rightarrow>
          if pid (proc_at s slot) = 0 then kprintf ''[PROCESS] BUG: Tried to free PID 0 (kernel)!\<newline>'' [] s
          else
            let old_pid = pid (proc_at s slot);
                name_copy = copy_name (replicate PROCESS_NAME_LEN char_nul) (pname (proc_at s slot)) PROCESS_NAME_LEN;
                s1 = (if kernel_stack (proc_at s slot) \<noteq> 0 then kfree (kernel_stack (proc_at s slot)) s else s);
                s2 = (if address_space (proc_at s1 slot) \<noteq> 0
                      then vmm_destroy_address_space (address_space (proc_at s1 slot)) s1 else s1);
                s3 = upd_proc slot (\<lambda>p. zero_process) s2;
                s4 = upd_proc slot (\<lambda>p. p\<lparr>state := PROCESS_UNUSED\<rparr>) s3
            in kprintf ''[PROCESS] Freed PID %u (%s)\<newline>'' [VInt old_pid, VStr name_copy] s4)"

definition process_get :: "u32 \<Rightarrow> 'a proc_state_scheme \<Rightarrow> nat option" where
  "process_get p s =
     find (\<lambda>i. state (proc_at s i) \<noteq> PROCESS_UNUSED \<and> pid (proc_at s i) = p) [0..<MAX_PROCESSES]"

definition process_current :: "'a proc_state_scheme \<Rightarrow> nat option" where
  "process_current s = current_process s"

definition process_get_by_slot :: "int \<Rightarrow> 'a proc_state_scheme \<Rightarrow> nat option" where
  "process_get_by_slot slot s =
     (if slot < 0 \<or> slot \<ge> 64 then None
      else if state (proc_at s (nat slot)) = PROCESS_UNUSED then None
      else Some (nat slot))"

definition process_set_current :: "nat option \<Rightarrow> 'a proc_state_scheme \<Rightarrow> 'a proc_state_scheme" where
  "process_set_current proc s = s\<lparr>current_process := proc\<rparr>"

text \<open>The initial stack of a kernel thread: the words that \<^verbatim>\<open>context_switch\<close> pops, and a dummy return
  address for the trampoline.\<close>

definition thread_frame :: "u32 \<Rightarrow> u32 \<Rightarrow> u32 \<Rightarrow> memory \<Rightarrow> memory" where
  "thread_frame sp trampoline entry m =
     (let m1 = store32 m (sp - 4) 0;
          m2 = store32 m1 (sp - 8) trampoline;
          m3 = store32 m2 (sp - 12) 0;
          m4 = store32 m3 (sp - 16) entry;
          m5 = store32 m4 (sp - 20) 0
      in store32 m5 (sp - 24) 0)"

definition kthread_create :: "u32 \<Rightarrow> string \<Rightarrow> 'a proc_state_scheme \<Rightarrow> nat option \<times> 'a proc_state_scheme" where
  "kthread_create entry nm s =
     (case process_alloc s of
        (None, s1) \<Rightarrow> (None, s1)
      | (Some slot, s1) \<Rightarrow>
          let s2 = upd_proc slot (\<lambda>p. p\<lparr>pname := copy_name (pname p) nm PROCESS_NAME_LEN\<rparr>) s1;
              s3 = upd_proc slot (\<lambda>p. p\<lparr>p_directory := paging_get_directory s2\<rparr>) s2;
              s4 = upd_proc slot (\<lambda>p. p\<lparr>address_space := vmm_get_kernel_space s3\<rparr>) s3;
              sp = kernel_stack (proc_at s4 slot) + KERNEL_STACK_SIZE;
              s5 = s4\<lparr>mem := thread_frame sp (kthread_trampoline_sym (sym s4)) entry (mem s4)\<rparr>;
              s6 = upd_proc slot (\<lambda>p. p\<lparr>kernel_esp := sp - 24\<rparr>) s5
          in (Some slot, kprintf ''[KTHREAD] Created '%s' (PID %u, entry @ 0x%x)\<newline>''
                [VStr (pname (proc_at s6 slot)), VInt (pid (proc_at s6 slot)), VInt entry] s6))"

section \<open>The table and the memory managers\<close>

lemma proc_kept:
  fixes s :: "'a proc_state_scheme"
  assumes "mm_erase s' = mm_erase s"
  shows "process_table s' = process_table s" "next_pid s' = next_pid s"
    "current_process s' = current_process s" "scheduler_enabled s' = scheduler_enabled s"
    "sym s' = sym s" "cpu s' = cpu s" "spaces s' = spaces s" "region_pool s' = region_pool s" "region_pool_used s' = region_pool_used s"
    "handlers s' = handlers s" "current_space s' = current_space s"
  by (rule mm_erase_field [OF assms]; simp add: mm_erase_defs)+

lemmas proc_kprintf [simp] = proc_kept [OF mm_erase_kprintf]

lemma upd_proc_fields [simp]:
  "next_pid (upd_proc i f s) = next_pid s" "current_process (upd_proc i f s) = current_process s"
  "scheduler_enabled (upd_proc i f s) = scheduler_enabled s" "mem (upd_proc i f s) = mem s"
  "cpu (upd_proc i f s) = cpu s" "sym (upd_proc i f s) = sym s" "faults (upd_proc i f s) = faults s"
  "process_table (upd_proc i f s) = (process_table s)[i := f (process_table s ! i)]"
  "spaces (upd_proc i f s) = spaces s" "region_pool (upd_proc i f s) = region_pool s"
  by (simp_all add: upd_proc_def)

text \<open>An operation of the memory managers in the middle of a change of the table.\<close>

lemma mm_erase_upd_proc: "mm_erase (upd_proc i f s) = upd_proc i f (mm_erase s)"
  by (simp add: upd_proc_def mm_erase_defs)

lemma find_upt_iff:
  "find P [0..<n] = Some i \<longleftrightarrow> i < n \<and> P i \<and> (\<forall>j < i. \<not> P j)"
proof -
  have "find P [0..<n] = Some i \<longleftrightarrow> (\<exists>k < length [0..<n]. P ([0..<n] ! k) \<and> i = [0..<n] ! k \<and> (\<forall>j < k. \<not> P ([0..<n] ! j)))"
    by (rule find_Some_iff)
  then show ?thesis by auto
qed

lemma find_upt_None: "find P [0..<n] = None \<longleftrightarrow> (\<forall>i < n. \<not> P i)"
  by (auto simp: find_None_iff)

lemma slot_used: "i < 64 \<Longrightarrow> process_get_by_slot (int i) s = (if state (proc_at s i) = PROCESS_UNUSED then None else Some i)"
  by (simp add: process_get_by_slot_def)

text \<open>The table is not part of what the memory managers know.\<close>

lemma truncate_table [simp]:
  "kheap_state.truncate (upd_proc i f s) = kheap_state.truncate s"
  "kheap_state.truncate (s\<lparr>process_table := t\<rparr>) = kheap_state.truncate s"
  "kheap_state.truncate (s\<lparr>next_pid := n\<rparr>) = kheap_state.truncate s"
  "kheap_state.truncate (s\<lparr>current_process := c\<rparr>) = kheap_state.truncate s"
  "kheap_state.truncate (s\<lparr>scheduler_enabled := b\<rparr>) = kheap_state.truncate s"
  by (simp_all add: upd_proc_def kheap_state.defs)

lemmas heap_upd_proc [simp] = heap_inv_above(1-8) [OF truncate_table(1)]

section \<open>Allocation of a control block\<close>

text \<open>The state in which \<^verbatim>\<open>process_alloc\<close> asks for the kernel stack, and the control block it returns.\<close>

definition claim_slot :: "nat \<Rightarrow> 'a proc_state_scheme \<Rightarrow> 'a proc_state_scheme" where
  "claim_slot sl s =
     (let t = (process_table s)[sl := zero_process\<lparr>pid := next_pid s, state := PROCESS_READY\<rparr>];
          parent = (case current_process s of Some c \<Rightarrow> pid (t ! c) | None \<Rightarrow> 0)
      in s\<lparr>process_table := (process_table s)[sl := zero_process\<lparr>pid := next_pid s, state := PROCESS_READY, parent_pid := parent\<rparr>],
           next_pid := next_pid s + 1\<rparr>)"

lemma free_slot_iff:
  "free_slot t = Some sl \<longleftrightarrow> sl < 64 \<and> state (t ! sl) = PROCESS_UNUSED \<and> (\<forall>j < sl. state (t ! j) \<noteq> PROCESS_UNUSED)"
  by (simp add: free_slot_def find_upt_iff)

lemma process_alloc_claims:
  assumes len: "length (process_table s) = 64" and sl: "free_slot (process_table s) = Some sl"
    and km: "kmalloc_aligned 8192 (claim_slot sl s) = (stack, s5)"
  shows "process_alloc s =
    (let s6 = upd_proc sl (\<lambda>p. p\<lparr>kernel_stack := stack\<rparr>) s5 in
     if stack = 0 then (None, upd_proc sl (\<lambda>p. p\<lparr>state := PROCESS_UNUSED\<rparr>)
         (kprintf ''[PROCESS] Failed to allocate kernel stack for PID %u\<newline>'' [VInt (next_pid s)] s6))
     else (Some sl, kprintf ''[PROCESS] Allocated PID %u (slot %d, kstack @ 0x%x)\<newline>''
         [VInt (next_pid s), VInt (of_nat sl), VInt stack] (upd_proc sl (\<lambda>p. p\<lparr>kernel_esp := stack + 8192\<rparr>) s6)))"
    "process_table s5 = process_table (claim_slot sl s)" "next_pid s5 = next_pid s + 1"
    "current_process s5 = current_process s" "scheduler_enabled s5 = scheduler_enabled s" "sym s5 = sym s"
proof -
  have slot: "sl < 64" using sl by (simp add: free_slot_iff)
  have "mm_erase s5 = mm_erase (claim_slot sl s)" using mm_erase_kmalloc_aligned [of 8192 "claim_slot sl s"] km by simp
  note kept = proc_kept [OF this]
  show "process_table s5 = process_table (claim_slot sl s)" "next_pid s5 = next_pid s + 1"
    "current_process s5 = current_process s" "scheduler_enabled s5 = scheduler_enabled s" "sym s5 = sym s"
    using kept by (simp_all add: claim_slot_def Let_def)
  let ?s1 = "upd_proc sl (\<lambda>p. zero_process) s"
  let ?s2 = "(upd_proc sl (\<lambda>p. p\<lparr>pid := next_pid ?s1\<rparr>) ?s1)\<lparr>next_pid := next_pid ?s1 + 1\<rparr>"
  let ?s3 = "upd_proc sl (\<lambda>p. p\<lparr>state := PROCESS_READY\<rparr>) ?s2"
  let ?s4 = "upd_proc sl (\<lambda>p. p\<lparr>parent_pid := (case current_process ?s3 of Some c \<Rightarrow> pid (proc_at ?s3 c) | None \<Rightarrow> 0)\<rparr>) ?s3"
  have s4: "?s4 = claim_slot sl s"
    using len slot by (simp add: claim_slot_def upd_proc_def Let_def split: option.split)
  have at: "pid (process_table s5 ! sl) = next_pid s" using kept(1) len slot by (simp add: claim_slot_def Let_def)
  have l5: "length (process_table s5) = 64" using kept(1) len by (simp add: claim_slot_def Let_def)
  show "process_alloc s = (let s6 = upd_proc sl (\<lambda>p. p\<lparr>kernel_stack := stack\<rparr>) s5 in
     if stack = 0 then (None, upd_proc sl (\<lambda>p. p\<lparr>state := PROCESS_UNUSED\<rparr>)
         (kprintf ''[PROCESS] Failed to allocate kernel stack for PID %u\<newline>'' [VInt (next_pid s)] s6))
     else (Some sl, kprintf ''[PROCESS] Allocated PID %u (slot %d, kstack @ 0x%x)\<newline>''
         [VInt (next_pid s), VInt (of_nat sl), VInt stack] (upd_proc sl (\<lambda>p. p\<lparr>kernel_esp := stack + 8192\<rparr>) s6)))"
    unfolding process_alloc_def Let_def sl option.case s4 km prod.case
    using l5 slot at by (simp add: upd_proc_def)
qed

text \<open>The effect on the table, whatever the heap does: at most one slot changes, to a process with the
  next identifier.\<close>

definition new_process :: "nat option \<Rightarrow> 'a proc_state_scheme \<Rightarrow> 'a proc_state_scheme \<Rightarrow> bool" where
  "new_process r s s' \<longleftrightarrow> current_process s' = current_process s \<and> scheduler_enabled s' = scheduler_enabled s
     \<and> (case free_slot (process_table s) of
          None \<Rightarrow> r = None \<and> process_table s' = process_table s \<and> next_pid s' = next_pid s
        | Some sl \<Rightarrow> next_pid s' = next_pid s + 1
            \<and> (\<exists>p. process_table s' = (process_table s)[sl := p] \<and> pid p = next_pid s
                 \<and> (r = Some sl \<and> state p = PROCESS_READY \<or> r = None \<and> state p = PROCESS_UNUSED)))"

lemma updated_slot: "pid p = n \<Longrightarrow> state p = st \<Longrightarrow> \<exists>q. t[sl := p] = t[sl := q] \<and> pid q = n \<and> state q = st"
  by blast

lemma process_alloc_new:
  assumes len: "length (process_table s) = 64"
  shows "new_process (fst (process_alloc s)) s (snd (process_alloc s))"
proof (cases "free_slot (process_table s)")
  case None
  then show ?thesis by (simp add: new_process_def process_alloc_def)
next
  case (Some sl)
  obtain stack s5 where km: "kmalloc_aligned 8192 (claim_slot sl s) = (stack, s5)" by fastforce
  note a = process_alloc_claims [OF len Some km]
  have sl: "sl < 64" using Some by (simp add: free_slot_iff)
  show ?thesis
    using Some a(2-5) len sl
    by (simp add: new_process_def a(1) Let_def claim_slot_def) (auto intro!: updated_slot)
qed

lemma kthread_create_new:
  assumes len: "length (process_table s) = 64"
  shows "new_process (fst (kthread_create entry nm s)) s (snd (kthread_create entry nm s))"
proof -
  obtain r s1 where pa: "process_alloc s = (r, s1)" by fastforce
  have new: "new_process r s s1" using process_alloc_new [OF len] pa by simp
  show ?thesis
  proof (cases r)
    case None
    then show ?thesis using pa new by (simp add: kthread_create_def)
  next
    case (Some sl)
    then obtain p where p: "free_slot (process_table s) = Some sl" "process_table s1 = (process_table s)[sl := p]"
        "pid p = next_pid s" "state p = PROCESS_READY" "next_pid s1 = next_pid s + 1"
        "current_process s1 = current_process s" "scheduler_enabled s1 = scheduler_enabled s"
      using new by (auto simp: new_process_def split: option.splits)
    have "sl < 64" using p(1) by (simp add: free_slot_iff)
    then show ?thesis
      using pa Some p len by (simp add: kthread_create_def Let_def new_process_def) (auto intro!: updated_slot)
  qed
qed

section \<open>Release of a control block\<close>

lemma page_loop_invariant:
  assumes "page_loop body lim off s = Some s'" and "\<And>x t. P t \<Longrightarrow> P (body x t)" and "P s"
  shows "P s'"
  using assms
proof (induction rule: page_loop.raw_induct [rotated, consumes 1, case_names step])
  case (step loop body lim off s s')
  then show ?case by (auto split: if_splits)
qed

lemma mm_erase_destroy_page [simp]: "mm_erase (destroy_page a s) = mm_erase s"
  by (simp add: destroy_page_def Let_def)

lemma mm_erase_destroy_walk:
  "destroy_walk r s = Some s' \<Longrightarrow> mm_erase s' = mm_erase s"
proof (induction rule: destroy_walk.raw_induct [rotated, consumes 1, case_names step])
  case (step walk r s s')
  show ?case
  proof (cases r)
    case (Some i)
    show ?thesis
    proof (cases "REGION_USER_CODE \<le> r_type (region_pool s ! i)")
      case True
      let ?r = "region_pool s ! i"
      obtain s1 where s1: "page_loop destroy_page (r_base ?r + r_size ?r) (r_base ?r) s = Some s1"
        "walk (r_next ?r) s1 = Some s'" using step(2) Some True by (auto simp: Let_def bind_eq_Some_conv)
      have "mm_erase s1 = mm_erase s" by (rule page_loop_invariant [OF s1(1)]) simp_all
      then show ?thesis using step(1) [OF s1(2)] by simp
    qed (use step Some in \<open>auto simp: Let_def\<close>)
  qed (use step in simp)
qed

lemma mm_erase_destroy_space [simp]: "mm_erase (vmm_destroy_address_space space s) = mm_erase s"
  by (auto simp: vmm_destroy_address_space_def mm_erase_destroy_walk split: option.split)

lemma process_free_eq:
  assumes "pid (proc_at s i) \<noteq> 0"
  obtains s2 nm where "mm_erase s2 = mm_erase s" "process_free (Some i) s =
    kprintf ''[PROCESS] Freed PID %u (%s)\<newline>'' [VInt (pid (proc_at s i)), VStr nm] (upd_proc i (\<lambda>p. zero_process) s2)"
proof -
  define s1 where "s1 = (if kernel_stack (proc_at s i) \<noteq> 0 then kfree (kernel_stack (proc_at s i)) s else s)"
  define s2 where "s2 = (if address_space (proc_at s1 i) \<noteq> 0
    then vmm_destroy_address_space (address_space (proc_at s1 i)) s1 else s1)"
  have e1: "mm_erase s1 = mm_erase s" by (simp add: s1_def)
  have e2: "mm_erase s2 = mm_erase s1" by (simp add: s2_def)
  have z: "upd_proc i (\<lambda>p. p\<lparr>state := PROCESS_UNUSED\<rparr>) (upd_proc i (\<lambda>p. zero_process) t) = upd_proc i (\<lambda>p. zero_process) t"
    for t :: "'a proc_state_scheme"
    by (cases "i < length (process_table t)") (simp_all add: upd_proc_def zero_process_def list_update_beyond)
  define nm where "nm = copy_name (replicate 32 char_nul) (pname (proc_at s i)) 32"
  have "process_free (Some i) s =
    kprintf ''[PROCESS] Freed PID %u (%s)\<newline>'' [VInt (pid (proc_at s i)), VStr nm] (upd_proc i (\<lambda>p. zero_process) s2)"
    unfolding process_free_def Let_def option.case s1_def [symmetric] s2_def [symmetric] nm_def [symmetric] z
    by (simp only: assms if_False)
  with e2 [unfolded e1] show thesis by (rule that)
qed

lemma process_free_table:
  "process_table (process_free (Some i) s) =
     (if pid (proc_at s i) = 0 then process_table s else (process_table s)[i := zero_process])
   \<and> next_pid (process_free (Some i) s) = next_pid s \<and> current_process (process_free (Some i) s) = current_process s
   \<and> scheduler_enabled (process_free (Some i) s) = scheduler_enabled s"
proof (cases "pid (proc_at s i) = 0")
  case True
  then show ?thesis by (simp add: process_free_def)
next
  case False
  obtain s2 nm where s2: "mm_erase s2 = mm_erase s" and eq: "process_free (Some i) s =
      kprintf ''[PROCESS] Freed PID %u (%s)\<newline>'' [VInt (pid (proc_at s i)), VStr nm] (upd_proc i (\<lambda>p. zero_process) s2)"
    by (rule process_free_eq [OF False])
  show ?thesis unfolding eq using False proc_kept(1-4) [OF s2] by simp
qed

section \<open>The kernel stack of a process\<close>

lemma truncate_claim [simp]: "kheap_state.truncate (claim_slot sl s) = kheap_state.truncate s"
  by (simp add: claim_slot_def Let_def)

lemmas heap_claim [simp] = heap_inv_above [OF truncate_claim]

lemma process_alloc_some:
  assumes len: "length (process_table s) = 64" and fs: "free_slot (process_table s) = Some sl"
    and km: "kmalloc_aligned 8192 (claim_slot sl s) = (stack, s5)" "stack \<noteq> 0" and inv: "heap_inv s5"
  obtains s' where "process_alloc s = (Some sl, s')" "heap_inv s'" "faults s' = faults s5" "heap_live s' = heap_live s5"
    "kernel_stack (proc_at s' sl) = stack" "kernel_esp (proc_at s' sl) = stack + 8192" "sym s' = sym s"
    "length (process_table s') = 64" "pid (proc_at s' sl) = next_pid s" "address_space (proc_at s' sl) = 0"
    "heap_ok s' = heap_ok s5" "spaces s' = spaces s" "region_pool s' = region_pool s" "region_pool_used s' = region_pool_used s"
    "handlers s' = handlers s" "current_space s' = current_space s"
proof -
  note a = process_alloc_claims [OF len fs km(1)]
  have sl: "sl < 64" using fs by (simp add: free_slot_iff)
  let ?t = "upd_proc sl (\<lambda>p. p\<lparr>kernel_esp := stack + 8192\<rparr>) (upd_proc sl (\<lambda>p. p\<lparr>kernel_stack := stack\<rparr>) s5)"
  let ?m = "''[PROCESS] Allocated PID %u (slot %d, kstack @ 0x%x)\<newline>''"
  define s' where "s' = kprintf ?m [VInt (next_pid s), VInt (of_nat sl), VInt stack] ?t"
  have run: "process_alloc s = (Some sl, s')" using a(1) km(2) by (simp add: Let_def s'_def)
  have "(of_nat sl :: u32) \<noteq> 0x80000000" using sl u32_of_nat [of sl] by (auto simp: u32_eq_iff)
  then have "kprintf_ok ?m [VInt (next_pid s), VInt (of_nat sl), VInt stack]" by simp
  note k = heap_inv_kprintf [of ?t, OF _ this, folded s'_def]
  have tab: "process_table s' = process_table ?t" "sym s' = sym ?t" unfolding s'_def by (rule proc_kprintf)+
  have "mm_erase s5 = mm_erase (claim_slot sl s)" using mm_erase_kmalloc_aligned [of 8192 "claim_slot sl s"] km by simp
  then have v: "spaces s' = spaces s" "region_pool s' = region_pool s" "region_pool_used s' = region_pool_used s"
      "handlers s' = handlers s" "current_space s' = current_space s"
    using proc_kept(7-11) [of s5 "claim_slot sl s"] by (simp_all add: s'_def claim_slot_def Let_def upd_proc_def)
  have l5: "length (process_table s5) = 64" using a(2) len by (simp add: claim_slot_def Let_def)
  have "pid (process_table s5 ! sl) = next_pid s" "address_space (process_table s5 ! sl) = 0"
    using a(2) len sl by (simp_all add: claim_slot_def Let_def zero_process_def)
  then show thesis using run k inv tab v l5 sl a(6) by (intro that [of s']) simp_all
qed

lemma process_alloc_stack:
  assumes len: "length (process_table s) = 64" and inv: "heap_inv s" and fits: "heap_fits s 12288"
    and run: "process_alloc s = (Some sl, s')"
  obtains q k where "heap_inv s'" "faults s' = faults s" "heap_live s' = insert (q, k) (heap_live s)" "q \<notin> fst ` heap_live s"
    "q \<le> unat (kernel_stack (proc_at s' sl))" "unat (kernel_stack (proc_at s' sl)) + 8192 \<le> q + k" "q + k < 4294967296"
    "page_aligned (kernel_stack (proc_at s' sl))" "kernel_stack (proc_at s' sl) \<noteq> 0"
    "kernel_esp (proc_at s' sl) = kernel_stack (proc_at s' sl) + 8192" "sym s' = sym s" "sl < 64"
    "length (process_table s') = 64"
proof -
  have fs: "free_slot (process_table s) = Some sl"
    using process_alloc_new [OF len] run by (auto simp: new_process_def split: option.splits)
  then have sl: "sl < 64" by (simp add: free_slot_iff)
  obtain stack s5 where km: "kmalloc_aligned 8192 (claim_slot sl s) = (stack, s5)" by fastforce
  have nz: "stack \<noteq> 0" using process_alloc_claims(1) [OF len fs km] run by (auto simp: Let_def)
  have inv': "heap_inv (claim_slot sl s)" and fits': "heap_fits (claim_slot sl s) (8192 + 4096)"
    using inv fits by simp_all
  obtain q k where qk: "heap_inv s5" "faults s5 = faults (claim_slot sl s)" "page_aligned stack"
      "heap_live s5 = insert (q, k) (heap_live (claim_slot sl s))" "q \<notin> fst ` heap_live (claim_slot sl s)" "q \<le> unat stack"
      "unat stack + unat (8192 :: u32) \<le> q + k" "q + k < 4294967296"
    by (rule kmalloc_aligned_spec [OF inv' fits' _ km nz]) simp
  obtain t where t: "process_alloc s = (Some sl, t)" "heap_inv t" "faults t = faults s5" "heap_live t = heap_live s5"
    "kernel_stack (proc_at t sl) = stack" "kernel_esp (proc_at t sl) = stack + 8192" "sym t = sym s" "length (process_table t) = 64"
    by (rule process_alloc_some [OF len fs km nz qk(1)])
  show thesis using t qk nz sl run by (intro that [of q k]) simp_all
qed

section \<open>Properties\<close>

definition sample_proc :: proc_state where
  "sample_proc = process_init (kheap_init (paging_init
     (vmm_state.extend (kheap_state.extend sample_kheap
       (vmm_state.fields (\<lambda>_. \<lparr>as_directory = 0, as_regions = None, as_count = 0\<rparr>) 0
         (replicate 256 \<lparr>r_base = 0, r_size = 0, r_flags = 0, r_type = REGION_FREE, r_next = None\<rparr>) 0))
       (proc_state.fields [] 0 None False))))"

lemma process_init_eq:
  "process_init s = kprintf ''[PROCESS] Subsystem initialized, PID 0 (kernel) active\<newline>'' []
     (s\<lparr>process_table := (replicate 64 zero_process)[0 := zero_process\<lparr>state := PROCESS_RUNNING,
          pname := copy_name (pname zero_process) ''kernel'' 32, p_directory := paging_get_directory s, address_space := kernel_space s\<rparr>],
        next_pid := 1, current_process := Some 0\<rparr>)"
  by (simp add: process_init_def upd_proc_def Let_def vmm_get_kernel_space_def paging_get_directory_def zero_process_def)

lemma process_init_table:
  "process_table (process_init s) = (replicate 64 zero_process)[0 := zero_process\<lparr>state := PROCESS_RUNNING,
     pname := copy_name (pname zero_process) ''kernel'' 32, p_directory := paging_get_directory s, address_space := kernel_space s\<rparr>]"
  "next_pid (process_init s) = 1" "current_process (process_init s) = Some 0"
  "scheduler_enabled (process_init s) = scheduler_enabled s" "sym (process_init s) = sym s"
  by (simp_all add: process_init_eq)

lemma process_init_heap:
  assumes "heap_inv s"
  shows "heap_inv (process_init s)" "heap_live (process_init s) = heap_live s" "faults (process_init s) = faults s"
proof -
  let ?t = "s\<lparr>process_table := (replicate 64 zero_process)[0 := zero_process\<lparr>state := PROCESS_RUNNING,
    pname := copy_name (pname zero_process) ''kernel'' 32, p_directory := paging_get_directory s, address_space := kernel_space s\<rparr>],
    next_pid := 1, current_process := Some 0\<rparr>"
  have t: "kheap_state.truncate ?t = kheap_state.truncate s" by simp
  have "kprintf_ok ''[PROCESS] Subsystem initialized, PID 0 (kernel) active\<newline>'' []" by simp
  from heap_inv_kprintf [OF _ this, of ?t] show "heap_inv (process_init s)" "heap_live (process_init s) = heap_live s"
    "faults (process_init s) = faults s"
    using assms heap_inv_above [OF t] by (simp_all only: process_init_eq)
qed

lemma process_init_ok: "heap_ok s bs \<Longrightarrow> heap_ok (process_init s) bs"
  unfolding process_init_eq by (rule heap_ok_kprintf) (auto simp: heap_ok_def)

lemma sample_proc_ok:
  "length (process_table sample_proc) = 64" "next_pid sample_proc = 1" "current_process sample_proc = Some 0"
  "heap_inv sample_proc" "heap_live sample_proc = {}" "faults sample_proc = []" "heap_ok sample_proc [(1048564, True)]"
  "free_slot (process_table sample_proc) = Some 1" "heap_end sample_proc = 0xC0500000" "sym sample_proc = sample_symbols"
proof -
  let ?boot = "vmm_state.extend (kheap_state.extend sample_kheap
       (vmm_state.fields (\<lambda>_. \<lparr>as_directory = 0, as_regions = None, as_count = 0\<rparr>) 0
         (replicate 256 \<lparr>r_base = 0, r_size = 0, r_flags = 0, r_type = REGION_FREE, r_next = None\<rparr>) 0))
       (proc_state.fields [] 0 None False)"
  have "kheap_state.truncate ?boot = sample_kheap" by (cases sample_kheap) (simp add: kheap_state.defs vmm_state.defs proc_state.defs)
  note k = sample_kheap_above [OF this]
  let ?s = "kheap_init (paging_init ?boot)"
  show tab: "length (process_table sample_proc) = 64" "next_pid sample_proc = 1" "current_process sample_proc = Some 0"
    by (simp_all add: sample_proc_def process_init_table)
  show "heap_inv sample_proc" "heap_live sample_proc = {}" "faults sample_proc = []"
    using process_init_heap [OF k(1)] k by (simp_all add: sample_proc_def)
  show ok: "heap_ok sample_proc [(1048564, True)]" using process_init_ok [OF k(5)] by (simp add: sample_proc_def)
  show "heap_end sample_proc = 0xC0500000" using heap_okD(6) [OF ok] by (simp add: u32_eq_iff)
  have "free_slot ((replicate 64 zero_process)[0 := p]) = Some 1" if "state p = PROCESS_RUNNING" for p
    using that by (simp add: free_slot_iff) (simp add: zero_process_def)
  then show "free_slot (process_table sample_proc) = Some 1" by (simp add: sample_proc_def process_init_table)
  have "sym ?s = sym (paging_init ?boot)" by (rule proc_kept(5) [OF mm_erase_kheap_init])
  also have "\<dots> = sym sample_kheap"
    by (cases sample_kheap) (simp add: paging_init_fields kheap_state.defs vmm_state.defs proc_state.defs)
  also have "\<dots> = sample_symbols"
    by (simp add: sample_kheap_def paging_state.defs sample_paging_def pmm_state.defs sample_pmm_def intr_state.defs sample_intr_def)
  finally show "sym sample_proc = sample_symbols" by (simp add: sample_proc_def process_init_table)
qed

text \<open>A failed allocation: without an unused slot nothing changes; without a stack, which means that the heap is
  full, the slot has been cleared and has used up an identifier.\<close>

definition failed_slot :: "nat \<Rightarrow> 'a proc_state_scheme \<Rightarrow> process" where
  "failed_slot sl s = zero_process\<lparr>pid := next_pid s, parent_pid :=
     (case current_process s of None \<Rightarrow> 0 | Some c \<Rightarrow> if c = sl then next_pid s else pid (proc_at s c))\<rparr>"

definition failed_process :: "'a proc_state_scheme \<Rightarrow> 'a proc_state_scheme \<Rightarrow> bool" where
  "failed_process s s' \<longleftrightarrow> (case free_slot (process_table s) of
       None \<Rightarrow> process_table s' = process_table s \<and> next_pid s' = next_pid s
     | Some sl \<Rightarrow> heap_full s 12288 \<and> process_table s' = (process_table s)[sl := failed_slot sl s]
                 \<and> next_pid s' = next_pid s + 1)"

lemma heap_full_claim: "heap_full (claim_slot sl s) = heap_full s"
  using heap_inv_above(4) [OF truncate_claim [of sl s]]
  by (simp add: heap_full_def fun_eq_iff claim_slot_def Let_def low_frames_def frame_free_def scan_limit_def)

lemma process_alloc_null:
  assumes len: "length (process_table s) = 64" and inv: "heap_inv s" and fits: "heap_fits s 12288"
    and run: "process_alloc s = (None, s')"
  shows "heap_inv s'" "faults s' = faults s" "heap_live s' = heap_live s"
    "failed_process s s'"
proof -
  have "heap_inv s' \<and> faults s' = faults s \<and> heap_live s' = heap_live s \<and> failed_process s s'"
  proof (cases "free_slot (process_table s)")
    case None
    then have "s' = kprintf ''[PROCESS] Table full! (max %d)\<newline>'' [VInt 64] s" using run by (simp add: process_alloc_def)
    then show ?thesis using heap_inv_kprintf [OF inv, of "''[PROCESS] Table full! (max %d)\<newline>''" "[VInt 64]"] None
      by (simp add: failed_process_def)
  next
    case (Some sl)
    obtain stack s5 where km: "kmalloc_aligned 8192 (claim_slot sl s) = (stack, s5)" by fastforce
    note a = process_alloc_claims [OF len Some km]
    let ?m = "''[PROCESS] Failed to allocate kernel stack for PID %u\<newline>''"
    let ?t = "upd_proc sl (\<lambda>p. p\<lparr>kernel_stack := stack\<rparr>) s5"
    have z: "stack = 0" using a(1) run by (auto simp: Let_def split: if_splits)
    then have s': "s' = upd_proc sl (\<lambda>p. p\<lparr>state := PROCESS_UNUSED\<rparr>) (kprintf ?m [VInt (next_pid s)] ?t)"
      using a(1) run by (simp add: Let_def)
    have inv': "heap_inv (claim_slot sl s)" and fits': "heap_fits (claim_slot sl s) (8192 + 4096)" using inv fits by simp_all
    note n = kmalloc_aligned_null [OF inv' fits' _ km [unfolded z]]
    have ok: "kprintf_ok ?m [VInt (next_pid s)]" by simp
    have "heap_inv ?t" "faults ?t = faults s" "heap_live ?t = heap_live s" using n by simp_all
    moreover have "heap_full s 12288"
      using kmalloc_full [OF inv' fits' kmalloc_aligned_zero [OF inv' fits' _ km [unfolded z]]] by (simp add: heap_full_claim)
    moreover have "process_table s' = (process_table s)[sl := failed_slot sl s] \<and> next_pid s' = next_pid s + 1"
      using a(2,3) len Some z unfolding s' by (auto simp: free_slot_iff claim_slot_def Let_def upd_proc_def failed_slot_def zero_process_def split: option.split)
    ultimately show ?thesis using heap_inv_kprintf [OF _ ok, of ?t] s' Some by (simp add: failed_process_def)
  qed
  then show "heap_inv s'" "faults s' = faults s" "heap_live s' = heap_live s" "failed_process s s'" by blast+
qed

lemma process_get_here:
  assumes "i < 64" and "state (proc_at s i) \<noteq> PROCESS_UNUSED"
    and "\<And>j. j < i \<Longrightarrow> state (proc_at s j) \<noteq> PROCESS_UNUSED \<Longrightarrow> pid (proc_at s j) \<noteq> pid (proc_at s i)"
  shows "process_get (pid (proc_at s i)) s = Some i"
  using assms by (auto simp: process_get_def find_upt_iff)

lemma sample_alloc:
  obtains s' where "process_alloc sample_proc = (Some 1, s')" "kernel_stack (proc_at s' 1) = 0xC0401000"
    "heap_live s' = {(0xC040000C, 12288)}" "heap_inv s'" "length (process_table s') = 64" "sym s' = sample_symbols"
    "pid (proc_at s' 1) = 1" "address_space (proc_at s' 1) = 0"
proof -
  note p = sample_proc_ok
  let ?c = "claim_slot 1 sample_proc"
  obtain ptr s5 where km: "kmalloc 12288 ?c = (ptr, s5)" by fastforce
  have "heap_ok ?c [(1048564, True)]" "heap_window ?c heap_lim" "unat (heap_end ?c) + unat (12288 :: u32) + 8192 \<le> heap_lim"
    using p(4,7,9) by (simp_all add: heap_inv_def)
  note r = kmalloc_refines [OF this(1,2) _ this(3) km]
  have fit: "first_fit heap_base 12288 [(1048564, True)] = Some (3225419788, [(12288, False), (1036264, True)])"
    by (simp add: split_free_def)
  have "unat ptr = 3225419788 \<and> heap_step ?c [(1048564, True)] s5 [(12288, False), (1036264, True)] heap_lim"
    using r fit by (auto simp: alloc_blocks_def split: if_splits)
  then have ptr: "ptr = 0xC040000C" and ok5: "heap_ok s5 [(12288, False), (1036264, True)]" "heap_window s5 heap_lim"
    by (simp_all add: u32_eq_iff heap_step_def)
  have al: "kmalloc_aligned 8192 ?c = (0xC0401000, s5)"
    using km ptr by (simp add: kmalloc_aligned_def page_align_up_def)
  have inv5: "heap_inv s5" using ok5 by (auto simp: heap_inv_def)
  have nz: "(0xC0401000 :: u32) \<noteq> 0" by simp
  obtain s' where s': "process_alloc sample_proc = (Some 1, s')" "heap_inv s'" "heap_live s' = heap_live s5"
    "kernel_stack (proc_at s' 1) = 0xC0401000" "sym s' = sym sample_proc" "length (process_table s') = 64"
    "pid (proc_at s' 1) = next_pid sample_proc" "address_space (proc_at s' 1) = 0"
    by (rule process_alloc_some [OF p(1,8) al nz inv5])
  show thesis using s' heap_live_eq [OF ok5(1)] p(2,10) by (intro that [of s']) simp_all
qed

lemma sample_fits: "heap_fits sample_proc 12288"
  using sample_proc_ok(9) by (simp add: heap_fits_def)

text \<open>
  C30. \<^verbatim>\<open>process_alloc\<close> on a well-formed heap. When it returns a process, that is the lowest unused slot, now
  ready, with the next identifier; no other slot changes. Its kernel stack is 8 KB, page-aligned and
  contained in a heap block that was not live before, so it overlaps no live block; the stack pointer
  starts at its end. When it returns null, the same heap blocks are live as before, and either no slot was
  unused and the table is unchanged, or the heap was full: then the lowest unused slot has been cleared and holds the next
  identifier and its parent's, still unused, the identifier is used up, and no other slot has changed. In both cases
  the heap stays well-formed.
\<close>

theorem process_alloc_fresh:
  assumes "length (process_table s) = 64" and "heap_inv s" and "heap_fits s 12288" and "process_alloc s = (r, s')"
  shows "heap_inv s' \<and> faults s' = faults s \<and>
    (case r of
       None \<Rightarrow> heap_live s' = heap_live s \<and> (case free_slot (process_table s) of
           None \<Rightarrow> process_table s' = process_table s \<and> next_pid s' = next_pid s
         | Some sl \<Rightarrow> heap_full s 12288 \<and> process_table s' = (process_table s)[sl := failed_slot sl s]
                     \<and> state (failed_slot sl s) = PROCESS_UNUSED \<and> next_pid s' = next_pid s + 1)
     | Some sl \<Rightarrow>
         let p = proc_at s' sl; stack = {unat (kernel_stack p)..<unat (kernel_stack p) + 8192} in
         free_slot (process_table s) = Some sl \<and> process_table s' = (process_table s)[sl := p]
         \<and> state p = PROCESS_READY \<and> pid p = next_pid s \<and> next_pid s' = next_pid s + 1
         \<and> page_aligned (kernel_stack p) \<and> kernel_esp p = kernel_stack p + 8192
         \<and> (\<exists>q k. heap_live s' = insert (q, k) (heap_live s) \<and> stack \<subseteq> {q..<q + k})
         \<and> (\<forall>(q, k) \<in> heap_live s. stack \<inter> {q..<q + k} = {}))"
proof (cases r)
  case None
  note null = process_alloc_null [OF assms(1-3) assms(4) [unfolded None]]
  then show ?thesis using None unfolding failed_process_def
    by (auto simp: failed_slot_def zero_process_def split: option.splits)
next
  case (Some sl)
  obtain q k where h: "heap_inv s'" "faults s' = faults s" "heap_live s' = insert (q, k) (heap_live s)" "q \<notin> fst ` heap_live s"
    "q \<le> unat (kernel_stack (proc_at s' sl))" "unat (kernel_stack (proc_at s' sl)) + 8192 \<le> q + k"
    "page_aligned (kernel_stack (proc_at s' sl))" "kernel_esp (proc_at s' sl) = kernel_stack (proc_at s' sl) + 8192" "sl < 64"
    by (rule process_alloc_stack [OF assms(1-3) assms(4) [unfolded Some]]) (rule that; assumption)
  have new: "free_slot (process_table s) = Some sl" "process_table s' = (process_table s)[sl := proc_at s' sl]"
      "state (proc_at s' sl) = PROCESS_READY" "pid (proc_at s' sl) = next_pid s" "next_pid s' = next_pid s + 1"
    using process_alloc_new [OF assms(1)] assms(1,4) Some h(9) by (auto simp: new_process_def split: option.splits)
  have "{q..<q + k} \<inter> {q'..<q' + k'} = {}" if "(q', k') \<in> heap_live s" for q' k'
    using that h(3,4) by (intro kheap.live_disjoint [OF h(1)]) force+
  then have "{unat (kernel_stack (proc_at s' sl))..<unat (kernel_stack (proc_at s' sl)) + 8192} \<inter> {q'..<q' + k'} = {}"
    if "(q', k') \<in> heap_live s" for q' k'
    using that h(5,6) by force
  moreover have "{unat (kernel_stack (proc_at s' sl))..<unat (kernel_stack (proc_at s' sl)) + 8192} \<subseteq> {q..<q + k}"
    using h(5,6) by auto
  ultimately show ?thesis using h(1-3,7,8) new Some by (auto simp: Let_def)
qed

theorem process_alloc_fresh_witness:
  "heap_inv sample_proc \<and> heap_fits sample_proc 12288 \<and> fst (process_alloc sample_proc) = Some 1
   \<and> pid (proc_at (snd (process_alloc sample_proc)) 1) = 1"
proof -
  obtain s' where s': "process_alloc sample_proc = (Some 1, s')" by (rule sample_alloc)
  from process_alloc_fresh [OF sample_proc_ok(1,4) sample_fits s'] s' show ?thesis
    using sample_proc_ok(2,4) sample_fits by (simp add: Let_def)
qed

text \<open>
  C39. \<^verbatim>\<open>process_free\<close> does not give the kernel stack back. The stack was allocated with \<^verbatim>\<open>kmalloc_aligned\<close>, which
  moves the pointer up to a page boundary; \<^verbatim>\<open>kfree\<close> is called on the moved pointer and takes the bytes
  before it, inside the block, for the header. When the pointer was moved by at least a header, the slot
  becomes unused while the block that holds the stack is still allocated in the list of blocks, whatever the
  memory contains.
\<close>

theorem process_free_leaks_stack:
  assumes "heap_inv s" and "(q, k) \<in> heap_live s" and "q + 12 \<le> unat (kernel_stack (proc_at s i))"
    and "unat (kernel_stack (proc_at s i)) \<le> q + k" and "pid (proc_at s i) \<noteq> 0" and "i < length (process_table s)"
    and "address_space (proc_at s i) \<in> {0, kernel_space s}"
  shows "state (proc_at (process_free (Some i) s) i) = PROCESS_UNUSED
    \<and> (\<exists>bs. block_seg (mem (process_free (Some i) s)) (unat (heap_end s)) heap_base bs (unat (heap_end s))
          \<and> allocs heap_base bs = heap_live s)"
proof -
  obtain bs where bs: "heap_ok s bs" "heap_live s = allocs heap_base bs" by (rule heap_inv_blocks [OF assms(1)])
  let ?p = "kernel_stack (proc_at s i)"
  obtain bs' where bs': "block_seg (mem (kfree ?p s)) (unat (heap_end s)) heap_base bs' (unat (heap_end s))"
    "allocs heap_base bs' = allocs heap_base bs"
    by (rule kfree_inside [OF bs(1) assms(2) [unfolded bs(2)] assms(3,4)]) simp
  have nz: "?p \<noteq> 0" using assms(3) by auto
  note kept = proc_kept [OF mm_erase_kfree [of ?p s]]
  have "mem (vmm_destroy_address_space (kernel_space s) (kfree ?p s)) = mem (kfree ?p s)"
    by (simp add: vmm_destroy_address_space_def kept)
  then have "address_space (proc_at s i) \<noteq> 0 \<longrightarrow>
      mem (vmm_destroy_address_space (address_space (proc_at s i)) (kfree ?p s)) = mem (kfree ?p s)" using assms(7) by auto
  then have "mem (process_free (Some i) s) = mem (kfree ?p s)"
    using assms(5) nz kept unfolding process_free_def Let_def option.case by simp
  moreover have "state (proc_at (process_free (Some i) s) i) = PROCESS_UNUSED"
    using process_free_table [of i s] assms(5,6) by (simp add: zero_process_def)
  ultimately show ?thesis using bs' bs(2) by auto
qed

theorem process_free_leaks_stack_witness:
  "\<exists>s. process_alloc sample_proc = (Some 1, s) \<and> heap_live s = {(0xC040000C, 12288)}
     \<and> state (proc_at (process_free (Some 1) s) 1) = PROCESS_UNUSED
     \<and> (\<exists>bs. block_seg (mem (process_free (Some 1) s)) (unat (heap_end s)) heap_base bs (unat (heap_end s))
          \<and> allocs heap_base bs = {(0xC040000C, 12288)})"
proof -
  obtain s where s: "process_alloc sample_proc = (Some 1, s)" "kernel_stack (proc_at s 1) = 0xC0401000"
    "heap_live s = {(0xC040000C, 12288)}" "heap_inv s" "length (process_table s) = 64"
    "pid (proc_at s 1) = 1" "address_space (proc_at s 1) = 0" by (rule sample_alloc)
  show ?thesis using process_free_leaks_stack [OF s(4), of "0xC040000C" 12288 1] s by auto
qed

end
