(* ===== verification/Scheduler.thy ===== *)
theory Scheduler
  imports Process
begin

text \<open>
  The round-robin scheduler, \<^verbatim>\<open>scheduler.c\<close>, the stack switch of \<^verbatim>\<open>context_switch.asm\<close>, and the end
  of a thread, \<^verbatim>\<open>kthread_exit\<close>. The assembly is modelled instruction by instruction on the
  registers of the machine state: a push stores a word below the stack pointer in memory. The
  two arguments of \<^verbatim>\<open>context_switch\<close> are passed to the definition directly. After a switch the
  processor is at \<open>reg_eip\<close>, in the middle of \<^verbatim>\<open>schedule\<close> for a thread that ran before, at
  \<^verbatim>\<open>kthread_trampoline\<close> for a new one.
\<close>

section \<open>The stack switch\<close>

definition push :: "u32 \<Rightarrow> 'a pmm_state_scheme \<Rightarrow> 'a pmm_state_scheme" where
  "push v s =
     (let sp = reg_esp (cpu s) - 4
      in s\<lparr>cpu := (cpu s)\<lparr>reg_esp := sp\<rparr>, mem := store32 (mem s) sp v\<rparr>)"

definition pop :: "'a pmm_state_scheme \<Rightarrow> u32 \<times> 'a pmm_state_scheme" where
  "pop s = (load32 (mem s) (reg_esp (cpu s)), s\<lparr>cpu := (cpu s)\<lparr>reg_esp := reg_esp (cpu s) + 4\<rparr>\<rparr>)"

text \<open>\<^verbatim>\<open>call\<close> pushes the return address; \<^verbatim>\<open>ret\<close> pops it.\<close>

definition context_switch :: "nat \<Rightarrow> u32 \<Rightarrow> 'a proc_state_scheme \<Rightarrow> 'a proc_state_scheme" where
  "context_switch old new_esp s =
     (let s1 = push (reg_ebp (cpu s)) s;
          s2 = push (reg_ebx (cpu s1)) s1;
          s3 = push (reg_esi (cpu s2)) s2;
          s4 = push (reg_edi (cpu s3)) s3;
          s5 = upd_proc old (\<lambda>p. p\<lparr>kernel_esp := reg_esp (cpu s4)\<rparr>) s4;
          s6 = s5\<lparr>cpu := (cpu s5)\<lparr>reg_esp := new_esp\<rparr>\<rparr>;
          (edi, s7) = pop s6;
          s8 = s7\<lparr>cpu := (cpu s7)\<lparr>reg_edi := edi\<rparr>\<rparr>;
          (esi, s9) = pop s8;
          s10 = s9\<lparr>cpu := (cpu s9)\<lparr>reg_esi := esi\<rparr>\<rparr>;
          (ebx, s11) = pop s10;
          s12 = s11\<lparr>cpu := (cpu s11)\<lparr>reg_ebx := ebx\<rparr>\<rparr>;
          (ebp, s13) = pop s12;
          s14 = s13\<lparr>cpu := (cpu s13)\<lparr>reg_ebp := ebp\<rparr>\<rparr>;
          (eip, s15) = pop s14
      in s15\<lparr>cpu := (cpu s15)\<lparr>reg_eip := eip\<rparr>\<rparr>)"

text \<open>\<^verbatim>\<open>sti\<close> and the call of the thread's function through \<^verbatim>\<open>ebx\<close>.\<close>

definition kthread_trampoline :: "'a proc_state_scheme \<Rightarrow> 'a proc_state_scheme" where
  "kthread_trampoline s =
     (let s1 = push (trampoline_resume_sym (sym s)) (hw_emit Sti s)
      in s1\<lparr>cpu := (cpu s1)\<lparr>reg_eip := reg_ebx (cpu s1)\<rparr>\<rparr>)"

section \<open>The scheduler\<close>

definition scheduler_init :: "'a proc_state_scheme \<Rightarrow> 'a proc_state_scheme" where
  "scheduler_init s =
     kprintf ''[SCHEDULER] Round Robin scheduler initialized\<newline>'' [] (s\<lparr>scheduler_enabled := True\<rparr>)"

text \<open>The two scans of \<^verbatim>\<open>schedule\<close>: the slot of the current process, and the first ready one from it on.\<close>

definition slot_of :: "nat \<Rightarrow> 'a proc_state_scheme \<Rightarrow> nat option" where
  "slot_of current s = find (\<lambda>i. process_get_by_slot (int i) s = Some current) [0..<MAX_PROCESSES]"

definition next_ready :: "nat \<Rightarrow> 'a proc_state_scheme \<Rightarrow> nat option" where
  "next_ready current_slot s =
     map_option (\<lambda>i. (current_slot + i) mod MAX_PROCESSES)
       (find (\<lambda>i. case process_get_by_slot (int ((current_slot + i) mod MAX_PROCESSES)) s of
                    Some p \<Rightarrow> state (proc_at s p) = PROCESS_READY
                  | None \<Rightarrow> False) [0..<MAX_PROCESSES])"

text \<open>The changes of \<^verbatim>\<open>schedule\<close> before the stack switch: the process states and the current process, and the
  address space if it is another one.\<close>

definition switch_states :: "nat \<Rightarrow> nat \<Rightarrow> 'a proc_state_scheme \<Rightarrow> 'a proc_state_scheme" where
  "switch_states current next s =
     (let s1 = (if state (proc_at s current) = PROCESS_RUNNING
                then upd_proc current (\<lambda>p. p\<lparr>state := PROCESS_READY\<rparr>) s else s)
      in process_set_current (Some next) (upd_proc next (\<lambda>p. p\<lparr>state := PROCESS_RUNNING\<rparr>) s1))"

definition switch_memory :: "nat \<Rightarrow> nat \<Rightarrow> 'a proc_state_scheme \<Rightarrow> 'a proc_state_scheme" where
  "switch_memory current next s =
     (if p_directory (proc_at s next) \<noteq> p_directory (proc_at s current)
      then vmm_switch_address_space (address_space (proc_at s next)) s else s)"

definition schedule :: "'a proc_state_scheme \<Rightarrow> 'a proc_state_scheme" where
  "schedule s =
     (if \<not> scheduler_enabled s then s
      else case process_current s of
        None \<Rightarrow> s
      | Some current \<Rightarrow>
          (case slot_of current s of
             None \<Rightarrow> s
           | Some current_slot \<Rightarrow>
               (case next_ready current_slot s of
                  None \<Rightarrow> s
                | Some next_slot \<Rightarrow>
                    (case process_get_by_slot (int next_slot) s of
                       None \<Rightarrow> add_fault Null_Deref s
                     | Some next \<Rightarrow>
                         let s4 = switch_memory current next (switch_states current next s);
                             s5 = push (schedule_resume_sym (sym s4)) s4
                         in context_switch current (kernel_esp (proc_at s5 next)) s5))))"

text \<open>The endless \<^verbatim>\<open>hlt\<close> loop behind the call of \<^verbatim>\<open>schedule\<close> is entered only if there is no process
  to switch to; the model records its first instruction.\<close>

definition kthread_exit :: "'a proc_state_scheme \<Rightarrow> 'a proc_state_scheme" where
  "kthread_exit s =
     (let s1 = hw_emit Cli s;
          s2 = (case process_current s1 of
                  Some proc \<Rightarrow>
                    upd_proc proc (\<lambda>p. p\<lparr>state := PROCESS_ZOMBIE\<rparr>)
                      (kprintf ''[KTHREAD] '%s' (PID %u) exited\<newline>''
                        [VStr (pname (proc_at s1 proc)), VInt (pid (proc_at s1 proc))] s1)
                | None \<Rightarrow> s1);
          s3 = schedule s2
      in if current_process s3 = current_process s2 then hw_emit Hlt s3 else s3)"

text \<open>The rest of the trampoline, when the function of a thread has returned to it: the call of \<^verbatim>\<open>kthread_exit\<close>, a near
  call of five bytes.\<close>

definition kthread_return :: "'a proc_state_scheme \<Rightarrow> 'a proc_state_scheme" where
  "kthread_return s = kthread_exit (push (trampoline_resume_sym (sym s) + 5) s)"

section \<open>Round robin\<close>

text \<open>The scheduling policy on the list of the process states and the current slot.\<close>

definition proc_states :: "'a proc_state_scheme \<Rightarrow> process_lifecycle list" where
  "proc_states s = map state (process_table s)"

definition rr_next :: "process_lifecycle list \<Rightarrow> nat \<Rightarrow> nat option" where
  "rr_next sts c = map_option (\<lambda>i. (c + i) mod 64) (find (\<lambda>i. sts ! ((c + i) mod 64) = PROCESS_READY) [0..<64])"

definition rr_step :: "process_lifecycle list \<Rightarrow> nat \<Rightarrow> process_lifecycle list \<times> nat" where
  "rr_step sts c =
     (case rr_next sts c of
        None \<Rightarrow> (sts, c)
      | Some n \<Rightarrow> ((if sts ! c = PROCESS_RUNNING then sts[c := PROCESS_READY] else sts)[n := PROCESS_RUNNING], n))"

text \<open>The scheduler works on a table of 64 slots with a current process that has not been freed.\<close>

definition sched_ok :: "'a proc_state_scheme \<Rightarrow> bool" where
  "sched_ok s \<longleftrightarrow> scheduler_enabled s \<and> length (process_table s) = 64
     \<and> (\<exists>c < 64. current_process s = Some c \<and> state (proc_at s c) \<noteq> PROCESS_UNUSED)"

lemma slot_of_current:
  assumes "c < 64" and "state (proc_at s c) \<noteq> PROCESS_UNUSED"
  shows "slot_of c s = Some c"
  using assms by (auto simp: slot_of_def find_upt_iff slot_used split: if_splits)

lemma next_ready_eq:
  assumes "length (process_table s) = 64"
  shows "next_ready c s = rr_next (proc_states s) c"
proof -
  have "(case process_get_by_slot (int ((c + i) mod 64)) s of Some p \<Rightarrow> state (proc_at s p) = PROCESS_READY | None \<Rightarrow> False)
      = (proc_states s ! ((c + i) mod 64) = PROCESS_READY)" for i
    using assms by (simp add: slot_used proc_states_def)
  then show ?thesis unfolding next_ready_def rr_next_def by (simp only:)
qed

lemma push_fields [simp]:
  "process_table (push v s) = process_table s" "current_process (push v s) = current_process s"
  "scheduler_enabled (push v s) = scheduler_enabled s" "sym (push v s) = sym s"
  "process_table (snd (pop s)) = process_table s" "current_process (snd (pop s)) = current_process s"
  "scheduler_enabled (snd (pop s)) = scheduler_enabled s"
  by (simp_all add: push_def pop_def Let_def)

lemma context_switch_table:
  "process_table (context_switch old new_esp s) =
     (process_table s)[old := (process_table s ! old)\<lparr>kernel_esp := reg_esp (cpu s) - 16\<rparr>]"
  "current_process (context_switch old new_esp s) = current_process s"
  "scheduler_enabled (context_switch old new_esp s) = scheduler_enabled s"
  by (simp_all add: context_switch_def Let_def split_beta) (simp add: push_def Let_def)

lemma switch_space_table [simp]:
  "process_table (vmm_switch_address_space sp s) = process_table s"
  "current_process (vmm_switch_address_space sp s) = current_process s"
  "scheduler_enabled (vmm_switch_address_space sp s) = scheduler_enabled s"
  by (simp_all add: vmm_switch_address_space_def paging_switch_directory_def paging_load_directory_def hw_emit_def Let_def)

lemma rr_next_Some:
  assumes "rr_next sts c = Some n"
  obtains i where "i < 64" "n = (c + i) mod 64" "sts ! n = PROCESS_READY"
    "\<And>j. j < i \<Longrightarrow> sts ! ((c + j) mod 64) \<noteq> PROCESS_READY"
  using assms by (auto simp: rr_next_def find_upt_iff)

lemma schedule_cases:
  assumes "scheduler_enabled s" and len: "length (process_table s) = 64"
    and c: "c < 64" "current_process s = Some c" "state (proc_at s c) \<noteq> PROCESS_UNUSED"
  shows "schedule s = (case rr_next (proc_states s) c of
      None \<Rightarrow> s
    | Some n \<Rightarrow>
        let s5 = push (schedule_resume_sym (sym s)) (switch_memory c n (switch_states c n s))
        in context_switch c (kernel_esp (proc_at s n)) s5)"
proof (cases "rr_next (proc_states s) c")
  case None
  then show ?thesis
    using assms by (simp add: schedule_def process_current_def slot_of_current next_ready_eq)
next
  case (Some n)
  then have n: "n < 64" "state (proc_at s n) = PROCESS_READY"
    using len by (auto elim!: rr_next_Some simp: proc_states_def)
  have sym: "sym (vmm_switch_address_space sp t) = sym t" for sp and t :: "'a proc_state_scheme"
    by (simp add: vmm_switch_address_space_def paging_switch_directory_def paging_load_directory_def hw_emit_def Let_def)
  have esp: "kernel_esp (process_table (switch_states c n s) ! n) = kernel_esp (proc_at s n)"
    using n c len by (simp add: switch_states_def Let_def process_set_current_def nth_list_update)
  show ?thesis
    using assms Some n esp
    by (simp add: schedule_def process_current_def slot_of_current next_ready_eq slot_used Let_def
        switch_memory_def sym) (simp_all add: switch_states_def process_set_current_def Let_def)
qed

lemma schedule_states:
  assumes "scheduler_enabled s" and len: "length (process_table s) = 64" and "c < 64"
    and "current_process s = Some c" and "state (proc_at s c) \<noteq> PROCESS_UNUSED"
  shows "proc_states (schedule s) = fst (rr_step (proc_states s) c)"
    "current_process (schedule s) = Some (snd (rr_step (proc_states s) c))"
    "scheduler_enabled (schedule s)" "length (process_table (schedule s)) = 64"
proof -
  have same: "map state (xs[i := (xs ! i)\<lparr>kernel_esp := v\<rparr>]) = map state xs" for xs i v
    by (cases "i < length xs") (simp_all add: map_update list_update_same_conv list_update_beyond)
  have sw: "map state (process_table (switch_states c n s)) =
      (if proc_states s ! c = PROCESS_RUNNING then (proc_states s)[c := PROCESS_READY] else proc_states s)[n := PROCESS_RUNNING]" for n
    using assms by (simp add: switch_states_def process_set_current_def proc_states_def map_update)
  have vars: "current_process (switch_states c n s) = Some n" "scheduler_enabled (switch_states c n s) = scheduler_enabled s"
    "length (process_table (switch_states c n s)) = 64" for n
    using len by (simp_all add: switch_states_def process_set_current_def)
  have mem: "process_table (switch_memory c n t) = process_table t" "current_process (switch_memory c n t) = current_process t"
    "scheduler_enabled (switch_memory c n t) = scheduler_enabled t" for n and t :: "'a proc_state_scheme"
    by (simp_all add: switch_memory_def)
  show "proc_states (schedule s) = fst (rr_step (proc_states s) c)"
    "current_process (schedule s) = Some (snd (rr_step (proc_states s) c))"
    "scheduler_enabled (schedule s)" "length (process_table (schedule s)) = 64"
    unfolding schedule_cases [OF assms] proc_states_def [of "schedule s"] rr_step_def
    using assms
    by (auto simp: Let_def context_switch_table mem vars same sw proc_states_def split: option.split)
qed

lemma rr_step_one:
  assumes len: "length sts = 64" and c: "c < 64" and one: "\<forall>i < 64. sts ! i = PROCESS_RUNNING \<longrightarrow> i = c"
    and step: "rr_step sts c = (sts', n)"
  shows "length sts' = 64 \<and> n < 64 \<and> (\<forall>i < 64. sts' ! i = PROCESS_RUNNING \<longrightarrow> i = n)
    \<and> (sts' ! n = PROCESS_RUNNING \<or> sts' = sts \<and> n = c)"
proof (cases "rr_next sts c")
  case None
  then show ?thesis using assms by (simp add: rr_step_def)
next
  case (Some n')
  have "n' < 64" using Some by (auto elim!: rr_next_Some)
  have eq: "n = n'" "sts' = (if sts ! c = PROCESS_RUNNING then sts[c := PROCESS_READY] else sts)[n' := PROCESS_RUNNING]"
    using arg_cong [OF step, of snd] arg_cong [OF step [symmetric], of fst] Some
    by (simp_all only: rr_step_def option.case fst_conv snd_conv)
  have "i = n" if i: "i < 64" and run: "sts' ! i = PROCESS_RUNNING" for i
  proof (rule ccontr)
    assume "i \<noteq> n"
    then have "sts ! i = PROCESS_RUNNING \<and> (i = c \<longrightarrow> sts ! c \<noteq> PROCESS_RUNNING)"
      using run len i c eq(1) unfolding eq(2) by (simp add: nth_list_update split: if_splits)
    then show False using one i by blast
  qed
  then show ?thesis using \<open>n' < 64\<close> len eq by simp
qed

text \<open>The number of slots from the current one to another, going round.\<close>

definition rr_dist :: "nat \<Rightarrow> nat \<Rightarrow> nat" where
  "rr_dist c j = (j + 64 - c) mod 64"

lemma rr_dist_eq: "c < 64 \<Longrightarrow> j < 64 \<Longrightarrow> rr_dist c j = (if c \<le> j then j - c else j + 64 - c)"
  by (auto simp: rr_dist_def mod_if)

lemma mod_64: "a < 64 \<Longrightarrow> b < 64 \<Longrightarrow> (a + b) mod 64 = (if a + b < 64 then a + b else a + b - 64)" for a b :: nat
  by (simp add: mod_if)

lemma rr_progress:
  assumes len: "length sts = 64" and c: "c < 64" "sts ! c \<noteq> PROCESS_READY" and j: "j < 64" "sts ! j = PROCESS_READY"
    and step: "rr_step sts c = (sts', n)"
  shows "n = j \<or> sts' ! j = PROCESS_READY \<and> rr_dist n j < rr_dist c j"
proof -
  let ?d = "rr_dist c j"
  have d: "?d < 64" "(c + ?d) mod 64 = j" using c j by (auto simp: rr_dist_eq mod_64)
  then have "rr_next sts c \<noteq> None" using j(2) by (auto simp: rr_next_def find_upt_None)
  then obtain n' where n': "rr_next sts c = Some n'" by auto
  obtain i where i: "i < 64" "n' = (c + i) mod 64" "sts ! n' = PROCESS_READY"
    "\<And>k. k < i \<Longrightarrow> sts ! ((c + k) mod 64) \<noteq> PROCESS_READY"
    by (rule rr_next_Some [OF n']) (rule that; assumption)
  have nn: "n = n'" using step n' by (simp add: rr_step_def)
  have "i \<noteq> 0" using i(2,3) c by (metis add_0_right mod_less)
  moreover have "i \<le> ?d" using i(4) [of ?d] d(2) j(2) by force
  ultimately consider "i = ?d" | "0 < i" "i < ?d" by linarith
  then show ?thesis
  proof cases
    case 1
    then show ?thesis using i(2) d(2) nn by simp
  next
    case 2
    have dist: "rr_dist n j = ?d - i"
      using 2 d c j i(1,2) by (auto simp: nn rr_dist_eq mod_64 split: if_splits)
    have "j \<noteq> c" using j(2) c(2) by auto
    moreover have "j \<noteq> n" using 2 dist by (auto simp: rr_dist_def)
    ultimately have "sts' ! j = PROCESS_READY"
      using step n' nn j len by (auto simp: rr_step_def nth_list_update)
    then show ?thesis using 2 dist by simp
  qed
qed

section \<open>Saving and restoring a thread\<close>

text \<open>The five words that a suspended thread has on its stack, and the registers they stand for.\<close>

definition saved_frame :: "memory \<Rightarrow> u32 \<Rightarrow> cpu_regs \<Rightarrow> bool" where
  "saved_frame m k r \<longleftrightarrow> load32 m k = reg_edi r \<and> load32 m (k + 4) = reg_esi r \<and> load32 m (k + 8) = reg_ebx r
     \<and> load32 m (k + 12) = reg_ebp r \<and> load32 m (k + 16) = reg_eip r \<and> k + 20 = reg_esp r"

text \<open>The memory after a thread with the given registers has saved them.\<close>

definition save_regs :: "cpu_regs \<Rightarrow> u32 \<Rightarrow> memory \<Rightarrow> memory" where
  "save_regs r ret m =
     (let e = reg_esp r
      in store32 (store32 (store32 (store32 (store32 m (e - 4) ret) (e - 8) (reg_ebp r)) (e - 12) (reg_ebx r))
           (e - 16) (reg_esi r)) (e - 20) (reg_edi r))"

text \<open>The words below one stack pointer are apart from the frame at another.\<close>

definition frames_apart :: "u32 \<Rightarrow> u32 \<Rightarrow> bool" where
  "frames_apart e k \<longleftrightarrow> (\<forall>i \<in> {4, 8, 12, 16, 20}. \<forall>j \<in> {0, 4, 8, 12, 16}. sep4 (e - i) (k + j))"

lemma sep4_offset: "sep4 (e - a) (e - b) \<longleftrightarrow> 4 \<le> unat (a - b) \<and> 4 \<le> unat (b - a)" for e a b :: u32
proof -
  have "e - b - (e - a) = a - b" "e - a - (e - b) = b - a" by simp_all
  then show ?thesis by (simp only: sep4_def)
qed

lemma save_regs_frame: "saved_frame (save_regs r ret m) (reg_esp r - 20) (r\<lparr>reg_eip := ret\<rparr>)"
proof -
  have at: "reg_esp r - 20 + 4 = reg_esp r - 16" "reg_esp r - 20 + 8 = reg_esp r - 12"
    "reg_esp r - 20 + 12 = reg_esp r - 8" "reg_esp r - 20 + 16 = reg_esp r - 4" by simp_all
  show ?thesis
    unfolding saved_frame_def save_regs_def Let_def at
    by (simp add: load32_store32_sep sep4_offset)
qed

lemma save_regs_other:
  assumes "frames_apart (reg_esp r) k"
  shows "saved_frame (save_regs r ret m) k r' \<longleftrightarrow> saved_frame m k r'"
proof -
  have "load32 (save_regs r ret m) (k + j) = load32 m (k + j)" if "j \<in> {0, 4, 8, 12, 16}" for j
  proof -
    have "sep4 (reg_esp r - 4) (k + j)" "sep4 (reg_esp r - 8) (k + j)" "sep4 (reg_esp r - 12) (k + j)"
      "sep4 (reg_esp r - 16) (k + j)" "sep4 (reg_esp r - 20) (k + j)"
      using assms that unfolding frames_apart_def by blast+
    then show ?thesis by (simp only: save_regs_def Let_def load32_store32_sep)
  qed
  from this [of 0] this [of 4] this [of 8] this [of 12] this [of 16] show ?thesis
    by (simp add: saved_frame_def)
qed

text \<open>What \<^verbatim>\<open>call context_switch\<close> does to memory and registers.\<close>

lemma context_switch_eq:
  defines "m \<equiv> \<lambda>s ret. save_regs (cpu s) ret (mem s)"
  shows "context_switch old k (push ret s) = upd_proc old (\<lambda>p. p\<lparr>kernel_esp := reg_esp (cpu s) - 20\<rparr>)
    (s\<lparr>mem := m s ret, cpu := (cpu s)\<lparr>reg_esp := k + 20, reg_edi := load32 (m s ret) k,
       reg_esi := load32 (m s ret) (k + 4), reg_ebx := load32 (m s ret) (k + 8),
       reg_ebp := load32 (m s ret) (k + 12), reg_eip := load32 (m s ret) (k + 16)\<rparr>\<rparr>)"
proof -
  define c where "c = cpu s"
  define m0 where "m0 = save_regs c ret (mem s)"
  let ?s1 = "push (reg_edi c) (push (reg_esi c) (push (reg_ebx c) (push (reg_ebp c) (push ret s))))"
  have s1: "?s1 = s\<lparr>cpu := c\<lparr>reg_esp := reg_esp c - 20\<rparr>, mem := m0\<rparr>"
    by (simp add: push_def Let_def c_def m0_def save_regs_def)
  have regs: "reg_ebp (cpu (push v t)) = reg_ebp (cpu t)" "reg_ebx (cpu (push v t)) = reg_ebx (cpu t)"
    "reg_esi (cpu (push v t)) = reg_esi (cpu t)" "reg_edi (cpu (push v t)) = reg_edi (cpu t)"
    for v and t :: "'a proc_state_scheme" by (simp_all add: push_def Let_def)
  show ?thesis
    unfolding context_switch_def Let_def regs c_def [symmetric] s1
    by (cases s) (simp add: pop_def upd_proc_def m_def m0_def c_def add.commute)
qed

lemma context_switch_regs:
  assumes "saved_frame (save_regs (cpu s) ret (mem s)) k r"
  shows "mem (context_switch old k (push ret s)) = save_regs (cpu s) ret (mem s)"
    and "cpu (context_switch old k (push ret s)) = (cpu s)\<lparr>reg_esp := reg_esp r, reg_edi := reg_edi r,
       reg_esi := reg_esi r, reg_ebx := reg_ebx r, reg_ebp := reg_ebp r, reg_eip := reg_eip r\<rparr>"
  using assms unfolding context_switch_eq saved_frame_def by simp_all

section \<open>The scheduler's contract\<close>

lemma sched_okE:
  assumes "sched_ok s" and "current_process s = Some c"
  shows "scheduler_enabled s" "length (process_table s) = 64" "c < 64" "state (proc_at s c) \<noteq> PROCESS_UNUSED"
  using assms by (auto simp: sched_ok_def)

lemma schedule_rr:
  assumes "sched_ok s" and "current_process s = Some c"
  shows "rr_step (proc_states s) c = (proc_states (schedule s), the (current_process (schedule s)))"
    "sched_ok (schedule s)"
proof -
  note ok = sched_okE [OF assms]
  note st = schedule_states [OF ok(1-3) assms(2) ok(4)]
  show step: "rr_step (proc_states s) c = (proc_states (schedule s), the (current_process (schedule s)))"
    by (simp add: st(1,2))
  define n where "n = snd (rr_step (proc_states s) c)"
  have len: "length (proc_states s) = 64" using ok(2) by (simp add: proc_states_def)
  have n: "n < 64 \<and> fst (rr_step (proc_states s) c) ! n \<noteq> PROCESS_UNUSED"
  proof (cases "rr_next (proc_states s) c")
    case None
    then show ?thesis using ok by (simp add: n_def rr_step_def proc_states_def)
  next
    case (Some m)
    then have "m < 64" by (auto elim!: rr_next_Some)
    then show ?thesis using Some len by (simp add: n_def rr_step_def)
  qed
  have "proc_states (schedule s) ! n = state (proc_at (schedule s) n)" using n st(4) by (simp add: proc_states_def)
  then have "state (proc_at (schedule s) n) \<noteq> PROCESS_UNUSED" using n st(1) by simp
  then show "sched_ok (schedule s)" using st n by (simp add: sched_ok_def n_def)
qed

text \<open>Between two ticks the running code may change anything but its being the current process; a
  process that is ready stays ready.\<close>

definition between_ticks :: "nat \<Rightarrow> 'a proc_state_scheme \<Rightarrow> 'a proc_state_scheme \<Rightarrow> bool" where
  "between_ticks j s t \<longleftrightarrow> sched_ok t \<and> current_process t = current_process s
     \<and> (\<forall>c. current_process t = Some c \<longrightarrow> state (proc_at t c) \<noteq> PROCESS_READY)
     \<and> (state (proc_at s j) = PROCESS_READY \<longrightarrow> state (proc_at t j) = PROCESS_READY)"

lemma ready_runs:
  assumes j: "j < 64" and btw: "\<And>k. between_ticks j (\<sigma> k) (\<tau> k)" and tick: "\<And>k. \<sigma> (Suc k) = schedule (\<tau> k)"
  shows "current_process (\<sigma> k) = Some c \<Longrightarrow> c < 64 \<Longrightarrow> state (proc_at (\<sigma> k) j) = PROCESS_READY \<Longrightarrow> rr_dist c j \<le> d \<Longrightarrow>
    \<exists>i \<le> d. current_process (\<sigma> (k + i)) = Some j"
proof (induction d arbitrary: k c)
  case 0
  then have "c = j" using j by (auto simp: rr_dist_eq split: if_splits)
  then show ?case using 0 by auto
next
  case (Suc d)
  have b: "sched_ok (\<tau> k)" "current_process (\<tau> k) = Some c" "state (proc_at (\<tau> k) c) \<noteq> PROCESS_READY"
    "state (proc_at (\<tau> k) j) = PROCESS_READY"
    using btw [of k] Suc.prems by (auto simp: between_ticks_def)
  note rr = schedule_rr [OF b(1,2)]
  define n where "n = the (current_process (\<sigma> (Suc k)))"
  have step: "rr_step (proc_states (\<tau> k)) c = (proc_states (\<sigma> (Suc k)), n)" using rr(1) by (simp add: tick n_def)
  have len: "length (process_table (\<tau> k)) = 64" "length (process_table (\<sigma> (Suc k))) = 64"
    using b(1) rr(2) by (simp_all add: sched_ok_def tick)
  have cur: "current_process (\<sigma> (Suc k)) = Some n" "n < 64" using rr(2) by (auto simp: sched_ok_def n_def tick)
  have "n = j \<or> proc_states (\<sigma> (Suc k)) ! j = PROCESS_READY \<and> rr_dist n j < rr_dist c j"
    using b len j Suc.prems(2) by (intro rr_progress [OF _ _ _ _ _ step]) (auto simp: proc_states_def)
  then show ?case
  proof
    assume "n = j"
    then show ?thesis using cur(1) by (intro exI [of _ 1]) simp
  next
    assume "proc_states (\<sigma> (Suc k)) ! j = PROCESS_READY \<and> rr_dist n j < rr_dist c j"
    then have "state (proc_at (\<sigma> (Suc k)) j) = PROCESS_READY" "rr_dist n j \<le> d"
      using len(2) j Suc.prems(4) by (auto simp: proc_states_def)
    from Suc.IH [OF cur this] obtain i where "i \<le> d" "current_process (\<sigma> (Suc k + i)) = Some j" by blast
    then show ?thesis by (intro exI [of _ "Suc i"]) simp
  qed
qed

text \<open>The state right after \<^verbatim>\<open>schedule\<close> has switched from one thread to another.\<close>

lemma schedule_switches:
  assumes ok: "sched_ok s" and c: "current_process s = Some c" and n: "rr_next (proc_states s) c = Some n"
  obtains t where "schedule s = context_switch c (kernel_esp (proc_at s n)) (push (schedule_resume_sym (sym s)) t)"
    "mem t = mem s" "sym t = sym s" "reg_esp (cpu t) = reg_esp (cpu s)" "reg_ebx (cpu t) = reg_ebx (cpu s)"
    "reg_esi (cpu t) = reg_esi (cpu s)" "reg_edi (cpu t) = reg_edi (cpu s)" "reg_ebp (cpu t) = reg_ebp (cpu s)"
    "length (process_table t) = 64"
proof -
  note ok' = sched_okE [OF ok c]
  have sw: "mem (switch_memory c n t) = mem t" "sym (switch_memory c n t) = sym t"
    "reg_esp (cpu (switch_memory c n t)) = reg_esp (cpu t)" "reg_ebx (cpu (switch_memory c n t)) = reg_ebx (cpu t)"
    "reg_esi (cpu (switch_memory c n t)) = reg_esi (cpu t)" "reg_edi (cpu (switch_memory c n t)) = reg_edi (cpu t)"
    "reg_ebp (cpu (switch_memory c n t)) = reg_ebp (cpu t)" "process_table (switch_memory c n t) = process_table t"
    for t :: "'a proc_state_scheme"
    by (simp_all add: switch_memory_def vmm_switch_address_space_def paging_switch_directory_def
        paging_load_directory_def hw_emit_def Let_def)
  have st: "mem (switch_states c n s) = mem s" "sym (switch_states c n s) = sym s" "cpu (switch_states c n s) = cpu s"
    "length (process_table (switch_states c n s)) = length (process_table s)"
    by (simp_all add: switch_states_def process_set_current_def Let_def)
  show thesis
    using schedule_cases [OF ok'(1-3) c ok'(4)] n ok'(2)
    by (intro that [of "switch_memory c n (switch_states c n s)"]) (simp_all add: sw st Let_def)
qed

lemma schedule_saves:
  assumes "sched_ok s" and "current_process s = Some c" and "rr_next (proc_states s) c = Some n"
  shows "saved_frame (mem (schedule s)) (kernel_esp (proc_at (schedule s) c))
    ((cpu s)\<lparr>reg_eip := schedule_resume_sym (sym s)\<rparr>)"
proof -
  let ?ret = "schedule_resume_sym (sym s)"
  obtain t where t: "schedule s = context_switch c (kernel_esp (proc_at s n)) (push ?ret t)"
    "mem t = mem s" "reg_esp (cpu t) = reg_esp (cpu s)" "reg_ebx (cpu t) = reg_ebx (cpu s)"
    "reg_esi (cpu t) = reg_esi (cpu s)" "reg_edi (cpu t) = reg_edi (cpu s)" "reg_ebp (cpu t) = reg_ebp (cpu s)"
    "length (process_table t) = 64" by (rule schedule_switches [OF assms]) (rule that; assumption)
  have c: "c < 64" by (rule sched_okE(3) [OF assms(1,2)])
  have "mem (schedule s) = save_regs (cpu t) ?ret (mem t)" "kernel_esp (proc_at (schedule s) c) = reg_esp (cpu t) - 20"
    unfolding t(1) context_switch_eq using c t(8) by simp_all
  then show ?thesis using save_regs_frame [of "cpu t" ?ret "mem t"] t(3-7) by (simp add: saved_frame_def)
qed

lemma schedule_restores:
  assumes "sched_ok t" and "current_process t = Some d" and "rr_next (proc_states t) d = Some n"
    and "saved_frame (mem t) (kernel_esp (proc_at t n)) r" and "frames_apart (reg_esp (cpu t)) (kernel_esp (proc_at t n))"
  shows "reg_esp (cpu (schedule t)) = reg_esp r" "reg_ebp (cpu (schedule t)) = reg_ebp r"
    "reg_ebx (cpu (schedule t)) = reg_ebx r" "reg_esi (cpu (schedule t)) = reg_esi r"
    "reg_edi (cpu (schedule t)) = reg_edi r" "reg_eip (cpu (schedule t)) = reg_eip r"
proof -
  let ?ret = "schedule_resume_sym (sym t)"
  obtain u where u: "schedule t = context_switch d (kernel_esp (proc_at t n)) (push ?ret u)"
    "mem u = mem t" "reg_esp (cpu u) = reg_esp (cpu t)"
    by (rule schedule_switches [OF assms(1-3)]) (rule that; assumption)
  have "saved_frame (save_regs (cpu u) ?ret (mem u)) (kernel_esp (proc_at t n)) r"
    using assms(4,5) u(2,3) by (simp add: save_regs_other)
  note regs = context_switch_regs(2) [OF this, of d, folded u(1)]
  show "reg_esp (cpu (schedule t)) = reg_esp r" "reg_ebp (cpu (schedule t)) = reg_ebp r"
    "reg_ebx (cpu (schedule t)) = reg_ebx r" "reg_esi (cpu (schedule t)) = reg_esi r"
    "reg_edi (cpu (schedule t)) = reg_edi r" "reg_eip (cpu (schedule t)) = reg_eip r"
    by (simp_all add: regs)
qed

text \<open>The five words of a frame are the same in two memories.\<close>

definition frame_kept :: "u32 \<Rightarrow> memory \<Rightarrow> memory \<Rightarrow> bool" where
  "frame_kept k m m' \<longleftrightarrow> (\<forall>j \<in> {0, 4, 8, 12, 16}. load32 m' (k + j) = load32 m (k + j))"

lemma saved_frame_kept: "frame_kept k m m' \<Longrightarrow> saved_frame m k r \<Longrightarrow> saved_frame m' k r"
  by (simp add: frame_kept_def saved_frame_def)

text \<open>The stack that \<^verbatim>\<open>kthread_create\<close> prepares is the frame of a thread suspended at the trampoline.\<close>

lemma thread_frame_saved:
  "saved_frame (thread_frame sp tramp entry m) (sp - 24)
     (cpu_reset\<lparr>reg_esp := sp - 4, reg_ebx := entry, reg_eip := tramp\<rparr>)"
proof -
  have at: "sp - 24 + 4 = sp - 20" "sp - 24 + 8 = sp - 16" "sp - 24 + 12 = sp - 12" "sp - 24 + 16 = sp - 8"
    "sp - 24 + 20 = sp - 4" by simp_all
  show ?thesis
    unfolding saved_frame_def thread_frame_def Let_def at
    by (simp add: load32_store32_sep sep4_offset cpu_reset_def)
qed

lemma kthread_create_frame:
  assumes len: "length (process_table s) = 64" and run: "kthread_create entry nm s = (Some sl, s')"
  shows "saved_frame (mem s') (kernel_esp (proc_at s' sl))
    (cpu_reset\<lparr>reg_esp := kernel_stack (proc_at s' sl) + 8188, reg_ebx := entry, reg_eip := kthread_trampoline_sym (sym s)\<rparr>)"
proof -
  obtain s1 where pa: "process_alloc s = (Some sl, s1)"
    using run unfolding kthread_create_def Let_def by (auto split: prod.splits option.splits)
  have new: "new_process (Some sl) s s1" using process_alloc_new [OF len] pa by simp
  then have sl: "sl < 64" "length (process_table s1) = 64"
    using len by (auto simp: new_process_def free_slot_iff split: option.splits)
  have fs: "free_slot (process_table s) = Some sl" using new by (auto simp: new_process_def split: option.splits)
  obtain stack s5 where km: "kmalloc_aligned 8192 (claim_slot sl s) = (stack, s5)" by fastforce
  note a = process_alloc_claims [OF len fs km]
  have sym: "sym s1 = sym s" using a(1,6) pa by (auto simp: Let_def split: if_splits)
  let ?sp = "kernel_stack (proc_at s1 sl) + 8192"
  have "mem s' = thread_frame ?sp (kthread_trampoline_sym (sym s)) entry (mem s1)"
    "kernel_stack (proc_at s' sl) = kernel_stack (proc_at s1 sl)" "kernel_esp (proc_at s' sl) = ?sp - 24"
    using run pa sl sym by (auto simp: kthread_create_def Let_def)
  then show ?thesis using thread_frame_saved [of ?sp "kthread_trampoline_sym (sym s)" entry "mem s1"]
    by (simp add: add.commute)
qed

section \<open>Executions\<close>

text \<open>What can happen to the process table: creation of threads and processes, release of a process
  other than the current one, a tick, the end of the current thread, the start of the scheduler,
  and any code that leaves the table alone.\<close>

inductive proc_step :: "'a proc_state_scheme \<Rightarrow> 'a proc_state_scheme \<Rightarrow> bool" where
  step_alloc: "proc_step s (snd (process_alloc s))"
| step_create: "proc_step s (snd (kthread_create entry nm s))"
| step_free: "i < MAX_PROCESSES \<Longrightarrow> current_process s \<noteq> Some i \<Longrightarrow> proc_step s (process_free (Some i) s)"
| step_tick: "proc_step s (schedule s)"
| step_exit: "proc_step s (kthread_exit s)"
| step_start: "proc_step s (scheduler_init s)"
| step_other: "process_table s' = process_table s \<Longrightarrow> next_pid s' = next_pid s \<Longrightarrow> current_process s' = current_process s \<Longrightarrow>
    scheduler_enabled s' = scheduler_enabled s \<Longrightarrow> proc_step s s'"

inductive proc_run :: "nat \<Rightarrow> 'a proc_state_scheme \<Rightarrow> bool" where
  run_init: "proc_run 0 (process_init s)"
| run_step: "proc_run n s \<Longrightarrow> proc_step s s' \<Longrightarrow> proc_run (Suc n) s'"

text \<open>At most one process is running, and it is the current one; identifiers are used once.\<close>

definition table_inv :: "nat \<Rightarrow> process list \<Rightarrow> nat \<Rightarrow> bool" where
  "table_inv k t c \<longleftrightarrow> length t = 64 \<and> c < 64 \<and> (state (t ! c) = PROCESS_RUNNING \<or> state (t ! c) = PROCESS_ZOMBIE)
     \<and> (\<forall>i < 64. state (t ! i) = PROCESS_RUNNING \<longrightarrow> i = c)
     \<and> pid (t ! 0) = 0 \<and> state (t ! 0) \<noteq> PROCESS_UNUSED
     \<and> (\<forall>i < 64. state (t ! i) \<noteq> PROCESS_UNUSED \<longrightarrow> unat (pid (t ! i)) < k)
     \<and> inj_on (\<lambda>i. pid (t ! i)) {i. i < 64 \<and> state (t ! i) \<noteq> PROCESS_UNUSED}"

lemma table_invD:
  assumes "table_inv k t c"
  shows "length t = 64" "c < 64" "state (t ! c) = PROCESS_RUNNING \<or> state (t ! c) = PROCESS_ZOMBIE"
    "i < 64 \<Longrightarrow> state (t ! i) = PROCESS_RUNNING \<Longrightarrow> i = c" "pid (t ! 0) = 0" "state (t ! 0) \<noteq> PROCESS_UNUSED"
    "i < 64 \<Longrightarrow> state (t ! i) \<noteq> PROCESS_UNUSED \<Longrightarrow> unat (pid (t ! i)) < k"
    "inj_on (\<lambda>i. pid (t ! i)) {i. i < 64 \<and> state (t ! i) \<noteq> PROCESS_UNUSED}"
  using assms unfolding table_inv_def by blast+

lemma table_invI:
  assumes "length t = 64" "c < 64" "state (t ! c) = PROCESS_RUNNING \<or> state (t ! c) = PROCESS_ZOMBIE"
    and "\<And>i. i < 64 \<Longrightarrow> state (t ! i) = PROCESS_RUNNING \<Longrightarrow> i = c" and "pid (t ! 0) = 0" "state (t ! 0) \<noteq> PROCESS_UNUSED"
    and "\<And>i. i < 64 \<Longrightarrow> state (t ! i) \<noteq> PROCESS_UNUSED \<Longrightarrow> unat (pid (t ! i)) < k"
    and "inj_on (\<lambda>i. pid (t ! i)) {i. i < 64 \<and> state (t ! i) \<noteq> PROCESS_UNUSED}"
  shows "table_inv k t c"
  unfolding table_inv_def using assms by blast

definition proc_inv :: "'a proc_state_scheme \<Rightarrow> bool" where
  "proc_inv s \<longleftrightarrow> (\<exists>c. current_process s = Some c \<and> table_inv (unat (next_pid s)) (process_table s) c)"

lemma proc_invI: "current_process s = Some c \<Longrightarrow> table_inv (unat (next_pid s)) (process_table s) c \<Longrightarrow> proc_inv s"
  by (auto simp: proc_inv_def)

lemma table_inv_init:
  assumes "pid p = 0" and "state p = PROCESS_RUNNING"
  shows "table_inv 1 ((replicate 64 zero_process)[0 := p]) 0"
proof -
  let ?t = "(replicate 64 zero_process)[0 := p]"
  have at: "?t ! i = (if i = 0 then p else zero_process)" if "i < 64" for i
    using that by (simp add: nth_list_update)
  have z: "state zero_process = PROCESS_UNUSED" by (simp add: zero_process_def)
  have used: "i = 0" if "i < 64" "state (?t ! i) \<noteq> PROCESS_UNUSED" for i
    using that(2) at [OF that(1)] z by (auto split: if_splits)
  have "inj_on (\<lambda>i. pid (?t ! i)) {i. i < 64 \<and> state (?t ! i) \<noteq> PROCESS_UNUSED}"
  proof (rule inj_onI)
    fix i j assume "i \<in> {i. i < 64 \<and> state (?t ! i) \<noteq> PROCESS_UNUSED}" "j \<in> {i. i < 64 \<and> state (?t ! i) \<noteq> PROCESS_UNUSED}"
    then show "i = j" using used [of i] used [of j] by simp
  qed
  moreover have "\<forall>i < 64. state (?t ! i) = PROCESS_RUNNING \<longrightarrow> i = 0" using used by force
  moreover have "\<forall>i < 64. state (?t ! i) \<noteq> PROCESS_UNUSED \<longrightarrow> unat (pid (?t ! i)) < 1"
  proof (intro allI impI)
    fix i assume "i < 64" "state (?t ! i) \<noteq> PROCESS_UNUSED"
    then have "i = 0" by (rule used)
    then show "unat (pid (?t ! i)) < 1" using at [of 0] assms by simp
  qed
  moreover have "length ?t = 64" "pid (?t ! 0) = 0" "state (?t ! 0) = PROCESS_RUNNING" "state (?t ! 0) \<noteq> PROCESS_UNUSED" "(0::nat) < 64"
    using assms by simp_all
  ultimately show ?thesis unfolding table_inv_def by blast
qed

lemma table_inv_add:
  assumes inv: "table_inv k t c" and sl: "free_slot t = Some sl" and p: "unat (pid p) = k"
    and st: "state p = PROCESS_READY \<or> state p = PROCESS_UNUSED"
  shows "table_inv (Suc k) (t[sl := p]) c"
proof -
  note d = table_invD [OF inv]
  have s: "sl < 64" "state (t ! sl) = PROCESS_UNUSED" using sl by (simp_all add: free_slot_iff)
  have ne: "sl \<noteq> c" "sl \<noteq> 0" using d(3,6) s(2) by (metis process_lifecycle.distinct(3,7), metis)
  have at: "t[sl := p] ! i = (if i = sl then p else t ! i)" if "i < 64" for i
    using that d(1) s by (simp add: nth_list_update)
  let ?U = "{i. i < 64 \<and> state (t ! i) \<noteq> PROCESS_UNUSED}"
  have old: "pid (t[sl := p] ! i) = pid (t ! i) \<and> unat (pid (t ! i)) < k" if "i \<in> ?U" for i
    using that at [of i] d(7) [of i] s by auto
  have "inj_on (\<lambda>i. pid (t[sl := p] ! i)) ?U"
    by (rule inj_on_cong [THEN iffD1, OF _ d(8)]) (use old in simp)
  moreover have "pid (t[sl := p] ! sl) \<noteq> pid (t[sl := p] ! i)" if "i \<in> ?U" for i
    using old [OF that] at [OF s(1)] p by auto
  ultimately have inj: "inj_on (\<lambda>i. pid (t[sl := p] ! i)) (insert sl ?U)"
    unfolding inj_on_insert by blast
  have "{i. i < 64 \<and> state (t[sl := p] ! i) \<noteq> PROCESS_UNUSED} \<subseteq> insert sl ?U"
  proof
    fix i assume "i \<in> {i. i < 64 \<and> state (t[sl := p] ! i) \<noteq> PROCESS_UNUSED}"
    then show "i \<in> insert sl ?U" using at [of i] by (cases "i = sl") simp_all
  qed
  then have inj2: "inj_on (\<lambda>i. pid (t[sl := p] ! i)) {i. i < 64 \<and> state (t[sl := p] ! i) \<noteq> PROCESS_UNUSED}"
    by (rule inj_on_subset [OF inj])
  have run: "i = c" if "i < 64" "state (t[sl := p] ! i) = PROCESS_RUNNING" for i
    using that at [of i] st by (intro d(4)) (auto split: if_splits)
  have lt: "unat (pid (t[sl := p] ! i)) < Suc k" if "i < 64" "state (t[sl := p] ! i) \<noteq> PROCESS_UNUSED" for i
    using that at [of i] old [of i] p by (cases "i = sl") simp_all
  have "length (t[sl := p]) = 64" "t[sl := p] ! c = t ! c" "t[sl := p] ! 0 = t ! 0" using d(1) ne by simp_all
  then show ?thesis using d(2,3,5,6) by (intro table_invI run lt inj2) simp_all
qed

lemma table_inv_free:
  assumes inv: "table_inv k t c" and "pid (t ! i) \<noteq> 0" and "i \<noteq> c" and "i < 64"
  shows "table_inv k (t[i := zero_process]) c"
proof -
  note d = table_invD [OF inv]
  have z: "i \<noteq> 0" using assms(2) d(5) by metis
  have at: "t[i := zero_process] ! j = (if j = i then zero_process else t ! j)" if "j < 64" for j
    using that d(1) by (simp add: nth_list_update)
  have used: "j \<noteq> i" if "j < 64" "state (t[i := zero_process] ! j) \<noteq> PROCESS_UNUSED" for j
    using that at [OF that(1)] by (auto simp: zero_process_def)
  let ?U = "{j. j < 64 \<and> state (t ! j) \<noteq> PROCESS_UNUSED}" and ?V = "{j. j < 64 \<and> state (t[i := zero_process] ! j) \<noteq> PROCESS_UNUSED}"
  have sub: "j \<in> ?U \<and> t[i := zero_process] ! j = t ! j" if "j \<in> ?V" for j
    using that used [of j] at [of j] by simp
  have "inj_on (\<lambda>j. pid (t ! j)) ?V" by (rule inj_on_subset [OF d(8)]) (use sub in blast)
  then have inj2: "inj_on (\<lambda>j. pid (t[i := zero_process] ! j)) ?V" by (rule inj_on_cong [THEN iffD1, rotated]) (simp only: sub)
  have run: "j = c" if "j < 64" "state (t[i := zero_process] ! j) = PROCESS_RUNNING" for j
    using that sub [of j] by (intro d(4)) auto
  have lt: "unat (pid (t[i := zero_process] ! j)) < k" if "j < 64" "state (t[i := zero_process] ! j) \<noteq> PROCESS_UNUSED" for j
    using that sub [of j] d(7) [of j] by simp
  have "length (t[i := zero_process]) = 64" "t[i := zero_process] ! c = t ! c" "t[i := zero_process] ! 0 = t ! 0"
    using d(1) assms(3) z by simp_all
  then show ?thesis using d(2,3,5,6) by (intro table_invI run lt inj2) simp_all
qed

lemma table_inv_same:
  assumes inv: "table_inv k t c" and pids: "map pid t' = map pid t"
    and unused: "\<And>i. i < 64 \<Longrightarrow> (state (t' ! i) = PROCESS_UNUSED) = (state (t ! i) = PROCESS_UNUSED)"
    and c': "c' < 64" "state (t' ! c') = PROCESS_RUNNING \<or> state (t' ! c') = PROCESS_ZOMBIE"
    and one: "\<And>i. i < 64 \<Longrightarrow> state (t' ! i) = PROCESS_RUNNING \<Longrightarrow> i = c'"
  shows "table_inv k t' c'"
proof -
  note d = table_invD [OF inv]
  have len: "length t' = 64" using arg_cong [OF pids, of length] d(1) by simp
  have at: "pid (t' ! i) = pid (t ! i)" if "i < 64" for i
    using arg_cong [OF pids, of "\<lambda>xs. xs ! i"] that d(1) len by simp
  have U: "{i. i < 64 \<and> state (t' ! i) \<noteq> PROCESS_UNUSED} = {i. i < 64 \<and> state (t ! i) \<noteq> PROCESS_UNUSED}"
    using unused by blast
  have "inj_on (\<lambda>i. pid (t' ! i)) {i. i < 64 \<and> state (t' ! i) \<noteq> PROCESS_UNUSED}"
    unfolding U by (rule inj_on_cong [THEN iffD1, OF _ d(8)]) (simp add: at)
  moreover have "unat (pid (t' ! i)) < k" if "i < 64" "state (t' ! i) \<noteq> PROCESS_UNUSED" for i
    using that unused [of i] at [of i] d(7) [of i] by simp
  moreover have "pid (t' ! 0) = 0" "state (t' ! 0) \<noteq> PROCESS_UNUSED" using at [of 0] unused [of 0] d(5,6) by simp_all
  ultimately show ?thesis using len c' one unfolding table_inv_def by blast
qed

lemma rr_step_unused:
  assumes "length sts = 64" and "c < 64" and "rr_step sts c = (sts', n)" and "i < 64"
  shows "sts' ! i = PROCESS_UNUSED \<longleftrightarrow> sts ! i = PROCESS_UNUSED"
  using assms
  by (auto simp: rr_step_def nth_list_update split: option.splits if_splits elim!: rr_next_Some)

lemma schedule_pids:
  assumes "sched_ok s" and "current_process s = Some c"
  shows "map pid (process_table (schedule s)) = map pid (process_table s)" "next_pid (schedule s) = next_pid s"
proof -
  note ok = sched_okE [OF assms]
  have same: "map pid (xs[i := f (xs ! i)]) = map pid xs" if "\<And>p. pid (f p) = pid p" for xs i f
    using that by (cases "i < length xs") (simp_all add: map_update list_update_same_conv list_update_beyond)
  have st: "map pid (process_table (switch_states c n s)) = map pid (process_table s)"
    "next_pid (switch_states c n s) = next_pid s" for n
    by (simp_all add: switch_states_def process_set_current_def Let_def same)
  have mem: "process_table (switch_memory c n t) = process_table t" "next_pid (switch_memory c n t) = next_pid t"
    for n and t :: "'a proc_state_scheme"
    by (simp_all add: switch_memory_def vmm_switch_address_space_def paging_switch_directory_def
        paging_load_directory_def hw_emit_def Let_def)
  show "map pid (process_table (schedule s)) = map pid (process_table s)" "next_pid (schedule s) = next_pid s"
    unfolding schedule_cases [OF ok(1-3) assms(2) ok(4)] Let_def
    by (simp_all add: context_switch_eq same mem st split: option.split)
qed

lemma proc_inv_schedule:
  assumes inv: "proc_inv s"
  shows "proc_inv (schedule s)" "next_pid (schedule s) = next_pid s"
proof -
  obtain c where c: "current_process s = Some c" and tab: "table_inv (unat (next_pid s)) (process_table s) c"
    using inv by (auto simp: proc_inv_def)
  note d = table_invD [OF tab]
  have "proc_inv (schedule s) \<and> next_pid (schedule s) = next_pid s"
  proof (cases "scheduler_enabled s")
    case False
    then show ?thesis using inv by (simp add: schedule_def)
  next
    case True
    have ok: "sched_ok s" using True c d(1-3) by (auto simp: sched_ok_def)
    note rr = schedule_rr [OF ok c] and ids = schedule_pids [OF ok c]
    define n where "n = the (current_process (schedule s))"
    have len: "length (proc_states s) = 64" "length (process_table (schedule s)) = 64"
      using d(1) rr(2) by (simp_all add: proc_states_def sched_ok_def)
    have at: "proc_states s ! i = state (proc_at s i)" "proc_states (schedule s) ! i = state (proc_at (schedule s) i)"
      if "i < 64" for i using that d(1) len by (simp_all add: proc_states_def)
    have one: "\<forall>i < 64. proc_states s ! i = PROCESS_RUNNING \<longrightarrow> i = c"
    proof (intro allI impI)
      fix i assume "i < 64" "proc_states s ! i = PROCESS_RUNNING"
      then show "i = c" using at(1) [of i] by (intro d(4)) simp_all
    qed
    note step = rr(1) [folded n_def]
    note r = rr_step_one [OF len(1) d(2) one step] and unused = rr_step_unused [OF len(1) d(2) step]
    have n: "n < 64" and run: "\<And>i. i < 64 \<Longrightarrow> proc_states (schedule s) ! i = PROCESS_RUNNING \<Longrightarrow> i = n"
      and cases: "proc_states (schedule s) ! n = PROCESS_RUNNING \<or> proc_states (schedule s) = proc_states s \<and> n = c"
      using r by blast+
    have cur: "current_process (schedule s) = Some n" using rr(2) by (auto simp: sched_ok_def n_def)
    have "state (proc_at (schedule s) n) = PROCESS_RUNNING \<or> state (proc_at (schedule s) n) = PROCESS_ZOMBIE"
      using cases
    proof
      assume "proc_states (schedule s) ! n = PROCESS_RUNNING"
      then show ?thesis using at(2) [OF n] by simp
    next
      assume "proc_states (schedule s) = proc_states s \<and> n = c"
      then show ?thesis using at [OF n] d(3) by simp
    qed
    moreover have "(state (proc_at (schedule s) i) = PROCESS_UNUSED) = (state (proc_at s i) = PROCESS_UNUSED)"
      if "i < 64" for i using unused [OF that] at [OF that] by simp
    moreover have "i = n" if "i < 64" "state (proc_at (schedule s) i) = PROCESS_RUNNING" for i
      using that at(2) [of i] by (intro run) simp_all
    ultimately have "table_inv (unat (next_pid s)) (process_table (schedule s)) n"
      by (intro table_inv_same [OF tab ids(1) _ n])
    then show ?thesis using cur ids(2) by (auto intro: proc_invI)
  qed
  then show "proc_inv (schedule s)" "next_pid (schedule s) = next_pid s" by blast+
qed

lemma proc_inv_vars:
  assumes "proc_inv s" and "process_table s' = process_table s" and "next_pid s' = next_pid s"
    and "current_process s' = current_process s"
  shows "proc_inv s'"
  using assms by (simp add: proc_inv_def)

lemma proc_inv_new:
  assumes inv: "proc_inv s" and new: "new_process r s s'" and no_wrap: "unat (next_pid s) + 1 < 4294967296"
  shows "proc_inv s'" "unat (next_pid s') \<le> unat (next_pid s) + 1"
proof -
  obtain c where c: "current_process s = Some c" and tab: "table_inv (unat (next_pid s)) (process_table s) c"
    using inv by (auto simp: proc_inv_def)
  have up: "unat (next_pid s + 1) = Suc (unat (next_pid s))" using no_wrap by (simp add: u32_add)
  have "proc_inv s' \<and> unat (next_pid s') \<le> unat (next_pid s) + 1"
  proof (cases "free_slot (process_table s)")
    case None
    then show ?thesis using new c tab by (auto simp: new_process_def proc_inv_def)
  next
    case (Some sl)
    then obtain p where p: "process_table s' = (process_table s)[sl := p]" "pid p = next_pid s"
        "state p = PROCESS_READY \<or> state p = PROCESS_UNUSED" "next_pid s' = next_pid s + 1" "current_process s' = Some c"
      using new c by (auto simp: new_process_def)
    have "table_inv (Suc (unat (next_pid s))) (process_table s') c"
      unfolding p(1) by (rule table_inv_add [OF tab Some _ p(3)]) (simp add: p(2))
    then show ?thesis using p(4,5) up by (auto intro: proc_invI)
  qed
  then show "proc_inv s'" "unat (next_pid s') \<le> unat (next_pid s) + 1" by blast+
qed

lemma proc_inv_exit:
  assumes inv: "proc_inv s"
  shows "proc_inv (kthread_exit s)" "next_pid (kthread_exit s) = next_pid s"
proof -
  obtain c where c: "current_process s = Some c" and tab: "table_inv (unat (next_pid s)) (process_table s) c"
    using inv by (auto simp: proc_inv_def)
  note d = table_invD [OF tab]
  define t where "t = (process_table s)[c := (proc_at s c)\<lparr>state := PROCESS_ZOMBIE\<rparr>]"
  define s2 where "s2 = upd_proc c (\<lambda>p. p\<lparr>state := PROCESS_ZOMBIE\<rparr>)
    (kprintf ''[KTHREAD] '%s' (PID %u) exited\<newline>'' [VStr (pname (proc_at s c)), VInt (pid (proc_at s c))] (hw_emit Cli s))"
  have vars: "process_table s2 = t" "next_pid s2 = next_pid s" "current_process s2 = Some c"
    by (simp_all add: s2_def t_def hw_emit_def c)
  have at: "t ! i = (if i = c then (proc_at s c)\<lparr>state := PROCESS_ZOMBIE\<rparr> else proc_at s i)" if "i < 64" for i
    using that d(1,2) by (simp add: t_def nth_list_update)
  have pids: "map pid t = map pid (process_table s)"
    using d(1,2) by (simp add: t_def map_update list_update_same_conv)
  have "i = c" if "i < 64" "state (t ! i) = PROCESS_RUNNING" for i
    using that at [OF that(1)] by (intro d(4)) (auto split: if_splits)
  moreover have "(state (t ! i) = PROCESS_UNUSED) = (state (proc_at s i) = PROCESS_UNUSED)" if "i < 64" for i
    using at [OF that] d(3) by auto
  ultimately have "table_inv (unat (next_pid s)) t c"
    using at [OF d(2)] by (intro table_inv_same [OF tab pids _ d(2)]) simp_all
  then have "proc_inv s2" using vars by (intro proc_invI [of _ c]) simp_all
  note sch = proc_inv_schedule [OF this]
  have "kthread_exit s = (if current_process (schedule s2) = current_process s2 then hw_emit Hlt (schedule s2) else schedule s2)"
    using c by (simp add: kthread_exit_def Let_def process_current_def s2_def hw_emit_def)
  moreover have "proc_inv (hw_emit Hlt (schedule s2))" by (rule proc_inv_vars [OF sch(1)]) (simp_all add: hw_emit_def)
  ultimately show "proc_inv (kthread_exit s)" "next_pid (kthread_exit s) = next_pid s"
    using sch vars(2) by (simp_all add: hw_emit_def)
qed

lemma proc_inv_init: "proc_inv (process_init s)" "next_pid (process_init s) = 1"
  using table_inv_init by (auto simp: process_init_table zero_process_def intro!: proc_invI)

lemma proc_inv_step:
  assumes inv: "proc_inv s" and step: "proc_step s s'" and no_wrap: "unat (next_pid s) + 1 < 4294967296"
  shows "proc_inv s' \<and> unat (next_pid s') \<le> unat (next_pid s) + 1"
proof -
  have len: "length (process_table s) = 64" using inv by (auto simp: proc_inv_def dest: table_invD(1))
  from step show ?thesis
  proof (cases rule: proc_step.cases)
    case step_alloc
    then show ?thesis using proc_inv_new [OF inv process_alloc_new [OF len] no_wrap] by simp
  next
    case (step_create entry nm)
    then show ?thesis using proc_inv_new [OF inv kthread_create_new [OF len] no_wrap] by simp
  next
    case (step_free i)
    obtain c where c: "current_process s = Some c" and tab: "table_inv (unat (next_pid s)) (process_table s) c"
      using inv by (auto simp: proc_inv_def)
    note f = process_free_table [of i s]
    have "table_inv (unat (next_pid s)) (process_table s') c"
    proof (cases "pid (proc_at s i) = 0")
      case True
      then show ?thesis using f tab step_free by simp
    next
      case False
      then show ?thesis using f table_inv_free [OF tab False] step_free c by simp
    qed
    then show ?thesis using f c step_free by (auto intro: proc_invI)
  next
    case step_tick
    then show ?thesis using proc_inv_schedule [OF inv] by simp
  next
    case step_exit
    then show ?thesis using proc_inv_exit [OF inv] by simp
  next
    case step_start
    then show ?thesis using proc_inv_vars [OF inv, of s'] by (simp add: scheduler_init_def)
  next
    case step_other
    then show ?thesis using proc_inv_vars [OF inv] by simp
  qed
qed

lemma proc_run_inv: "proc_run n s \<Longrightarrow> n < 4294967294 \<Longrightarrow> proc_inv s \<and> unat (next_pid s) \<le> n + 1"
proof (induction rule: proc_run.induct)
  case (run_init s)
  then show ?case using proc_inv_init [of s] by simp
next
  case (run_step n s s')
  then show ?case using proc_inv_step [of s s'] by simp
qed

section \<open>Properties\<close>

text \<open>Two processes: the kernel running in slot 0, a ready thread in slot 1.\<close>

definition sample_sched :: proc_state where
  "sample_sched = sample_proc\<lparr>process_table := (replicate 64 zero_process)
       [0 := zero_process\<lparr>state := PROCESS_RUNNING\<rparr>,
        1 := zero_process\<lparr>pid := 1, state := PROCESS_READY, kernel_stack := 0xC0401000, kernel_esp := 0xC0402FE8\<rparr>],
     next_pid := 2, scheduler_enabled := True,
     cpu := cpu_reset\<lparr>reg_esp := 0xC011FF00, reg_ebp := 0xC011FF20, reg_ebx := 5, reg_esi := 6, reg_edi := 7\<rparr>\<rparr>"

lemma sample_sched_fields [simp]:
  "process_table sample_sched = (replicate 64 zero_process)[0 := zero_process\<lparr>state := PROCESS_RUNNING\<rparr>,
     1 := zero_process\<lparr>pid := 1, state := PROCESS_READY, kernel_stack := 0xC0401000, kernel_esp := 0xC0402FE8\<rparr>]"
  "next_pid sample_sched = 2" "current_process sample_sched = Some 0" "scheduler_enabled sample_sched"
  "cpu sample_sched = cpu_reset\<lparr>reg_esp := 0xC011FF00, reg_ebp := 0xC011FF20, reg_ebx := 5, reg_esi := 6, reg_edi := 7\<rparr>"
  "sym sample_sched = sample_symbols"
  by (simp_all add: sample_sched_def sample_proc_ok)

lemma sample_sched_inv: "proc_inv sample_sched"
proof -
  have z: "pid zero_process = 0" "state zero_process = PROCESS_UNUSED" by (simp_all add: zero_process_def)
  have t: "table_inv 1 ((replicate 64 zero_process)[0 := zero_process\<lparr>state := PROCESS_RUNNING\<rparr>]) 0"
    by (rule table_inv_init) (simp_all add: z)
  have "free_slot ((replicate 64 zero_process)[0 := zero_process\<lparr>state := PROCESS_RUNNING\<rparr>]) = Some 1"
    by (simp add: free_slot_iff z)
  from table_inv_add [OF t this, of "zero_process\<lparr>pid := 1, state := PROCESS_READY, kernel_stack := 0xC0401000, kernel_esp := 0xC0402FE8\<rparr>"]
  have "table_inv (Suc 1) (process_table sample_sched) 0" by simp
  moreover have "unat (next_pid sample_sched) = Suc 1" by simp
  ultimately show ?thesis by (intro proc_invI [of _ 0]) (simp_all only: sample_sched_fields(3))
qed

lemma proc_inv_sched_ok:
  assumes "proc_inv s" and "scheduler_enabled s"
  shows "sched_ok s"
proof -
  obtain c where c: "current_process s = Some c" "table_inv (unat (next_pid s)) (process_table s) c"
    using assms(1) by (auto simp: proc_inv_def)
  then show ?thesis using table_invD(1-3) [OF c(2)] assms(2) by (auto simp: sched_ok_def)
qed

lemma sample_rr:
  assumes "length sts = 64" and "\<And>i. i < 64 \<Longrightarrow> sts ! i = PROCESS_READY \<Longrightarrow> i = n" and "n < 64" "sts ! n = PROCESS_READY" "c < 64"
  shows "rr_next sts c = Some n"
proof -
  have wrap: "(c + rr_dist c n) mod 64 = n" using assms(3,5) by (auto simp: rr_dist_eq mod_64)
  have "find (\<lambda>i. sts ! ((c + i) mod 64) = PROCESS_READY) [0..<64] = Some (rr_dist c n)"
    unfolding find_upt_iff
  proof (intro conjI allI impI notI)
    show "rr_dist c n < 64" by (simp add: rr_dist_def)
    show "sts ! ((c + rr_dist c n) mod 64) = PROCESS_READY"
      by (simp only: wrap assms(4))
    fix j assume j: "j < rr_dist c n" "sts ! ((c + j) mod 64) = PROCESS_READY"
    then have "(c + j) mod 64 = n" by (intro assms(2)) simp_all
    moreover have "j < 64" using j(1) by (simp add: rr_dist_def)
    ultimately show False using j(1) assms(3,5) by (auto simp: rr_dist_eq mod_64 split: if_splits)
  qed
  then show ?thesis by (simp add: rr_next_def wrap)
qed

lemma sample_sched_states: "proc_states sample_sched = (replicate 64 PROCESS_UNUSED)[0 := PROCESS_RUNNING, 1 := PROCESS_READY]"
  by (simp add: proc_states_def map_update zero_process_def)

lemma sample_sched_next: "rr_next (proc_states sample_sched) 0 = Some 1"
  unfolding sample_sched_states by (rule sample_rr) (simp_all add: nth_list_update split: if_splits)

text \<open>
  C23. In every state the kernel can reach from \<^verbatim>\<open>process_init\<close> by creating and freeing processes, ticks and
  thread exits, as long as fewer than \<open>2\<^sup>32 - 2\<close> steps were made (process identifiers are 32 bits
  wide): there is a current process, no other process is running, the current one is running or has
  exited, and the identifiers of the used slots are pairwise different, so that \<^verbatim>\<open>process_get\<close> finds each
  process under its own identifier.
\<close>

theorem proc_run_one_running:
  assumes "proc_run n s" and "n < 4294967294"
  shows "\<exists>c < 64. current_process s = Some c \<and> state (proc_at s c) \<in> {PROCESS_RUNNING, PROCESS_ZOMBIE}
    \<and> (\<forall>i < 64. state (proc_at s i) = PROCESS_RUNNING \<longrightarrow> i = c)
    \<and> (\<forall>i < 64. state (proc_at s i) \<noteq> PROCESS_UNUSED \<longrightarrow> process_get (pid (proc_at s i)) s = Some i)"
proof -
  obtain c where c: "current_process s = Some c" and tab: "table_inv (unat (next_pid s)) (process_table s) c"
    using proc_run_inv [OF assms] by (auto simp: proc_inv_def)
  note d = table_invD [OF tab]
  have "process_get (pid (proc_at s i)) s = Some i" if i: "i < 64" "state (proc_at s i) \<noteq> PROCESS_UNUSED" for i
  proof (rule process_get_here [OF i])
    fix j assume "j < i" "state (proc_at s j) \<noteq> PROCESS_UNUSED"
    then show "pid (proc_at s j) \<noteq> pid (proc_at s i)" using inj_onD [OF d(8), of j i] i by auto
  qed
  moreover have "\<forall>i < 64. state (proc_at s i) = PROCESS_RUNNING \<longrightarrow> i = c" using d(4) by blast
  ultimately show ?thesis using c d(2,3) by (intro exI [of _ c]) simp
qed

theorem proc_run_one_running_witness:
  "let s = schedule (scheduler_init (snd (kthread_create 0xC0101000 ''thread_a'' (process_init sample_proc))))
   in proc_run 3 s \<and> (\<exists>c < 64. current_process s = Some c
     \<and> (\<forall>i < 64. state (proc_at s i) = PROCESS_RUNNING \<longrightarrow> i = c))"
proof -
  let ?s = "schedule (scheduler_init (snd (kthread_create 0xC0101000 ''thread_a'' (process_init sample_proc))))"
  have "proc_run (Suc (Suc (Suc 0))) ?s"
    by (rule run_step [OF run_step [OF run_step [OF run_init step_create] step_start] step_tick])
  then have "proc_run 3 ?s" by (simp add: numeral_3_eq_3)
  with proc_run_one_running [OF this] show ?thesis unfolding Let_def by auto
qed

lemma sample_sched_step:
  "rr_step (proc_states sample_sched) 0 =
     ((replicate 64 PROCESS_UNUSED)[0 := PROCESS_READY, 1 := PROCESS_RUNNING], 1)"
proof -
  have "(replicate 64 PROCESS_UNUSED)[0 := PROCESS_RUNNING, 1 := PROCESS_READY, 0 := PROCESS_READY, 1 := PROCESS_RUNNING]
      = (replicate 64 PROCESS_UNUSED)[0 := PROCESS_READY, 1 := PROCESS_RUNNING]"
    by (rule nth_equalityI) (auto simp: nth_list_update)
  then show ?thesis using sample_sched_next by (simp add: rr_step_def sample_sched_states)
qed

lemma sample_sched_ok: "sched_ok sample_sched"
  by (rule proc_inv_sched_ok [OF sample_sched_inv]) simp

lemma sample_sched_after:
  "proc_states (schedule sample_sched) = (replicate 64 PROCESS_UNUSED)[0 := PROCESS_READY, 1 := PROCESS_RUNNING]"
  "current_process (schedule sample_sched) = Some 1" "sched_ok (schedule sample_sched)"
proof -
  note r = schedule_rr [OF sample_sched_ok sample_sched_fields(3)]
  show "sched_ok (schedule sample_sched)" by (rule r(2))
  show "proc_states (schedule sample_sched) = (replicate 64 PROCESS_UNUSED)[0 := PROCESS_READY, 1 := PROCESS_RUNNING]"
    using r(1) unfolding sample_sched_step prod.inject by metis
  have "the (current_process (schedule sample_sched)) = 1" using r(1) unfolding sample_sched_step prod.inject by metis
  then show "current_process (schedule sample_sched) = Some 1" using r(2) by (auto simp: sched_ok_def)
qed

text \<open>
  C3. \<^verbatim>\<open>schedule\<close> implements round robin. On the list of the 64 process states and the current slot it is the
  abstract step \<open>rr_step\<close>: from the current slot on and around the table, the first ready process becomes
  running and current, and a running process that it replaces becomes ready; without a ready process
  nothing changes. The scheduler's precondition holds again afterwards.
\<close>

theorem schedule_refines_round_robin:
  assumes "sched_ok s" and "current_process s = Some c"
  shows "rr_step (proc_states s) c = (proc_states (schedule s), the (current_process (schedule s)))
    \<and> sched_ok (schedule s)"
  using schedule_rr [OF assms] by blast

theorem schedule_refines_round_robin_witness:
  "sched_ok sample_sched \<and> sched_ok (schedule sample_sched)
   \<and> rr_step ((replicate 64 PROCESS_UNUSED)[0 := PROCESS_RUNNING, 1 := PROCESS_READY]) 0 =
       ((replicate 64 PROCESS_UNUSED)[0 := PROCESS_READY, 1 := PROCESS_RUNNING], 1)"
  using schedule_refines_round_robin [OF sample_sched_ok sample_sched_fields(3)] sample_sched_ok
    sample_sched_step [unfolded sample_sched_states] by blast

text \<open>
  C18. No ready process starves. Let \<open>\<sigma> k\<close> be the state after the \<open>k\<close>-th tick and \<open>\<tau> k\<close> the state before the
  next one, where in between the running code may do anything that keeps the scheduler's precondition,
  does not change which process is current or make it ready, and leaves process \<open>j\<close> ready if it is.
  Then a process that is ready is the current one after at most 63 ticks.
\<close>

theorem ready_process_runs:
  assumes "\<And>k. between_ticks j (\<sigma> k) (\<tau> k)" and "\<And>k. \<sigma> (Suc k) = schedule (\<tau> k)"
    and "j < 64" and "state (proc_at (\<sigma> 0) j) = PROCESS_READY" and "current_process (\<sigma> 0) = Some c" and "c < 64"
  shows "\<exists>i \<le> 63. current_process (\<sigma> i) = Some j"
proof -
  have "rr_dist c j \<le> 63" by (simp add: rr_dist_def less_Suc_eq_le [symmetric])
  from ready_runs [OF assms(3,1,2,5,6,4) this] show ?thesis by simp
qed

fun sample_trace :: "nat \<Rightarrow> proc_state" where
  "sample_trace 0 = sample_sched"
| "sample_trace (Suc k) = schedule (sample_trace k)"

lemma sample_trace_between: "between_ticks 1 (sample_trace k) (sample_trace k)"
proof -
  have "proc_inv (sample_trace k) \<and> sched_ok (sample_trace k)"
  proof (induction k)
    case 0
    then show ?case using sample_sched_inv proc_inv_sched_ok [OF sample_sched_inv] by simp
  next
    case (Suc k)
    then show ?case using proc_inv_schedule(1) [of "sample_trace k"] schedule_rr(2) [of "sample_trace k"]
      by (auto simp: sched_ok_def [of "sample_trace k"])
  qed
  then obtain c where "sched_ok (sample_trace k)" "current_process (sample_trace k) = Some c"
    "table_inv (unat (next_pid (sample_trace k))) (process_table (sample_trace k)) c"
    by (auto simp: proc_inv_def)
  then show ?thesis using table_invD(3) [of _ "process_table (sample_trace k)" c] by (auto simp: between_ticks_def)
qed

theorem ready_process_runs_witness:
  "state (proc_at sample_sched 1) = PROCESS_READY \<and> (\<exists>i \<le> 63. current_process (sample_trace i) = Some 1)"
  using ready_process_runs [of 1 sample_trace sample_trace 0, OF sample_trace_between] by simp

text \<open>
  C13. A suspended thread resumes where it was. Suppose \<^verbatim>\<open>schedule\<close> switches away from thread \<open>c\<close> in state \<open>s\<close>,
  and in a later state \<open>t\<close> switches to \<open>c\<close>, where the saved stack pointer of \<open>c\<close> and the five words it points
  to are as \<^verbatim>\<open>schedule\<close> left them, and the thread that runs then does not push onto them. Then the stack
  pointer and the callee-saved registers are again those of \<open>s\<close>, and execution continues behind the
  call of \<^verbatim>\<open>context_switch\<close>.
\<close>

theorem schedule_resumes_thread:
  assumes "sched_ok s" and "current_process s = Some c" and "rr_next (proc_states s) c = Some n"
    and "sched_ok t" and "current_process t = Some d" and "rr_next (proc_states t) d = Some c"
    and "kernel_esp (proc_at t c) = kernel_esp (proc_at (schedule s) c)"
    and "frame_kept (kernel_esp (proc_at t c)) (mem (schedule s)) (mem t)"
    and "frames_apart (reg_esp (cpu t)) (kernel_esp (proc_at t c))"
  shows "reg_esp (cpu (schedule t)) = reg_esp (cpu s) \<and> reg_ebp (cpu (schedule t)) = reg_ebp (cpu s)
    \<and> reg_ebx (cpu (schedule t)) = reg_ebx (cpu s) \<and> reg_esi (cpu (schedule t)) = reg_esi (cpu s)
    \<and> reg_edi (cpu (schedule t)) = reg_edi (cpu s) \<and> reg_eip (cpu (schedule t)) = schedule_resume_sym (sym s)"
proof -
  have "saved_frame (mem t) (kernel_esp (proc_at t c)) ((cpu s)\<lparr>reg_eip := schedule_resume_sym (sym s)\<rparr>)"
    using saved_frame_kept [OF assms(8)] schedule_saves [OF assms(1-3)] assms(7) by simp
  from schedule_restores [OF assms(4-6) this assms(9)] show ?thesis by simp
qed

theorem schedule_resumes_thread_witness:
  "rr_next (proc_states sample_sched) 0 = Some 1 \<and> rr_next (proc_states (schedule sample_sched)) 1 = Some 0
   \<and> reg_ebx (cpu (schedule (schedule sample_sched))) = 5 \<and> reg_esp (cpu (schedule (schedule sample_sched))) = 0xC011FF00
   \<and> reg_eip (cpu (schedule (schedule sample_sched))) = 0xC0103210"
proof -
  let ?t = "schedule sample_sched"
  have nx: "rr_next (proc_states ?t) 1 = Some 0"
    unfolding sample_sched_after by (rule sample_rr) (simp_all add: nth_list_update split: if_splits)
  have at: "reg_esp (cpu ?t) = 0xC0402FFC" "kernel_esp (proc_at ?t 0) = 0xC011FEEC"
  proof -
    obtain u where u: "?t = context_switch 0 (kernel_esp (proc_at sample_sched 1)) (push (schedule_resume_sym (sym sample_sched)) u)"
      "reg_esp (cpu u) = reg_esp (cpu sample_sched)" "length (process_table u) = 64"
      by (rule schedule_switches [OF sample_sched_ok sample_sched_fields(3) sample_sched_next]) (rule that; assumption)
    show "reg_esp (cpu ?t) = 0xC0402FFC" "kernel_esp (proc_at ?t 0) = 0xC011FEEC"
      unfolding u(1) context_switch_eq using u(2,3) by simp_all
  qed
  have "frames_apart (reg_esp (cpu ?t)) (kernel_esp (proc_at ?t 0))"
    unfolding at by (simp add: frames_apart_def sep4_def)
  moreover have "frame_kept (kernel_esp (proc_at ?t 0)) (mem ?t) (mem ?t)" by (simp add: frame_kept_def)
  ultimately show ?thesis
    using schedule_resumes_thread [OF sample_sched_ok sample_sched_fields(3) sample_sched_next
        sample_sched_after(3,2) nx refl] nx sample_sched_next
    by (simp add: cpu_reset_def sample_symbols_def)
qed

text \<open>
  C19. A new kernel thread starts with its function. When \<^verbatim>\<open>schedule\<close> first switches to a thread that
  \<^verbatim>\<open>kthread_create\<close> made, whose stack pointer and frame are unchanged since, execution continues at
  \<^verbatim>\<open>kthread_trampoline\<close> with the thread's function in \<^verbatim>\<open>ebx\<close> and the stack pointer four bytes below the end
  of its stack; the trampoline then enables interrupts and enters the function.
\<close>

theorem kthread_starts_at_entry:
  assumes "length (process_table s) = 64" and "kthread_create entry nm s = (Some sl, s')"
    and "sched_ok t" and "current_process t = Some d" and "rr_next (proc_states t) d = Some sl"
    and "kernel_esp (proc_at t sl) = kernel_esp (proc_at s' sl)"
    and "frame_kept (kernel_esp (proc_at t sl)) (mem s') (mem t)"
    and "frames_apart (reg_esp (cpu t)) (kernel_esp (proc_at t sl))"
  shows "reg_eip (cpu (schedule t)) = kthread_trampoline_sym (sym s) \<and> reg_ebx (cpu (schedule t)) = entry
    \<and> reg_esp (cpu (schedule t)) = kernel_stack (proc_at s' sl) + 8188
    \<and> reg_eip (cpu (kthread_trampoline (schedule t))) = entry
    \<and> hw_trace (kthread_trampoline (schedule t)) = Sti # hw_trace (schedule t)"
proof -
  have "saved_frame (mem t) (kernel_esp (proc_at t sl)) (cpu_reset\<lparr>reg_esp := kernel_stack (proc_at s' sl) + 8188,
      reg_ebx := entry, reg_eip := kthread_trampoline_sym (sym s)\<rparr>)"
    using saved_frame_kept [OF assms(7)] kthread_create_frame [OF assms(1,2)] assms(6) by simp
  from schedule_restores [OF assms(3-5) this assms(8)] show ?thesis
    by (simp add: kthread_trampoline_def push_def hw_emit_def Let_def)
qed

lemma sample_thread:
  obtains s' where "kthread_create 0xC0101000 ''thread_a'' sample_proc = (Some 1, s')"
    "kernel_esp (proc_at s' 1) = 0xC0402FE8" "kernel_stack (proc_at s' 1) = 0xC0401000" "current_process s' = Some 0"
    "process_table s' = (process_table sample_proc)[1 := proc_at s' 1]" "state (proc_at s' 1) = PROCESS_READY"
proof -
  obtain s1 where s1: "process_alloc sample_proc = (Some 1, s1)" "kernel_stack (proc_at s1 1) = 0xC0401000"
    "length (process_table s1) = 64" by (rule sample_alloc)
  obtain s' where s': "kthread_create 0xC0101000 ''thread_a'' sample_proc = (Some 1, s')"
    using s1(1) by (simp add: kthread_create_def Let_def)
  have "kernel_esp (proc_at s' 1) = 0xC0402FE8" "kernel_stack (proc_at s' 1) = 0xC0401000"
    using s' s1 by (auto simp: kthread_create_def Let_def)
  moreover have "new_process (Some 1) sample_proc s'"
    using kthread_create_new [OF sample_proc_ok(1), of "0xC0101000" "''thread_a''"] s' by simp
  ultimately show thesis
    using s' sample_proc_ok(1,3,8) by (intro that [of s']) (auto simp: new_process_def)
qed

theorem kthread_starts_at_entry_witness:
  "\<exists>s' (t :: proc_state). kthread_create 0xC0101000 ''thread_a'' sample_proc = (Some 1, s') \<and> sched_ok t
     \<and> reg_eip (cpu (kthread_trampoline (schedule t))) = 0xC0101000"
proof -
  obtain s' where s': "kthread_create 0xC0101000 ''thread_a'' sample_proc = (Some 1, s')"
    "kernel_esp (proc_at s' 1) = 0xC0402FE8" "kernel_stack (proc_at s' 1) = 0xC0401000" "current_process s' = Some 0"
    "process_table s' = (process_table sample_proc)[1 := proc_at s' 1]" "state (proc_at s' 1) = PROCESS_READY"
    by (rule sample_thread)
  define t where "t = s'\<lparr>scheduler_enabled := True, cpu := cpu_reset\<lparr>reg_esp := 0xC011FF00\<rparr>\<rparr>"
  have tab: "process_table t = process_table s'" "mem t = mem s'" "reg_esp (cpu t) = 0xC011FF00" by (simp_all add: t_def)
  have "map state (process_table sample_proc) = (replicate 64 PROCESS_UNUSED)[0 := PROCESS_RUNNING]"
    by (simp add: sample_proc_def process_init_table map_update zero_process_def)
  then have states: "proc_states t = (replicate 64 PROCESS_UNUSED)[0 := PROCESS_RUNNING, 1 := PROCESS_READY]"
    unfolding proc_states_def tab using arg_cong [OF s'(5), of "map state"] s'(6) by (simp only: map_update)
  have len: "length (process_table t) = 64" using tab(1) arg_cong [OF s'(5), of length] sample_proc_ok(1) by simp
  have "state (proc_at t 0) = proc_states t ! 0" using len by (simp add: proc_states_def)
  then have ok: "sched_ok t" using len s'(4) by (simp add: sched_ok_def states) (simp add: t_def)
  have nx: "rr_next (proc_states t) 0 = Some 1"
    unfolding states by (rule sample_rr) (simp_all add: nth_list_update split: if_splits)
  have cur: "current_process t = Some 0" using s'(4) by (simp add: t_def)
  have "frames_apart (reg_esp (cpu t)) (kernel_esp (proc_at t 1))"
    unfolding tab s'(2) by (simp add: frames_apart_def sep4_def)
  moreover have "frame_kept (kernel_esp (proc_at t 1)) (mem s') (mem t)" by (simp add: frame_kept_def tab)
  ultimately have "reg_eip (cpu (kthread_trampoline (schedule t))) = 0xC0101000"
    using kthread_starts_at_entry [OF sample_proc_ok(1) s'(1) ok cur nx] tab(1) by simp
  then show ?thesis using s'(1) ok by blast
qed

text \<open>
  C20. A thread whose function returns retires. The trampoline then calls \<^verbatim>\<open>kthread_exit\<close>: the thread becomes a zombie, and on the
  states of the processes the rest is one step of round robin from there, so that the first ready process
  after it runs and the thread stays a zombie.
\<close>

theorem kthread_return_retires:
  assumes "sched_ok s" and "current_process s = Some c"
  shows "rr_step ((proc_states s)[c := PROCESS_ZOMBIE]) c = (proc_states (kthread_return s), the (current_process (kthread_return s)))
    \<and> proc_states (kthread_return s) ! c = PROCESS_ZOMBIE \<and> sched_ok (kthread_return s)"
proof -
  define s1 where "s1 = hw_emit Cli (push (trampoline_resume_sym (sym s) + 5) s)"
  define s2 where "s2 = upd_proc c (\<lambda>p. p\<lparr>state := PROCESS_ZOMBIE\<rparr>)
      (kprintf ''[KTHREAD] '%s' (PID %u) exited\<newline>'' [VStr (pname (proc_at s1 c)), VInt (pid (proc_at s1 c))] s1)"
  have c: "c < 64" and len: "length (process_table s) = 64" using assms by (auto simp: sched_ok_def)
  have s1: "process_table s1 = process_table s" "current_process s1 = current_process s" "scheduler_enabled s1 = scheduler_enabled s"
    by (simp_all add: s1_def hw_emit_def)
  have s2: "process_table s2 = (process_table s)[c := (process_table s ! c)\<lparr>state := PROCESS_ZOMBIE\<rparr>]" "current_process s2 = Some c"
    "scheduler_enabled s2" using s1 assms by (simp_all add: s2_def sched_ok_def)
  have ok: "sched_ok s2" using s2 c len by (auto simp: sched_ok_def)
  have st: "proc_states s2 = (proc_states s)[c := PROCESS_ZOMBIE]" using s2 by (simp add: proc_states_def map_update)
  note r = schedule_rr [OF ok s2(2)]
  have run: "kthread_return s = (if current_process (schedule s2) = current_process s2 then hw_emit Hlt (schedule s2) else schedule s2)"
    using s1 assms(2) by (simp add: kthread_return_def kthread_exit_def Let_def process_current_def s2_def s1_def)
  have eq: "proc_states (kthread_return s) = proc_states (schedule s2)" "current_process (kthread_return s) = current_process (schedule s2)"
    "sched_ok (kthread_return s) = sched_ok (schedule s2)"
    unfolding run by (simp_all add: hw_emit_def proc_states_def sched_ok_def)
  have z: "proc_states s2 ! c = PROCESS_ZOMBIE" using st c len by (simp add: proc_states_def)
  have "fst (rr_step (proc_states s2) c) ! c = PROCESS_ZOMBIE"
  proof (cases "rr_next (proc_states s2) c")
    case (Some n)
    then have "proc_states s2 ! n = PROCESS_READY" by (auto simp: rr_next_def find_Some_iff)
    then have "n \<noteq> c" using z by auto
    then show ?thesis using Some z by (simp add: rr_step_def)
  qed (simp add: rr_step_def z)
  then show ?thesis using r unfolding eq st by (metis fst_conv)
qed

theorem kthread_return_retires_witness:
  "sched_ok sample_sched \<and> proc_states (kthread_return sample_sched) ! 0 = PROCESS_ZOMBIE"
  using kthread_return_retires [OF sample_sched_ok sample_sched_fields(3)] sample_sched_ok by blast

end
