(* ===== verification/Timer.thy ===== *)
theory Timer
  imports Scheduler
begin

text \<open>
  The programmable interval timer, \<^verbatim>\<open>timer.c\<close>: its programming and the handler of its interrupt,
  which counts the tick, acknowledges the interrupt and calls the scheduler.
\<close>

record timer_state = proc_state +
  ticks :: u32

abbreviation (input) PIT_FREQUENCY :: u32 where "PIT_FREQUENCY \<equiv> 1193182"

definition timer_handler :: "interrupt_frame \<Rightarrow> 'a timer_state_scheme \<Rightarrow> 'a timer_state_scheme" where
  "timer_handler frame s =
     (let s1 = s\<lparr>ticks := ticks s + 1\<rparr>;
          s2 = outb 0x20 0x20 s1
      in schedule s2)"

definition timer_get_ticks :: "'a timer_state_scheme \<Rightarrow> u32" where
  "timer_get_ticks s = ticks s"

text \<open>The divisor that \<^verbatim>\<open>timer_init\<close> programs.\<close>

definition pit_divisor :: "u32 \<Rightarrow> u32" where
  "pit_divisor frequency =
     (let divisor = PIT_FREQUENCY div frequency;
          divisor1 = (if divisor > 65535 then 65535 else divisor)
      in if divisor1 < 1 then 1 else divisor1)"

definition timer_init :: "u32 \<Rightarrow> 'a timer_state_scheme \<Rightarrow> 'a timer_state_scheme" where
  "timer_init frequency s =
     (if frequency = 0 then add_fault Div_By_Zero s
      else
        let divisor = pit_divisor frequency;
            s1 = outb 0x43 0x36 s;
            s2 = outb 0x40 (ucast (divisor AND 0xFF)) s1;
            s3 = outb 0x40 (ucast (drop_bit 8 divisor AND 0xFF)) s2
        in idt_register_handler 32 Timer_handler s3)"

section \<open>Programming the timer\<close>

lemma pit_divisor_nat:
  "unat (pit_divisor f) = max 1 (min 65535 (1193182 div unat f))"
  by (simp add: pit_divisor_def Let_def word_less_nat_alt unat_div_distrib max_def min_def)

lemma divisor_bytes:
  fixes d :: u32
  assumes "unat d < 65536"
  shows "unat (ucast (d AND 0xFF) :: u8) + 256 * unat (ucast (drop_bit 8 d AND 0xFF) :: u8) = unat d"
proof -
  have m: "(255 :: u32) = mask 8" by (simp add: mask_eq_exp_minus_1)
  have lo: "unat (ucast (d AND 0xFF) :: u8) = unat d mod 256"
    by (simp add: m unsigned_ucast_eq unsigned_take_bit_eq flip: take_bit_eq_mask) (simp add: take_bit_eq_mod)
  have "unat (ucast (drop_bit 8 d AND 0xFF) :: u8) = unat d div 256 mod 256"
    by (simp add: m unsigned_ucast_eq unsigned_take_bit_eq unsigned_drop_bit_eq drop_bit_eq_div flip: take_bit_eq_mask)
      (simp add: take_bit_eq_mod unat_div_distrib)
  moreover have "unat d div 256 < 256" using assms by (simp add: div_less_iff_less_mult)
  ultimately show ?thesis using lo by simp
qed

section \<open>Properties\<close>

text \<open>
  C38. \<^verbatim>\<open>timer_init\<close> programs the timer with a divisor that fits in 16 bits and is not zero, which the hardware would
  read as 65536. It sends the mode byte and then the two bytes of the divisor, low byte
  first, and they make up the divisor; from 19 Hz up to the frequency of the timer
  the divisor is the exact quotient. It installs the handler for vector 32 and changes nothing else.
  For the frequency 0 the division faults.
\<close>

theorem timer_init_programs_divisor:
  assumes "32 < length (handlers s)"
  shows "if f = 0 then timer_init f s = add_fault Div_By_Zero s
    else \<exists>lo hi. timer_init f s = s\<lparr>hw_trace := [Outb 0x40 hi, Outb 0x40 lo, Outb 0x43 0x36] @ hw_trace s,
           handlers := (handlers s)[32 := Some Timer_handler]\<rparr>
      \<and> 1 \<le> unat lo + 256 * unat hi \<and> unat lo + 256 * unat hi \<le> 65535
      \<and> (19 \<le> unat f \<and> unat f \<le> 1193182 \<longrightarrow> unat lo + 256 * unat hi = 1193182 div unat f)"
proof (cases "f = 0")
  case False
  let ?d = "pit_divisor f" and ?lo = "ucast (pit_divisor f AND 0xFF) :: u8" and ?hi = "ucast (drop_bit 8 (pit_divisor f) AND 0xFF) :: u8"
  have d: "1 \<le> unat ?d" "unat ?d \<le> 65535" unfolding pit_divisor_nat by simp_all
  have sum: "unat ?lo + 256 * unat ?hi = unat ?d" using d(2) by (intro divisor_bytes) simp
  have exact: "unat ?d = 1193182 div unat f" if f: "19 \<le> unat f" "unat f \<le> 1193182"
  proof -
    have "1193182 div unat f \<le> 1193182 div 19" using f by (intro div_le_mono2) auto
    moreover have "1 \<le> 1193182 div unat f" using f by (simp add: Suc_le_eq div_greater_zero_iff)
    ultimately show ?thesis unfolding pit_divisor_nat by simp
  qed
  have "timer_init f s = s\<lparr>hw_trace := [Outb 0x40 ?hi, Outb 0x40 ?lo, Outb 0x43 0x36] @ hw_trace s,
           handlers := (handlers s)[32 := Some Timer_handler]\<rparr>"
    using False assms by (simp add: timer_init_def Let_def idt_register_handler_def hw_defs)
  then show ?thesis using False sum d exact by (intro if_not_P [THEN iffD2, OF False] exI [of _ ?lo] exI [of _ ?hi]) simp
qed (simp add: timer_init_def)

definition sample_timer :: timer_state where
  "sample_timer = (proc_state.extend sample_sched \<lparr>ticks = 0\<rparr>)\<lparr>handlers := handlers sample_intr\<rparr>"

theorem timer_init_programs_divisor_witness:
  "32 < length (handlers sample_timer)
   \<and> (\<exists>lo hi. hw_trace (timer_init 100 sample_timer) = [Outb 0x40 hi, Outb 0x40 lo, Outb 0x43 0x36] @ hw_trace sample_timer
        \<and> unat lo + 256 * unat hi = 11931)"
proof -
  have h: "32 < length (handlers sample_timer)" by (simp add: sample_timer_def sample_intr_def)
  from timer_init_programs_divisor [OF this, of 100] show ?thesis using h by auto
qed

end
