(* ===== verification/Shell.thy ===== *)
theory Shell
  imports Timer
begin

text \<open>
  The command line, \<^verbatim>\<open>shell.c\<close>: a buffer of 256 characters that the keyboard fills, and four
  commands. The buffer is read as a C string, up to its first null character.
\<close>

section \<open>Data\<close>

record shell_state = timer_state +
  cmd_buffer :: string
  cmd_length :: u32

datatype command = Cmd_help | Cmd_clear | Cmd_about | Cmd_ticks

abbreviation (input) MAX_CMD_LENGTH :: u32 where "MAX_CMD_LENGTH \<equiv> 256"

section \<open>Operations\<close>

fun strcmp :: "string \<Rightarrow> string \<Rightarrow> int" where
  "strcmp [] s2 = - (case s2 of [] \<Rightarrow> 0 | d # _ \<Rightarrow> of_char d)"
| "strcmp (c # s1) s2 =
     (if c \<noteq> char_nul \<and> (case s2 of [] \<Rightarrow> False | d # _ \<Rightarrow> c = d) then strcmp s1 (tl s2)
      else of_char c - (case s2 of [] \<Rightarrow> 0 | d # _ \<Rightarrow> of_char d))"

definition shell_print_uint :: "u32 \<Rightarrow> 'a shell_state_scheme \<Rightarrow> 'a shell_state_scheme" where
  "shell_print_uint num s =
     (if num = 0 then terminal_putchar CHR ''0'' s
      else case uint_fill 12 num [] of
             None \<Rightarrow> add_fault Out_Of_Bounds s
           | Some buffer \<Rightarrow> fold terminal_putchar (rev buffer) s)"

definition shell_prompt :: "'a shell_state_scheme \<Rightarrow> 'a shell_state_scheme" where
  "shell_prompt s = terminal_writestring ''> '' s"

definition cmd_help :: "'a shell_state_scheme \<Rightarrow> 'a shell_state_scheme" where
  "cmd_help s =
     (let s1 = terminal_writestring ''Available commands:\<newline>'' s;
          s2 = terminal_writestring ''help - Show this message\<newline>'' s1;
          s3 = terminal_writestring ''clear - Clear the screen\<newline>'' s2;
          s4 = terminal_writestring ''ticks - Show number of timer ticks since boot\<newline>'' s3
      in terminal_writestring ''about - About TupleOS\<newline>'' s4)"

definition cmd_clear :: "'a shell_state_scheme \<Rightarrow> 'a shell_state_scheme" where
  "cmd_clear s = terminal_initialize s"

definition cmd_about :: "'a shell_state_scheme \<Rightarrow> 'a shell_state_scheme" where
  "cmd_about s =
     (let s1 = terminal_writestring ''TupleOS v0.1\<newline>'' s;
          s2 = terminal_writestring ''A simple hobby OS written in C\<newline>'' s1
      in terminal_writestring ''Created by Aaron Grant and Val Petrov\<newline>'' s2)"

definition cmd_ticks :: "'a shell_state_scheme \<Rightarrow> 'a shell_state_scheme" where
  "cmd_ticks s =
     (let s1 = terminal_writestring ''Ticks since boot: '' s;
          s2 = shell_print_uint (timer_get_ticks s1) s1
      in terminal_putchar char_nl s2)"

definition shell_init :: "'a shell_state_scheme \<Rightarrow> 'a shell_state_scheme" where
  "shell_init s =
     (let s1 = terminal_writestring ''Welcome To The TupleOS Shell\<newline>'' s;
          s2 = terminal_writestring ''Type 'help' for a list of commands\<newline>'' s1
      in shell_prompt s2)"

definition commands :: "(string \<times> command) list" where
  "commands = [(''help'', Cmd_help), (''clear'', Cmd_clear), (''about'', Cmd_about), (''ticks'', Cmd_ticks)]"

fun run_command :: "command \<Rightarrow> 'a shell_state_scheme \<Rightarrow> 'a shell_state_scheme" where
  "run_command Cmd_help s = cmd_help s"
| "run_command Cmd_clear s = cmd_clear s"
| "run_command Cmd_about s = cmd_about s"
| "run_command Cmd_ticks s = cmd_ticks s"

definition shell_execute :: "'a shell_state_scheme \<Rightarrow> 'a shell_state_scheme" where
  "shell_execute s =
     (if unat (cmd_length s) < length (cmd_buffer s) then
        let s1 = s\<lparr>cmd_buffer := (cmd_buffer s)[unat (cmd_length s) := char_nul]\<rparr> in
        case find (\<lambda>c. strcmp (cmd_buffer s1) (fst c) = 0) commands of
          Some c \<Rightarrow> shell_prompt ((run_command (snd c) s1)\<lparr>cmd_length := 0\<rparr>)
        | None \<Rightarrow>
            let s2 = terminal_writestring ''Unknown command: '' s1;
                s3 = terminal_writestring (cmd_buffer s2) s2;
                s4 = terminal_putchar char_nl s3
            in shell_prompt (s4\<lparr>cmd_length := 0\<rparr>)
      else add_fault Out_Of_Bounds s)"

definition shell_handle_key :: "char \<Rightarrow> 'a shell_state_scheme \<Rightarrow> 'a shell_state_scheme" where
  "shell_handle_key c s =
     (if c = char_nl then shell_execute (terminal_putchar char_nl s)
      else if c = CHR 0x08 then
        if cmd_length s > 0 then terminal_putchar CHR 0x08 (s\<lparr>cmd_length := cmd_length s - 1\<rparr>) else s
      else if cmd_length s < MAX_CMD_LENGTH - 1 then
        if unat (cmd_length s) < length (cmd_buffer s) then
          terminal_putchar c (s\<lparr>cmd_buffer := (cmd_buffer s)[unat (cmd_length s) := c], cmd_length := cmd_length s + 1\<rparr>)
        else add_fault Out_Of_Bounds s
      else s)"

section \<open>Output of the commands\<close>

text \<open>The three decimal printers of the kernel, here and in \<^verbatim>\<open>kprintf.c\<close>, are the same function.\<close>

lemma shell_print_uint_eq: "shell_print_uint num s = print_uint num s"
  by (simp add: shell_print_uint_def print_uint_def)

interpretation prompt: console_output shell_prompt
  unfolding shell_prompt_def by (rule writestring.console_output_axioms)

lemmas output_laws = putchar.only_console puint.only_console writestring.only_console initialize.only_console
  putchar.keeps_inv puint.keeps_inv writestring.keeps_inv initialize.keeps_inv
  putchar.no_fault puint.no_fault writestring.no_fault initialize.no_fault

lemmas command_defs = cmd_help_def cmd_clear_def cmd_about_def cmd_ticks_def shell_print_uint_eq Let_def

lemma console_output_run_command: "console_output (run_command c :: 'a shell_state_scheme \<Rightarrow> _)"
  by (cases c; unfold_locales) (simp_all add: command_defs output_laws)

interpretation run: console_output "run_command c" for c
  by (rule console_output_run_command)

section \<open>The command line\<close>

definition shell_wf :: "'a shell_state_scheme \<Rightarrow> bool" where
  "shell_wf s \<longleftrightarrow> term_inv s \<and> length (cmd_buffer s) = 256 \<and> cmd_length s \<le> 255"

definition cmd_line :: "'a shell_state_scheme \<Rightarrow> string" where
  "cmd_line s = take (unat (cmd_length s)) (cmd_buffer s)"

lemma shell_console:
  assumes "console_erase s' = console_erase s"
  shows "cmd_buffer s' = cmd_buffer s" "cmd_length s' = cmd_length s"
  by (rule console_field [OF assms]; simp add: console_erase_def)+

lemma shell_fields [simp]:
  "cmd_buffer (terminal_putchar c s) = cmd_buffer s" "cmd_length (terminal_putchar c s) = cmd_length s"
  "cmd_buffer (terminal_writestring str s) = cmd_buffer s" "cmd_length (terminal_writestring str s) = cmd_length s"
  "cmd_buffer (shell_prompt s) = cmd_buffer s" "cmd_length (shell_prompt s) = cmd_length s"
  "cmd_buffer (run_command k s) = cmd_buffer s" "cmd_length (run_command k s) = cmd_length s"
  by (rule shell_console; rule putchar.only_console writestring.only_console prompt.only_console run.only_console)+

lemma term_inv_line [simp]:
  "term_inv (s\<lparr>cmd_buffer := b\<rparr>) = term_inv s" "term_inv (s\<lparr>cmd_length := n\<rparr>) = term_inv s"
  by (simp_all add: term_inv_def)

lemmas shell_safe = putchar.keeps_inv writestring.keeps_inv prompt.keeps_inv run.keeps_inv
  putchar.no_fault writestring.no_fault prompt.no_fault run.no_fault

lemma shell_execute_wf:
  assumes "shell_wf s"
  shows "shell_wf (shell_execute s) \<and> faults (shell_execute s) = faults s \<and> cmd_length (shell_execute s) = 0"
  using assms by (auto simp: shell_execute_def shell_wf_def Let_def shell_safe word_le_nat_alt split: option.split)

lemma shell_handle_key_wf:
  assumes "shell_wf s"
  shows "shell_wf (shell_handle_key c s) \<and> faults (shell_handle_key c s) = faults s"
proof (cases "c = char_nl")
  case True
  have "shell_wf (terminal_putchar char_nl s)" "faults (terminal_putchar char_nl s) = faults s"
    using assms by (simp_all add: shell_wf_def shell_safe)
  then show ?thesis using True shell_execute_wf [of "terminal_putchar char_nl s"] by (simp add: shell_handle_key_def)
next
  case False
  show ?thesis
  proof (cases "c = CHR 0x08")
    case True
    then show ?thesis using False assms by (auto simp: shell_handle_key_def shell_wf_def shell_safe word_le_nat_alt word_less_nat_alt u32_sub)
  next
    case nb: False
    have "unat (cmd_length s + 1) = unat (cmd_length s) + 1" if "cmd_length s < 255" using that by (simp add: u32_add word_less_nat_alt)
    then show ?thesis using False nb assms
      by (auto simp: shell_handle_key_def shell_wf_def shell_safe word_le_nat_alt word_less_nat_alt)
  qed
qed

text \<open>What the command line leaves alone.\<close>

definition shell_erase :: "'a shell_state_scheme \<Rightarrow> 'a shell_state_scheme" where
  "shell_erase s = (console_erase s)\<lparr>cmd_buffer := [], cmd_length := 0\<rparr>"

lemma shell_erase_upd [simp]:
  "shell_erase (s\<lparr>cmd_buffer := b\<rparr>) = shell_erase s" "shell_erase (s\<lparr>cmd_length := n\<rparr>) = shell_erase s"
  "shell_erase (add_fault f s) = shell_erase s"
  by (simp_all add: shell_erase_def console_erase_def add_fault_def)

lemma shell_erase_console: "console_erase s' = console_erase s \<Longrightarrow> shell_erase s' = shell_erase s"
  by (simp add: shell_erase_def)

lemma shell_erase_ops [simp]:
  "shell_erase (terminal_putchar c s) = shell_erase s" "shell_erase (terminal_writestring str s) = shell_erase s"
  "shell_erase (shell_prompt s) = shell_erase s" "shell_erase (run_command k s) = shell_erase s"
  by (rule shell_erase_console; rule putchar.only_console writestring.only_console prompt.only_console run.only_console)+

lemma shell_erase_key [simp]: "shell_erase (shell_handle_key c s) = shell_erase s"
  by (simp add: shell_handle_key_def shell_execute_def Let_def split: option.split)

lemma shell_erase_init [simp]: "shell_erase (shell_init s) = shell_erase s"
  by (simp add: shell_init_def Let_def)

lemma shell_erase_field:
  assumes "shell_erase s' = shell_erase s" and "\<And>t. f (shell_erase t) = f t"
  shows "f s' = f s"
  using arg_cong [OF assms(1), of f] assms(2) by simp

section \<open>Editing\<close>

definition edit_key :: "char \<Rightarrow> string \<Rightarrow> string" where
  "edit_key c l = (if c = CHR 0x08 then butlast l else if length l < 255 then l @ [c] else l)"

lemma cmd_line_length: "shell_wf s \<Longrightarrow> length (cmd_line s) = unat (cmd_length s)"
  by (simp add: cmd_line_def shell_wf_def word_le_nat_alt)

lemma key_backspace:
  "shell_handle_key CHR 0x08 s = (if cmd_length s = 0 then s else terminal_putchar CHR 0x08 (s\<lparr>cmd_length := cmd_length s - 1\<rparr>))"
  by (simp add: shell_handle_key_def word_greater_zero_iff)

lemma key_text:
  assumes "shell_wf s" and "c \<noteq> char_nl" "c \<noteq> CHR 0x08"
  shows "shell_handle_key c s = (if cmd_length s < 255 then terminal_putchar c
    (s\<lparr>cmd_buffer := (cmd_buffer s)[unat (cmd_length s) := c], cmd_length := cmd_length s + 1\<rparr>) else s)"
  using assms by (simp add: shell_handle_key_def shell_wf_def word_le_nat_alt)

lemma shell_edits:
  assumes wf: "shell_wf s" and c: "c \<noteq> char_nl"
  shows "cmd_line (shell_handle_key c s) = edit_key c (cmd_line s)"
proof -
  let ?n = "unat (cmd_length s)"
  have len: "length (cmd_buffer s) = 256" "?n \<le> 255" using wf by (simp_all add: shell_wf_def word_le_nat_alt)
  show ?thesis
  proof (cases "c = CHR 0x08")
    case True
    have "cmd_length s \<noteq> 0 \<Longrightarrow> unat (cmd_length s - 1) = ?n - 1" by (simp add: u32_sub Suc_le_eq unat_gt_0)
    then have "cmd_line (shell_handle_key c s) = butlast (cmd_line s)"
      using len unfolding True key_backspace by (simp add: cmd_line_def butlast_take)
    then show ?thesis by (simp only: True edit_key_def if_True simp_thms)
  next
    case False
    have "cmd_length s < 255 \<Longrightarrow> unat (cmd_length s + 1) = Suc ?n" by (simp add: u32_add word_less_nat_alt)
    then have "cmd_line (shell_handle_key c s) = (if ?n < 255 then cmd_line s @ [c] else cmd_line s)"
      using len unfolding key_text [OF wf c False] by (simp add: cmd_line_def word_less_nat_alt take_Suc_conv_app_nth)
    then show ?thesis using len by (simp only: edit_key_def False if_False cmd_line_length [OF wf])
  qed
qed

lemma shell_edits_keys:
  assumes "shell_wf s" and "char_nl \<notin> set cs"
  shows "shell_wf (fold shell_handle_key cs s) \<and> faults (fold shell_handle_key cs s) = faults s
    \<and> cmd_line (fold shell_handle_key cs s) = fold edit_key cs (cmd_line s)"
  using assms
proof (induction cs arbitrary: s)
  case (Cons c cs)
  note k = shell_handle_key_wf [OF Cons.prems(1), of c]
  have c: "c \<noteq> char_nl" "char_nl \<notin> set cs" using Cons.prems(2) by auto
  from Cons.IH [OF conjunct1 [OF k] c(2)] show ?case
    unfolding fold_simps shell_edits [OF Cons.prems(1) c(1)] using conjunct2 [OF k] by simp
qed simp

lemma edit_text: "CHR 0x08 \<notin> set cs \<Longrightarrow> length l + length cs \<le> 255 \<Longrightarrow> fold edit_key cs l = l @ cs"
  by (induction cs arbitrary: l) (auto simp: edit_key_def)

section \<open>Dispatch\<close>

lemma of_char_nul: "of_char c = (0 :: int) \<longleftrightarrow> c = char_nul"
proof -
  have "of_char char_nul = (0 :: int)" by simp
  then show ?thesis by (metis of_char_eq_iff)
qed

lemma strcmp_line:
  assumes "char_nul \<notin> set l" and "char_nul \<notin> set name"
  shows "strcmp (l @ char_nul # rest) name = 0 \<longleftrightarrow> l = name"
  using assms
proof (induction l arbitrary: name)
  case Nil
  then show ?case by (cases name) (auto simp: of_char_nul)
next
  case (Cons c l)
  then show ?case by (cases name) (auto simp: of_char_nul)
qed

lemma shell_execute_line:
  assumes wf: "shell_wf s" and l: "char_nul \<notin> set (cmd_line s)"
  defines "t \<equiv> s\<lparr>cmd_buffer := (cmd_buffer s)[unat (cmd_length s) := char_nul]\<rparr>"
  shows "shell_execute s = shell_prompt ((case map_of commands (cmd_line s) of
      Some c \<Rightarrow> run_command c t | None \<Rightarrow> fold terminal_putchar (''Unknown command: '' @ cmd_line s @ [char_nl]) t)\<lparr>cmd_length := 0\<rparr>)"
proof -
  let ?l = "cmd_line s" and ?n = "unat (cmd_length s)"
  have len: "length (cmd_buffer s) = 256" "?n < 256" using wf by (simp_all add: shell_wf_def word_le_nat_alt)
  have b: "cmd_buffer t = ?l @ char_nul # drop (Suc ?n) (cmd_buffer s)"
    using len by (simp add: t_def cmd_line_def upd_conv_take_nth_drop)
  have find: "find (\<lambda>c. strcmp (cmd_buffer t) (fst c) = 0) cs = map_option (Pair ?l) (map_of cs ?l)"
    if "\<And>nm c. (nm, c) \<in> set cs \<Longrightarrow> char_nul \<notin> set nm" for cs :: "(string \<times> command) list"
    using that
  proof (induction cs)
    case (Cons p cs)
    have "char_nul \<notin> set (fst p)" using Cons.prems [of "fst p" "snd p"] by simp
    then have "strcmp (cmd_buffer t) (fst p) = 0 \<longleftrightarrow> ?l = fst p" unfolding b using l by (rule strcmp_line [rotated])
    then show ?case using Cons by (cases p) auto
  qed simp
  have names: "char_nul \<notin> set nm" if "(nm, c) \<in> set commands" for nm c using that by (auto simp: commands_def)
  have tw: "takeWhile (\<lambda>c. c \<noteq> char_nul) (cmd_buffer t) = ?l" unfolding b using l by (subst takeWhile_append2) auto
  have "length ?l < 256" using len by (simp add: cmd_line_def)
  then have "unat (strlen (cmd_buffer t)) = length ?l"
    unfolding strlen_def strlen_loop_eq tw by (simp add: u32_of_nat)
  then have ws: "terminal_writestring (cmd_buffer t) u = fold terminal_putchar ?l u" for u :: "'a shell_state_scheme"
    unfolding terminal_writestring_def using b by (simp add: terminal_write_fold)
  have un: "terminal_writestring ''Unknown command: '' u = fold terminal_putchar ''Unknown command: '' u" for u :: "'a shell_state_scheme"
    by (rule terminal_writestring_fold) simp_all
  show ?thesis
  proof (cases "map_of commands ?l")
    case None
    then show ?thesis using len find [OF names] ws
      by (simp add: shell_execute_def Let_def t_def [symmetric] un del: fold_simps)
  next
    case (Some c)
    then show ?thesis using len find [OF names] by (simp add: shell_execute_def Let_def t_def [symmetric])
  qed
qed

section \<open>Properties\<close>

definition sample_shell :: shell_state where
  "sample_shell = timer_state.extend sample_timer \<lparr>cmd_buffer = replicate 256 char_nul, cmd_length = 0\<rparr>"

lemma sample_shell_ok: "shell_wf sample_shell" "cmd_line sample_shell = []" "faults sample_shell = []"
proof -
  have "term_inv sample_proc" "faults sample_proc = []" using heap_inv_term [OF sample_proc_ok(4)] sample_proc_ok(6) by simp_all
  then show "shell_wf sample_shell" "cmd_line sample_shell = []" "faults sample_shell = []"
    by (simp_all add: shell_wf_def cmd_line_def sample_shell_def sample_timer_def sample_sched_def timer_state.defs proc_state.defs term_inv_def)
qed

text \<open>
  C31. The command line stays well formed: whatever keys arrive, the buffer keeps its 256 bytes, the length stays
  at most 255, so that the terminating null always fits, the cursor stays on the screen, and nothing
  is accessed out of bounds.
\<close>

theorem shell_keys_well_formed:
  assumes "shell_wf s"
  shows "shell_wf (fold shell_handle_key cs s) \<and> faults (fold shell_handle_key cs s) = faults s"
  using assms
proof (induction cs arbitrary: s)
  case (Cons c cs)
  note k = shell_handle_key_wf [OF Cons.prems, of c]
  from Cons.IH [OF conjunct1 [OF k]] show ?case using conjunct2 [OF k] by simp
qed simp

theorem shell_keys_well_formed_witness:
  "shell_wf sample_shell \<and> faults (fold shell_handle_key (replicate 300 CHR ''x'' @ [char_nl]) sample_shell) = []"
  using shell_keys_well_formed [OF sample_shell_ok(1)] sample_shell_ok(1,3) by metis

text \<open>
  C14. Typing a line and the Enter key executes it. From an empty line, after up to 255 characters
  other than newline, backspace and null, and a newline, exactly the command of that name is run; for
  any other line the message with the line is printed. Afterwards the line is empty and the prompt is
  shown. At that moment the line held exactly the characters typed.
\<close>

theorem shell_runs_typed_line:
  assumes "shell_wf s" and "cmd_line s = []" and "length l \<le> 255" and "set l \<inter> {char_nl, CHR 0x08, char_nul} = {}"
  shows "\<exists>u. shell_wf u \<and> faults u = faults s \<and> cmd_line u = l \<and> shell_erase u = shell_erase s
    \<and> fold shell_handle_key (l @ [char_nl]) s = shell_prompt ((case map_of commands l of
        Some c \<Rightarrow> run_command c u
      | None \<Rightarrow> fold terminal_putchar (''Unknown command: '' @ l @ [char_nl]) u)\<lparr>cmd_length := 0\<rparr>)"
proof -
  have l: "char_nl \<notin> set l" "CHR 0x08 \<notin> set l" "char_nul \<notin> set l" using assms(4) by blast+
  define v where "v = terminal_putchar char_nl (fold shell_handle_key l s)"
  note e = shell_edits_keys [OF assms(1) l(1)]
  have "fold edit_key l (cmd_line s) = l" using edit_text [OF l(2), of "[]"] assms(2,3) by simp
  then have v: "shell_wf v" "cmd_line v = l" "faults v = faults s"
    using e by (simp_all add: v_def shell_wf_def shell_safe cmd_line_def)
  let ?u = "v\<lparr>cmd_buffer := (cmd_buffer v)[unat (cmd_length v) := char_nul]\<rparr>"
  have "fold shell_handle_key (l @ [char_nl]) s = shell_execute v" by (simp add: v_def shell_handle_key_def)
  also have "\<dots> = shell_prompt ((case map_of commands l of Some c \<Rightarrow> run_command c ?u
      | None \<Rightarrow> fold terminal_putchar (''Unknown command: '' @ l @ [char_nl]) ?u)\<lparr>cmd_length := 0\<rparr>)"
    using shell_execute_line [OF v(1)] l(3) unfolding v(2) by blast
  finally have run: "fold shell_handle_key (l @ [char_nl]) s = \<dots>" .
  have "shell_erase (fold shell_handle_key l s) = shell_erase s" by (induction l arbitrary: s) simp_all
  moreover have "cmd_line ?u = l" using v(2) by (simp add: cmd_line_def)
  ultimately show ?thesis using run v by (intro exI [of _ ?u]) (simp add: shell_wf_def v_def)
qed

theorem shell_runs_typed_line_witness:
  "\<exists>u. fold shell_handle_key (''about'' @ [char_nl]) sample_shell = shell_prompt ((cmd_about u)\<lparr>cmd_length := 0\<rparr>)"
  using shell_runs_typed_line [OF sample_shell_ok(1,2), of "''about''"] by (auto simp: commands_def)

end
