(* ===== verification/Keyboard.thy ===== *)
theory Keyboard
  imports Shell
begin

text \<open>
  The keyboard driver, \<^verbatim>\<open>keyboard.c\<close>: the handler reads a scan code, follows the shift keys,
  ignores releases and passes the character of the key to the shell.
\<close>

section \<open>Data\<close>

record kbd_state = shell_state +
  shift_held :: bool

definition scancode_to_ascii :: string where
  "scancode_to_ascii =
     [char_nul, char_nul] @ ''1234567890-='' @ [CHR 0x08, CHR 0x09]
     @ ''qwertyuiop[]'' @ [char_nl, char_nul]
     @ ''asdfghjkl;'' @ [CHR 0x27, CHR 0x60, char_nul, CHR 0x5C]
     @ ''zxcvbnm,./'' @ [char_nul] @ ''*'' @ [char_nul] @ '' '' @ [char_nul]
     @ replicate 12 char_nul
     @ ''789-456+1230.''
     @ replicate 44 char_nul"

definition scancode_to_ascii_shifted :: string where
  "scancode_to_ascii_shifted =
     [char_nul, char_nul] @ ''!@#$%^&*()_+'' @ [CHR 0x08, CHR 0x09]
     @ ''QWERTYUIOP{}'' @ [char_nl, char_nul]
     @ ''ASDFGHJKL:'' @ [CHR 0x22, CHR ''~'', char_nul, CHR ''|'']
     @ ''ZXCVBNM<>?'' @ [char_nul] @ ''*'' @ [char_nul] @ '' '' @ [char_nul]
     @ replicate 12 char_nul
     @ ''789-456+1230.''
     @ replicate 44 char_nul"

section \<open>Operations\<close>

definition keyboard_handler :: "interrupt_frame \<Rightarrow> 'a kbd_state_scheme \<Rightarrow> 'a kbd_state_scheme" where
  "keyboard_handler frame s =
     (case inb 0x60 s of
        (scancode, s1) \<Rightarrow>
          if scancode = 0x2A \<or> scancode = 0x36 then s1\<lparr>shift_held := True\<rparr>
          else if scancode = 0xAA \<or> scancode = 0xB6 then s1\<lparr>shift_held := False\<rparr>
          else if scancode AND 0x80 \<noteq> 0 then s1
          else if scancode < 128 then
            let c = (if shift_held s1 then scancode_to_ascii_shifted ! unat scancode
                     else scancode_to_ascii ! unat scancode)
            in if c \<noteq> char_nul then shell_handle_key c s1 else s1
          else s1)"

definition keyboard_init :: "'a kbd_state_scheme \<Rightarrow> 'a kbd_state_scheme" where
  "keyboard_init s = idt_register_handler 33 Keyboard_handler s"

section \<open>The keys\<close>

lemma table_lengths: "length scancode_to_ascii = 128" "length scancode_to_ascii_shifted = 128"
  by (simp_all add: scancode_to_ascii_def scancode_to_ascii_shifted_def)

text \<open>What a sequence of scan codes says: the state of the shift keys and the characters.\<close>

definition code_shift :: "u8 \<Rightarrow> bool \<Rightarrow> bool" where
  "code_shift b sh = (if b = 0x2A \<or> b = 0x36 then True else if b = 0xAA \<or> b = 0xB6 then False else sh)"

definition code_chars :: "u8 \<Rightarrow> bool \<Rightarrow> string" where
  "code_chars b sh =
     (if b = 0x2A \<or> b = 0x36 \<or> 128 \<le> b then []
      else let c = (if sh then scancode_to_ascii_shifted else scancode_to_ascii) ! unat b
           in if c = char_nul then [] else [c])"

fun decode :: "bool \<Rightarrow> u8 list \<Rightarrow> string" where
  "decode sh [] = []"
| "decode sh (b # bs) = code_chars b sh @ decode (code_shift b sh) bs"

lemma high_bit: "(b :: u8) AND 0x80 \<noteq> 0 \<longleftrightarrow> 128 \<le> b"
proof -
  have "push_bit 7 1 = (0x80 :: u8)" by simp
  then have "b AND 0x80 \<noteq> 0 \<longleftrightarrow> bit b 7" using bit_iff_and_push_bit_not_eq_0 [of b 7] by simp
  also have "\<dots> \<longleftrightarrow> bit (unat b) 7" by (simp add: bit_unsigned_iff)
  also have "\<dots> \<longleftrightarrow> 128 \<le> unat b"
  proof -
    have "unat b < 256" using unsigned_less [of b] by simp
    then have "unat b div 128 = (if 128 \<le> unat b then 1 else 0)" by auto
    then show ?thesis by (simp add: bit_iff_odd)
  qed
  finally show ?thesis by (simp add: word_le_nat_alt)
qed

lemma keyboard_handler_eq:
  assumes "port_in s 0x60 (port_reads s 0x60) = b"
  shows "keyboard_handler frame s =
    (fold shell_handle_key (code_chars b (shift_held s)) (snd (inb 0x60 s)))\<lparr>shift_held := code_shift b (shift_held s)\<rparr>"
proof -
  obtain s1 where s1: "inb 0x60 s = (b, s1)" "shift_held s1 = shift_held s" using assms by (simp add: inb_def Let_def hw_defs)
  have same: "s\<lparr>shift_held := shift_held s\<rparr> = s" for s :: "'a kbd_state_scheme" by simp
  have kept: "shift_held (shell_handle_key c t) = shift_held t" for c and t :: "'a kbd_state_scheme"
    by (rule shell_erase_field [OF shell_erase_key]) (simp add: shell_erase_def console_erase_def)
  have keys: "shift_held (fold shell_handle_key cs t) = shift_held t" for cs and t :: "'a kbd_state_scheme"
    by (induction cs arbitrary: t) (simp_all add: kept)
  consider "b = 0x2A \<or> b = 0x36" | "b = 0xAA \<or> b = 0xB6" | "b \<notin> {0x2A, 0x36, 0xAA, 0xB6}" "128 \<le> b" | "b \<notin> {0x2A, 0x36, 0xAA, 0xB6}" "b < 128"
    by force
  then show ?thesis
  proof cases
    case 1
    then show ?thesis by (auto simp: keyboard_handler_def s1 code_chars_def code_shift_def)
  next
    case 2
    then show ?thesis by (auto simp: keyboard_handler_def s1 code_chars_def code_shift_def)
  next
    case 3
    then show ?thesis using high_bit [of b] same [of s1] s1(2) by (simp add: keyboard_handler_def s1 code_chars_def code_shift_def)
  next
    case 4
    then have "b AND 0x80 = 0" using high_bit [of b] by (auto simp: not_le)
    then have "keyboard_handler frame s = fold shell_handle_key (code_chars b (shift_held s)) s1"
      using 4 by (simp add: keyboard_handler_def s1 code_chars_def Let_def not_le)
    moreover have "code_shift b (shift_held s) = shift_held s" using 4(1) by (simp add: code_shift_def)
    ultimately show ?thesis using same [of "fold shell_handle_key (code_chars b (shift_held s)) s1"] s1 unfolding keys by simp
  qed
qed

lemma keyboard_step:
  fixes s :: "'a kbd_state_scheme" and frame :: interrupt_frame
  assumes wf: "shell_wf s" and b: "port_in s 0x60 (port_reads s 0x60) = b" and nl: "char_nl \<notin> set (code_chars b (shift_held s))"
  defines "s' \<equiv> keyboard_handler frame s"
  shows "shell_wf s'" "faults s' = faults s" "cmd_line s' = fold edit_key (code_chars b (shift_held s)) (cmd_line s)"
    "shift_held s' = code_shift b (shift_held s)" "port_in s' = port_in s" "port_reads s' 0x60 = Suc (port_reads s 0x60)"
proof -
  let ?s1 = "snd (inb 0x60 s)" and ?cs = "code_chars b (shift_held s)"
  let ?t = "fold shell_handle_key ?cs ?s1"
  have s1: "shell_wf ?s1" "cmd_line ?s1 = cmd_line s" "faults ?s1 = faults s" "port_in ?s1 = port_in s"
    "port_reads ?s1 0x60 = Suc (port_reads s 0x60)"
    using wf by (simp_all add: inb_def Let_def hw_defs shell_wf_def cmd_line_def term_inv_def)
  note k = shell_edits_keys [OF s1(1) nl]
  have e: "shell_erase (fold shell_handle_key cs t) = shell_erase t" for cs and t :: "'a kbd_state_scheme"
    by (induction cs arbitrary: t) simp_all
  have p: "port_in ?t = port_in ?s1" "port_reads ?t = port_reads ?s1"
    by (rule shell_erase_field [OF e]; simp add: shell_erase_def console_erase_def)+
  have s': "s' = ?t\<lparr>shift_held := code_shift b (shift_held s)\<rparr>" unfolding s'_def by (rule keyboard_handler_eq [OF b])
  show "shell_wf s'" "faults s' = faults s" "cmd_line s' = fold edit_key ?cs (cmd_line s)"
    "shift_held s' = code_shift b (shift_held s)" "port_in s' = port_in s" "port_reads s' 0x60 = Suc (port_reads s 0x60)"
    unfolding s' using k s1 p by (simp_all add: shell_wf_def cmd_line_def term_inv_def)
qed

lemma keyboard_steps:
  assumes "shell_wf s" and "\<And>k. k < length bs \<Longrightarrow> port_in s 0x60 (port_reads s 0x60 + k) = bs ! k"
    and "char_nl \<notin> set (decode (shift_held s) bs)"
  shows "shell_wf ((keyboard_handler frame ^^ length bs) s) \<and> faults ((keyboard_handler frame ^^ length bs) s) = faults s
    \<and> cmd_line ((keyboard_handler frame ^^ length bs) s) = fold edit_key (decode (shift_held s) bs) (cmd_line s)
    \<and> shift_held ((keyboard_handler frame ^^ length bs) s) = fold code_shift bs (shift_held s)"
  using assms
proof (induction bs arbitrary: s)
  case (Cons b bs)
  have b: "port_in s 0x60 (port_reads s 0x60) = b" using Cons.prems(2) [of 0] by simp
  have nl: "char_nl \<notin> set (code_chars b (shift_held s))" using Cons.prems(3) by simp
  note k = keyboard_step [OF Cons.prems(1) b nl, where frame = frame]
  have "port_in (keyboard_handler frame s) 0x60 (port_reads (keyboard_handler frame s) 0x60 + j) = bs ! j" if "j < length bs" for j
    using Cons.prems(2) [of "Suc j"] that k(5,6) by simp
  moreover have "char_nl \<notin> set (decode (shift_held (keyboard_handler frame s)) bs)" using Cons.prems(3) k(4) by simp
  ultimately show ?case using Cons.IH [OF k(1)] k(2-4) by (simp add: funpow_swap1)
qed simp

section \<open>Properties\<close>

text \<open>
  C15. The keyboard driver and the line editor together: when the keyboard controller delivers a
  sequence of scan codes, one per interrupt, the command line is edited by exactly the characters these
  codes stand for, with the shift keys followed and key releases and keys without a character ignored, as
  long as Enter is not among them. The tables are never read out of bounds: no fault occurs.
\<close>

theorem keyboard_edits_line:
  assumes "shell_wf s" and "\<forall>k < length bs. port_in s 0x60 (port_reads s 0x60 + k) = bs ! k"
    and "char_nl \<notin> set (decode (shift_held s) bs)"
  shows "shell_wf ((keyboard_handler frame ^^ length bs) s) \<and> faults ((keyboard_handler frame ^^ length bs) s) = faults s
    \<and> cmd_line ((keyboard_handler frame ^^ length bs) s) = fold edit_key (decode (shift_held s) bs) (cmd_line s)
    \<and> shift_held ((keyboard_handler frame ^^ length bs) s) = fold code_shift bs (shift_held s)"
  by (rule keyboard_steps) (use assms in auto)

text \<open>Shift, a, release of a, release of shift, a, k, backspace, b.\<close>

definition sample_codes :: "u8 list" where
  "sample_codes = [0x2A, 0x1E, 0x9E, 0xAA, 0x1E, 0x25, 0x0E, 0x30]"

definition sample_kbd :: kbd_state where
  "sample_kbd = (shell_state.extend sample_shell \<lparr>shift_held = False\<rparr>)
     \<lparr>port_reads := (\<lambda>_. 0), port_in := (\<lambda>_ k. if k < length sample_codes then sample_codes ! k else 0)\<rparr>"

lemma sample_kbd_ok: "shell_wf sample_kbd" "cmd_line sample_kbd = []" "\<not> shift_held sample_kbd" "faults sample_kbd = []"
  using sample_shell_ok by (simp_all add: sample_kbd_def shell_wf_def cmd_line_def term_inv_def shell_state.defs)

theorem keyboard_edits_line_witness:
  "\<forall>frame. cmd_line ((keyboard_handler frame ^^ 8) sample_kbd) = ''Aab''"
proof -
  have d: "decode False sample_codes = ''Aak'' @ [CHR 0x08] @ ''b''"
    by (simp add: sample_codes_def code_chars_def code_shift_def scancode_to_ascii_def scancode_to_ascii_shifted_def Let_def)
  have l: "length sample_codes = 8" by (simp add: sample_codes_def)
  have p: "\<forall>k < length sample_codes. port_in sample_kbd 0x60 (port_reads sample_kbd 0x60 + k) = sample_codes ! k"
    by (simp add: sample_kbd_def)
  have sh: "shift_held sample_kbd = False" using sample_kbd_ok(3) by simp
  have "char_nl \<notin> set (decode (shift_held sample_kbd) sample_codes)" unfolding sh d by simp
  note t = keyboard_edits_line [OF sample_kbd_ok(1) p this, unfolded sh d sample_kbd_ok(2) l]
  have "fold edit_key (''Aak'' @ [CHR 0x08] @ ''b'') [] = ''Aab''" by (simp add: edit_key_def)
  then show ?thesis using t by metis
qed

end
