(* ===== verification/Vmm_Regions.thy ===== *)
theory Vmm_Regions
  imports Vmm "HOL-Library.Multiset"
begin

text \<open>
  The region lists of \<^verbatim>\<open>vmm.c\<close>. A list in the pool is described by the sequence of the indices it
  runs through; the walks of the code end on such a list and are the functions on sequences one
  expects. Insertion keeps a list sorted by base address; \<^verbatim>\<open>vmm_init\<close> describes the kernel's memory
  from the first page of the window to the end of the heap without gap or overlap.
\<close>

section \<open>Lists in the pool\<close>

fun rseg :: "vmm_region list \<Rightarrow> nat option \<Rightarrow> nat list \<Rightarrow> nat option \<Rightarrow> bool" where
  "rseg pool st [] en \<longleftrightarrow> st = en"
| "rseg pool st (i # is) en \<longleftrightarrow> st = Some i \<and> i < length pool \<and> rseg pool (r_next (pool ! i)) is en"

lemma rseg_append: "rseg pool st (xs @ ys) en \<longleftrightarrow> (\<exists>m. rseg pool st xs m \<and> rseg pool m ys en)"
  by (induction xs arbitrary: st) auto

lemma rseg_None: "rseg pool None is None \<longleftrightarrow> is = []"
  by (cases "is") auto

lemma rseg_unique: "rseg pool st xs None \<Longrightarrow> rseg pool st ys None \<Longrightarrow> xs = ys"
proof (induction xs arbitrary: st ys)
  case (Cons x xs)
  then show ?case by (cases ys) auto
qed (auto simp: rseg_None)

lemma rseg_bound: "rseg pool st is en \<Longrightarrow> i \<in> set is \<Longrightarrow> i < length pool"
  by (induction "is" arbitrary: st) auto

lemma rseg_distinct: "rseg pool st is None \<Longrightarrow> distinct is"
proof (induction "is" arbitrary: st)
  case (Cons i "is")
  have "i \<notin> set is"
  proof
    assume "i \<in> set is"
    then obtain ys zs where "is": "is = ys @ i # zs" by (meson split_list)
    have "rseg pool (Some i) (i # is) None" using Cons.prems by simp
    moreover have "rseg pool (Some i) (i # zs) None" using Cons.prems unfolding "is" by (auto simp: rseg_append)
    ultimately have "i # is = i # zs" by (rule rseg_unique)
    then show False by (simp add: "is")
  qed
  then show ?case using Cons by auto
qed simp

lemma rseg_cong:
  assumes "\<And>i. i \<in> set is \<Longrightarrow> r_next (pool' ! i) = r_next (pool ! i)" and "length pool' = length pool"
  shows "rseg pool' st is en = rseg pool st is en"
  using assms by (induction "is" arbitrary: st) auto

text \<open>The first node of a property.\<close>

lemma chain_find_spec:
  "rseg pool st is None \<Longrightarrow> chain_find pool P st = Some (find (\<lambda>i. P (pool ! i)) is)"
  by (induction "is" arbitrary: st) (simp_all add: chain_find.simps)

text \<open>The walks of \<^verbatim>\<open>insert_region\<close> and \<^verbatim>\<open>remove_region\<close>: the node before the place.\<close>

lemma insert_walk_spec:
  assumes "rseg pool (Some i) (i # is) None"
  shows "insert_walk pool b i = Some (last (i # takeWhile (\<lambda>j. r_base (pool ! j) < b) is))"
  using assms
proof (induction "is" arbitrary: i)
  case Nil
  then show ?case by (simp add: insert_walk.simps)
next
  case (Cons j "is")
  then show ?case by (simp add: insert_walk.simps [of pool b i])
qed

lemma remove_walk_spec:
  assumes "rseg pool (Some i) (i # is) None"
  shows "remove_walk pool r i = Some (last (i # takeWhile (\<lambda>j. j \<noteq> r) is))"
  using assms
proof (induction "is" arbitrary: i)
  case Nil
  then show ?case by (simp add: remove_walk.simps)
next
  case (Cons j "is")
  then show ?case by (simp add: remove_walk.simps [of pool r i])
qed

section \<open>Insertion\<close>

text \<open>What a region says, apart from its link.\<close>

definition region_at :: "vmm_region list \<Rightarrow> nat \<Rightarrow> vmm_region" where
  "region_at pool i = (pool ! i)\<lparr>r_next := None\<rparr>"

lemma region_at_fields [simp]:
  "r_base (region_at pool i) = r_base (pool ! i)" "r_size (region_at pool i) = r_size (pool ! i)"
  "r_flags (region_at pool i) = r_flags (pool ! i)" "r_type (region_at pool i) = r_type (pool ! i)"
  by (simp_all add: region_at_def)

definition link_to :: "nat \<Rightarrow> nat option \<Rightarrow> vmm_region list \<Rightarrow> vmm_region list" where
  "link_to i n pool = pool[i := (pool ! i)\<lparr>r_next := n\<rparr>]"

lemma link_to_simps [simp]:
  "length (link_to i n pool) = length pool" "region_at (link_to i n pool) j = region_at pool j"
  "i \<noteq> j \<Longrightarrow> link_to i n pool ! j = pool ! j" "i < length pool \<Longrightarrow> r_next (link_to i n pool ! i) = n"
proof -
  show "region_at (link_to i n pool) j = region_at pool j"
    by (cases "i < length pool"; cases "i = j") (simp_all add: link_to_def region_at_def list_update_beyond)
qed (simp_all add: link_to_def)

lemma set_next_region_eq: "set_next_region i n s = s\<lparr>region_pool := link_to i n (region_pool s)\<rparr>"
  by (simp add: set_next_region_def link_to_def)

lemma rseg_link_other: "i \<notin> set is \<Longrightarrow> rseg (link_to i n pool) st is en = rseg pool st is en"
proof (rule rseg_cong)
  show "r_next (link_to i n pool ! j) = r_next (pool ! j)" if "i \<notin> set is" "j \<in> set is" for j
    using that by (cases "i = j") simp_all
qed simp

lemma rseg_front:
  assumes "rseg pool st is None" and "r \<notin> set is" and "r < length pool"
  shows "rseg (link_to r st pool) (Some r) (r # is) None"
  using assms by (simp add: rseg_link_other)

lemma rseg_insert:
  assumes seg: "rseg pool st (xs @ c # ys) None" and r: "r \<notin> set (xs @ c # ys)" "r < length pool"
  shows "rseg (link_to c (Some r) (link_to r (r_next (pool ! c)) pool)) st (xs @ c # r # ys) None"
proof -
  let ?p = "link_to r (r_next (pool ! c)) pool"
  have d: "c \<notin> set xs" "c \<notin> set ys" "c \<noteq> r" using rseg_distinct [OF seg] r by auto
  obtain m where m: "rseg pool st xs m" "m = Some c" "c < length pool" "rseg pool (r_next (pool ! c)) ys None"
    using seg by (auto simp: rseg_append)
  have "rseg (link_to c (Some r) ?p) st xs (Some c)" using m d r by (simp add: rseg_link_other)
  moreover have "rseg (link_to c (Some r) ?p) (r_next (pool ! c)) ys None" using m d r by (simp add: rseg_link_other)
  ultimately show ?thesis using m d r by (auto simp: rseg_append)
qed

text \<open>The sequence after insertion: at the front, or behind the first node and those that are smaller.\<close>

definition place :: "(nat \<Rightarrow> u32) \<Rightarrow> nat \<Rightarrow> nat list \<Rightarrow> nat list" where
  "place key r is =
     (case is of
        [] \<Rightarrow> [r]
      | i # js \<Rightarrow>
          if key r < key i then r # i # js
          else i # takeWhile (\<lambda>j. key j < key r) js @ r # dropWhile (\<lambda>j. key j < key r) js)"

lemma insert_region_spec:
  assumes seg: "rseg (region_pool s) (as_regions (spaces s sp)) is None"
    and r: "r \<notin> set is" "r < length (region_pool s)"
  obtains pool' first where
    "insert_region sp r s = s\<lparr>region_pool := pool',
       spaces := (spaces s)(sp := (spaces s sp)\<lparr>as_regions := first, as_count := as_count (spaces s sp) + 1\<rparr>)\<rparr>"
    "rseg pool' first (place (\<lambda>i. r_base (region_pool s ! i)) r is) None"
    "length pool' = length (region_pool s)" "\<And>i. region_at pool' i = region_at (region_pool s) i"
    "\<And>i. i \<noteq> r \<Longrightarrow> i \<notin> set is \<Longrightarrow> pool' ! i = region_pool s ! i"
proof (cases "is")
  case Nil
  then have "as_regions (spaces s sp) = None" using seg by simp
  then have ins: "insert_region sp r s = s\<lparr>region_pool := link_to r None (region_pool s),
       spaces := (spaces s)(sp := (spaces s sp)\<lparr>as_regions := Some r, as_count := as_count (spaces s sp) + 1\<rparr>)\<rparr>"
    by (simp add: insert_region_def set_next_region_eq set_regions_def set_count_def Let_def)
  show thesis using r Nil by (intro that [OF ins]) (simp_all add: place_def)
next
  case (Cons i js)
  let ?p = "region_pool s" and ?b = "r_base (region_pool s ! r)"
  have first: "as_regions (spaces s sp) = Some i" using seg Cons by simp
  show thesis
  proof (cases "?b < r_base (?p ! i)")
    case True
    then have ins: "insert_region sp r s = s\<lparr>region_pool := link_to r (Some i) ?p,
        spaces := (spaces s)(sp := (spaces s sp)\<lparr>as_regions := Some r, as_count := as_count (spaces s sp) + 1\<rparr>)\<rparr>"
      using first by (simp add: insert_region_def set_next_region_eq set_regions_def set_count_def Let_def)
    have "rseg (link_to r (Some i) ?p) (Some r) (r # i # js) None"
      using rseg_front [OF seg r] first Cons by simp
    then show thesis using True Cons by (intro that [OF ins]) (simp_all add: place_def)
  next
    case False
    let ?t = "takeWhile (\<lambda>j. r_base (?p ! j) < ?b) js" and ?d = "dropWhile (\<lambda>j. r_base (?p ! j) < ?b) js"
    define c where "c = last (i # ?t)"
    have walk: "insert_walk ?p ?b i = Some c"
      unfolding c_def using seg Cons first by (intro insert_walk_spec) simp
    let ?q = "link_to c (Some r) (link_to r (r_next (?p ! c)) ?p)"
    have ins: "insert_region sp r s = s\<lparr>region_pool := ?q,
        spaces := (spaces s)(sp := (spaces s sp)\<lparr>as_regions := Some i, as_count := as_count (spaces s sp) + 1\<rparr>)\<rparr>"
      using first False walk
      by (cases "spaces s sp") (simp add: insert_region_def set_next_region_eq set_count_def Let_def)
    have before: "butlast (i # ?t) @ c # zs = i # ?t @ zs" for zs
    proof -
      have "butlast (i # ?t) @ c # zs = (butlast (i # ?t) @ [c]) @ zs" by simp
      also have "\<dots> = i # ?t @ zs" unfolding c_def by (subst append_butlast_last_id) simp_all
      finally show ?thesis .
    qed
    have split: "is = butlast (i # ?t) @ c # ?d" unfolding before Cons by simp
    have "rseg ?q (as_regions (spaces s sp)) (butlast (i # ?t) @ c # r # ?d) None"
      using seg r unfolding split by (rule rseg_insert)
    then have "rseg ?q (Some i) (i # ?t @ r # ?d) None" unfolding before first .
    moreover have "?q ! j = ?p ! j" if "j \<noteq> r" "j \<notin> set is" for j
    proof -
      have "c \<noteq> j" using arg_cong [OF split, of set] that(2) by auto
      then show ?thesis using that(1) by simp
    qed
    ultimately show thesis using Cons False by (intro that [OF ins]) (simp_all add: place_def)
  qed
qed

lemma place_facts: "mset (place key r is) = add_mset r (mset is)" "set (place key r is) = insert r (set is)"
  "length (place key r is) = Suc (length is)"
proof -
  show m: "mset (place key r is) = add_mset r (mset is)"
  proof (cases "is")
    case (Cons i js)
    have "mset js = mset (takeWhile (\<lambda>j. key j < key r) js) + mset (dropWhile (\<lambda>j. key j < key r) js)"
      by (metis mset_append takeWhile_dropWhile_id)
    then show ?thesis using Cons by (simp add: place_def)
  qed (simp add: place_def)
  show "set (place key r is) = insert r (set is)" using arg_cong [OF m, of set_mset] by simp
  show "length (place key r is) = Suc (length is)" using arg_cong [OF m, of size] by simp
qed

lemma place_sorted:
  assumes "sorted (map key is)"
  shows "sorted (map key (place key r is))"
proof (cases "is")
  case (Cons i js)
  let ?t = "takeWhile (\<lambda>j. key j < key r) js" and ?d = "dropWhile (\<lambda>j. key j < key r) js"
  show ?thesis
  proof (cases "key r < key i")
    case True
    then show ?thesis using assms Cons by (auto simp: place_def)
  next
    case False
    have s: "sorted (map key (?t @ ?d))" "\<forall>j \<in> set js. key i \<le> key j" using assms Cons by auto
    then have td: "sorted (map key ?t)" "sorted (map key ?d)" "\<forall>a \<in> set ?t. \<forall>b \<in> set ?d. key a \<le> key b"
      unfolding map_append sorted_append by auto
    have t: "\<forall>a \<in> set ?t. key a < key r" by (auto dest: set_takeWhileD)
    have d: "\<forall>b \<in> set ?d. key r \<le> key b"
    proof (cases ?d)
      case (Cons b bs)
      have "\<not> key b < key r" using hd_dropWhile [of "\<lambda>j. key j < key r" js] Cons by simp
      then show ?thesis using td(2) Cons by auto
    next
      case Nil
      then show ?thesis unfolding Nil by simp
    qed
    have "\<forall>b \<in> set ?d. key i \<le> key b" "\<forall>a \<in> set ?t. key i \<le> key a" using s(2) set_dropWhileD set_takeWhileD by fast+
    then show ?thesis using False td t d Cons by (auto simp: place_def sorted_append)
  qed
qed (simp add: place_def)

lemma insort_key_split: "insort_key f x xs = takeWhile (\<lambda>y. f y < f x) xs @ x # dropWhile (\<lambda>y. f y < f x) xs"
  by (induction xs) auto

lemma place_insort: "key r \<notin> key ` set is \<Longrightarrow> place key r is = insort_key key r is"
  by (cases "is") (auto simp: place_def insort_key_split)

lemma map_insort_key: "map g (insort_key (\<lambda>x. f (g x)) x xs) = insort_key f (g x) (map g xs)"
  by (induction xs) auto

section \<open>Address spaces\<close>

text \<open>A well-formed region list of an address space: sorted, counted, within the used part of the pool.\<close>

definition region_seq :: "'a vmm_state_scheme \<Rightarrow> u32 \<Rightarrow> nat list \<Rightarrow> bool" where
  "region_seq s sp is \<longleftrightarrow> rseg (region_pool s) (as_regions (spaces s sp)) is None
     \<and> sorted (map (\<lambda>i. r_base (region_pool s ! i)) is) \<and> as_count (spaces s sp) = of_nat (length is)
     \<and> set is \<subseteq> {..<unat (region_pool_used s)} \<and> length (region_pool s) = 256 \<and> region_pool_used s \<le> 256"

definition space_regions :: "'a vmm_state_scheme \<Rightarrow> nat list \<Rightarrow> vmm_region list" where
  "space_regions s is = map (region_at (region_pool s)) is"

definition new_region :: "u32 \<Rightarrow> u32 \<Rightarrow> u32 \<Rightarrow> vmm_region_type \<Rightarrow> vmm_region" where
  "new_region base sz flags type = \<lparr>r_base = base, r_size = sz, r_flags = flags, r_type = type, r_next = None\<rparr>"

text \<open>Only the regions and the list head change.\<close>

definition regions_only :: "u32 \<Rightarrow> 'a vmm_state_scheme \<Rightarrow> 'a vmm_state_scheme \<Rightarrow> bool" where
  "regions_only sp s s' \<longleftrightarrow> kheap_state.truncate s' = kheap_state.truncate s \<and> current_space s' = current_space s
     \<and> vmm_state.more s' = vmm_state.more s \<and> as_directory (spaces s' sp) = as_directory (spaces s sp)
     \<and> (\<forall>sp'. sp' \<noteq> sp \<longrightarrow> spaces s' sp' = spaces s sp')"

lemma register_spec:
  assumes seq: "region_seq s sp is" and room: "region_pool_used s < 256"
  obtains s' is' where
    "register_existing_region sp base sz flags type s = (Some (unat (region_pool_used s)), s')"
    "region_seq s' sp is'" "length is' = Suc (length is)"
    "mset (space_regions s' is') = add_mset (new_region base sz flags type) (mset (space_regions s is))"
    "base \<notin> r_base ` set (space_regions s is) \<Longrightarrow>
       space_regions s' is' = insort_key r_base (new_region base sz flags type) (space_regions s is)"
    "regions_only sp s s'" "region_pool_used s' = region_pool_used s + 1"
    "\<And>i. i < unat (region_pool_used s) \<Longrightarrow> i \<notin> set is \<Longrightarrow> region_pool s' ! i = region_pool s ! i"
proof -
  define r where "r = unat (region_pool_used s)"
  have q: "rseg (region_pool s) (as_regions (spaces s sp)) is None" "length (region_pool s) = 256"
    "sorted (map (\<lambda>i. r_base (region_pool s ! i)) is)" "as_count (spaces s sp) = of_nat (length is)" "set is \<subseteq> {..<r}"
    using seq by (auto simp: region_seq_def r_def)
  have r: "r < 256" using room by (simp add: r_def word_less_nat_alt)
  have fresh: "r \<notin> set is" using q(5) by auto
  define n where "n = new_region base sz flags type"
  define p where "p = (region_pool s)[r := n]"
  define t where "t = s\<lparr>region_pool_used := region_pool_used s + 1, region_pool := p\<rparr>"
  have run: "register_existing_region sp base sz flags type s = (Some r, insert_region sp r t)"
    using room r q(2) by (simp add: register_existing_region_def alloc_region_def Let_def fill_region_def t_def p_def n_def
        new_region_def r_def [symmetric] not_le)
  have p: "length p = 256" "p ! r = n" "\<And>i. i \<noteq> r \<Longrightarrow> p ! i = region_pool s ! i"
    using r q(2) by (simp_all add: p_def)
  have same: "p ! i = region_pool s ! i" if "i \<in> set is" for i using p(3) fresh that by metis
  have seg: "rseg (region_pool t) (as_regions (spaces t sp)) is None"
    using q(1) rseg_cong [of "is" p "region_pool s"] same p(1) q(2) by (simp add: t_def)
  have rt: "r < length (region_pool t)" using r p(1) by (simp add: t_def)
  let ?key = "\<lambda>i. r_base (p ! i)"
  obtain pool' first where ins: "insert_region sp r t = t\<lparr>region_pool := pool',
       spaces := (spaces t)(sp := (spaces t sp)\<lparr>as_regions := first, as_count := as_count (spaces t sp) + 1\<rparr>)\<rparr>"
    and seg': "rseg pool' first (place ?key r is) None" and len: "length pool' = 256"
    and at: "\<And>i. region_at pool' i = region_at p i" and other: "\<And>i. i \<noteq> r \<Longrightarrow> i \<notin> set is \<Longrightarrow> pool' ! i = p ! i"
    by (rule insert_region_spec [OF seg fresh rt]) (auto simp: t_def p(1))
  define s' where "s' = insert_region sp r t"
  let ?is = "place ?key r is"
  have f: "region_pool s' = pool'" "region_pool_used s' = region_pool_used s + 1" "as_regions (spaces s' sp) = first"
    "as_count (spaces s' sp) = as_count (spaces s sp) + 1"
    by (simp_all add: s'_def ins) (simp_all add: t_def)
  have only: "regions_only sp s s'"
    by (simp add: regions_only_def s'_def ins) (simp add: t_def kheap_state.defs)
  have base: "r_base (pool' ! i) = ?key i" for i using arg_cong [OF at [of i], of r_base] by simp
  have keys: "map ?key is = map (\<lambda>i. r_base (region_pool s ! i)) is" using same by simp
  have used: "unat (region_pool_used s + 1) = Suc r" using r by (simp add: r_def u32_add)
  have "region_seq s' sp ?is"
    unfolding region_seq_def
  proof (intro conjI)
    show "rseg (region_pool s') (as_regions (spaces s' sp)) ?is None" using seg' f by simp
    show "sorted (map (\<lambda>i. r_base (region_pool s' ! i)) ?is)" using place_sorted [of ?key "is" r] q(3) keys by (simp add: f base)
    show "as_count (spaces s' sp) = of_nat (length ?is)" by (simp add: f q(4) place_facts)
    show "set ?is \<subseteq> {..<unat (region_pool_used s')}" using q(5) by (auto simp: f used place_facts)
    show "length (region_pool s') = 256" by (simp add: f len)
    show "region_pool_used s' \<le> 256" using used r by (simp add: f word_le_nat_alt)
  qed
  moreover have sr: "space_regions s' xs = map (region_at p) xs" for xs by (simp add: space_regions_def f at)
  have old: "map (region_at p) is = space_regions s is" using same by (simp add: space_regions_def region_at_def)
  have n: "region_at p r = n" by (simp add: region_at_def p n_def new_region_def)
  have "mset (space_regions s' ?is) = add_mset n (mset (space_regions s is))"
    by (simp add: sr place_facts n flip: old)
  moreover have "space_regions s' ?is = insort_key r_base n (space_regions s is)"
    if "base \<notin> r_base ` set (space_regions s is)"
  proof -
    have b: "?key r = base" by (simp add: p n_def new_region_def)
    have "?key r \<notin> ?key ` set is" using that same by (auto simp: b space_regions_def image_iff)
    then have "place ?key r is = insort_key (\<lambda>i. r_base (region_at p i)) r is" by (simp add: place_insort)
    then show ?thesis using map_insort_key [of "region_at p" r_base r "is"] by (simp add: sr n old)
  qed
  moreover have "region_pool s' ! i = region_pool s ! i" if "i < r" "i \<notin> set is" for i
    using other [of i] p(3) [of i] that by (simp add: f)
  ultimately show thesis using run only f(2) by (intro that [of s' ?is]) (simp_all add: s'_def n_def r_def place_facts)
qed

lemma insort_key_last: "(\<And>y. y \<in> set xs \<Longrightarrow> f y < f x) \<Longrightarrow> insort_key f x xs = xs @ [x]"
proof (induction xs)
  case (Cons a xs)
  then have "\<not> f x \<le> f a" by (simp add: not_le)
  then show ?case using Cons by simp
qed simp

lemma regions_only_trans: "regions_only sp s t \<Longrightarrow> regions_only sp t u \<Longrightarrow> regions_only sp s u"
  by (simp add: regions_only_def)

text \<open>Registering regions from low to high addresses.\<close>

lemma register_last:
  assumes seq: "region_seq s sp is" and room: "unat (region_pool_used s) < 256"
    and above: "\<And>r. r \<in> set (space_regions s is) \<Longrightarrow> r_base r < base"
  obtains s' is' where "snd (register_existing_region sp base sz flags type s) = s'" "region_seq s' sp is'"
    "space_regions s' is' = space_regions s is @ [new_region base sz flags type]"
    "regions_only sp s s'" "unat (region_pool_used s') = Suc (unat (region_pool_used s))"
proof -
  have "region_pool_used s < 256" using room by (simp add: word_less_nat_alt)
  then obtain s' is' where s': "register_existing_region sp base sz flags type s = (Some (unat (region_pool_used s)), s')"
    "region_seq s' sp is'" "base \<notin> r_base ` set (space_regions s is) \<Longrightarrow>
       space_regions s' is' = insort_key r_base (new_region base sz flags type) (space_regions s is)"
    "regions_only sp s s'" "region_pool_used s' = region_pool_used s + 1"
    by (rule register_spec [OF seq]) (rule that; assumption)
  have "base \<notin> r_base ` set (space_regions s is)" using above by fastforce
  then have "space_regions s' is' = space_regions s is @ [new_region base sz flags type]"
    using s'(3) above by (simp add: insort_key_last new_region_def)
  moreover have "unat (region_pool_used s') = Suc (unat (region_pool_used s))" using room by (simp add: s'(5) u32_add)
  ultimately show thesis using s'(1,2,4) by (intro that [of s' is']) simp_all
qed

section \<open>Printing the list\<close>

lemma vmm_console:
  assumes "console_erase s' = console_erase s"
  shows "region_pool s' = region_pool s" "spaces s' = spaces s" "current_space s' = current_space s"
    "region_pool_used s' = region_pool_used s" "handlers s' = handlers s" "sym s' = sym s" "mem s' = mem s"
  by (rule console_field [OF assms]; simp add: console_erase_def)+

lemmas vmm_kprintf [simp] = vmm_console [OF console_erase_kprintf]

lemma region_seq_cong:
  assumes "region_pool s' = region_pool s" "spaces s' = spaces s" "region_pool_used s' = region_pool_used s"
  shows "region_seq s' = region_seq s" "space_regions s' = space_regions s"
  using assms by (simp_all add: fun_eq_iff region_seq_def space_regions_def)

lemma print_region_ok: "term_inv s \<Longrightarrow> term_inv (print_region r s) \<and> faults (print_region r s) = faults s"
  by (simp add: print_region_def kprintf_safe)

lemma dump_walk_spec:
  "rseg (region_pool s) st is None \<Longrightarrow> term_inv s \<Longrightarrow>
     \<exists>s'. dump_walk st s = Some s' \<and> console_erase s' = console_erase s \<and> term_inv s' \<and> faults s' = faults s"
proof (induction "is" arbitrary: st s)
  case Nil
  then show ?case by (simp add: dump_walk.simps)
next
  case (Cons i "is")
  let ?s = "print_region (region_pool s ! i) s"
  have c: "console_erase ?s = console_erase s" by (simp add: print_region_def)
  have "rseg (region_pool ?s) (r_next (region_pool s ! i)) is None" using Cons.prems(1) vmm_console [OF c] by simp
  from Cons.IH [OF this] obtain s' where "dump_walk (r_next (region_pool s ! i)) ?s = Some s'"
    "console_erase s' = console_erase s" "term_inv s'" "faults s' = faults s"
    using c print_region_ok [OF Cons.prems(2), of "region_pool s ! i"] by auto
  then show ?case using Cons.prems(1) by (simp add: dump_walk.simps [of "Some i"])
qed

lemma dump_regions_spec:
  assumes "region_seq s sp is" and "term_inv s" and "sp \<noteq> 0"
  shows "console_erase (vmm_dump_regions sp s) = console_erase s" "term_inv (vmm_dump_regions sp s)"
    "faults (vmm_dump_regions sp s) = faults s"
proof -
  let ?s = "kprintf ''VMM: --- Region Map (%u regions) ---\<newline>'' [VInt (as_count (spaces s sp))] s"
  have "kprintf_ok ''VMM: --- Region Map (%u regions) ---\<newline>'' [VInt (as_count (spaces s sp))]" by simp
  note t = kprintf_safe [OF this assms(2)]
  have "rseg (region_pool ?s) (as_regions (spaces ?s sp)) is None" using assms(1) by (simp add: region_seq_def)
  from dump_walk_spec [OF this t(1)] obtain s2 where s2: "dump_walk (as_regions (spaces ?s sp)) ?s = Some s2"
    "console_erase s2 = console_erase s" "term_inv s2" "faults s2 = faults s" using t(2) by auto
  have "vmm_dump_regions sp s = kprintf ''VMM: --- End Region Map ---\<newline>'' [] s2"
    using assms(3) s2(1) by (simp add: vmm_dump_regions_def Let_def)
  then show "console_erase (vmm_dump_regions sp s) = console_erase s" "term_inv (vmm_dump_regions sp s)"
    "faults (vmm_dump_regions sp s) = faults s" using s2 by (simp_all add: kprintf_safe)
qed

section \<open>The regions of the kernel\<close>

definition kernel_regions :: "u32 \<Rightarrow> vmm_region list" where
  "kernel_regions kend =
     [new_region 0xC0001000 0xFF000 3 REGION_MMIO,
      new_region 0xC0100000 (kend - 0xC0100000) 7 REGION_KERNEL_CODE,
      new_region kend (0xC0400000 - kend) 3 REGION_IDENTITY_MAP,
      new_region 0xC0400000 0x1000000 3 REGION_KERNEL_HEAP]"

text \<open>The state in which \<^verbatim>\<open>vmm_init\<close> has an empty list for the kernel.\<close>

definition kernel_space_empty :: "'a vmm_state_scheme \<Rightarrow> 'a vmm_state_scheme" where
  "kernel_space_empty s = s\<lparr>current_space := kernel_space s, spaces := (spaces s)(kernel_space s :=
     \<lparr>as_directory = paging_get_directory s, as_regions = None, as_count = 0\<rparr>)\<rparr>"

text \<open>A state with the given regions, that came from another one by registering them.\<close>

definition regions_built :: "u32 \<Rightarrow> 'a vmm_state_scheme \<Rightarrow> 'a vmm_state_scheme \<Rightarrow> vmm_region list \<Rightarrow> bool" where
  "regions_built sp s0 s rs \<longleftrightarrow> (\<exists>ix. region_seq s sp ix \<and> space_regions s ix = rs)
     \<and> regions_only sp s0 s \<and> unat (region_pool_used s) = unat (region_pool_used s0) + length rs"

lemma regions_built_register:
  assumes "regions_built sp s0 s rs" and "unat (region_pool_used s0) + length rs < 256"
    and "\<forall>r \<in> set rs. r_base r < base"
  shows "regions_built sp s0 (snd (register_existing_region sp base sz flags type s)) (rs @ [new_region base sz flags type])"
proof -
  obtain ix where ix: "region_seq s sp ix" "space_regions s ix = rs" using assms(1) by (auto simp: regions_built_def)
  have room: "unat (region_pool_used s) < 256" using assms(1,2) by (simp add: regions_built_def)
  have "r_base r < base" if "r \<in> set (space_regions s ix)" for r using that assms(3) ix(2) by simp
  then obtain s' ix' where "snd (register_existing_region sp base sz flags type s) = s'" "region_seq s' sp ix'"
    "space_regions s' ix' = space_regions s ix @ [new_region base sz flags type]"
    "regions_only sp s s'" "unat (region_pool_used s') = Suc (unat (region_pool_used s))"
    by (rule register_last [OF ix(1) room])
  then show ?thesis using assms(1) ix(2) regions_only_trans by (auto simp: regions_built_def)
qed

lemma vmm_init_register:
  assumes "length (region_pool s) = 256" and "region_pool_used s = 0"
    and kend: "0xC0100000 < kend" "kend < 0xC0400000" "kend = page_align_up (kernel_end_sym (sym s))"
  obtains s9 where "vmm_init s = (let s10 = idt_register_handler 14 Page_fault_handler s9;
      s11 = kprintf ''VMM: Initialized with %u regions\<newline>'' [VInt (as_count (spaces s10 (kernel_space s)))] s10
      in vmm_dump_regions (kernel_space s) s11)"
    "regions_built (kernel_space s) (kernel_space_empty (kprintf ''VMM: Initializing...\<newline>'' [] s)) s9 (kernel_regions kend)"
proof -
  let ?ks = "kernel_space s"
  define s5 where "s5 = kernel_space_empty (kprintf ''VMM: Initializing...\<newline>'' [] s)"
  have used: "unat (region_pool_used s5) = 0" using assms(2) by (simp add: s5_def kernel_space_empty_def)
  have "region_seq s5 ?ks []" using assms(1,2) by (simp add: region_seq_def s5_def kernel_space_empty_def)
  then have b5: "regions_built ?ks s5 s5 []" by (auto simp: regions_built_def regions_only_def space_regions_def)
  define s6 where "s6 = snd (register_existing_region ?ks 0xC0001000 0xFF000 3 REGION_MMIO s5)"
  define s7 where "s7 = snd (register_existing_region ?ks 0xC0100000 (kend - 0xC0100000) 7 REGION_KERNEL_CODE s6)"
  define s8 where "s8 = snd (register_existing_region ?ks kend (0xC0400000 - kend) 3 REGION_IDENTITY_MAP s7)"
  define s9 where "s9 = snd (register_existing_region ?ks 0xC0400000 0x1000000 3 REGION_KERNEL_HEAP s8)"
  have low: "0xC0001000 < kend" by (rule less_trans [OF _ kend(1)]) simp
  have base: "r_base (new_region x sz fl ty) = x" for x sz fl ty by (simp add: new_region_def)
  note b6 = regions_built_register [OF b5, of "0xC0001000" "0xFF000" 3 REGION_MMIO, folded s6_def, simplified used base, simplified]
  note b7 = regions_built_register [OF b6, of "0xC0100000" "kend - 0xC0100000" 7 REGION_KERNEL_CODE, folded s7_def,
      simplified used base, simplified]
  have b8: "regions_built ?ks s5 s8 [new_region 0xC0001000 0xFF000 3 REGION_MMIO,
      new_region 0xC0100000 (kend - 0xC0100000) 7 REGION_KERNEL_CODE, new_region kend (0xC0400000 - kend) 3 REGION_IDENTITY_MAP]"
    using regions_built_register [OF b7, of kend "0xC0400000 - kend" 3 REGION_IDENTITY_MAP] used low kend(1) by (simp add: s8_def base)
  have built: "regions_built ?ks s5 s9 (kernel_regions kend)"
    using regions_built_register [OF b8, of "0xC0400000" "0x1000000" 3 REGION_KERNEL_HEAP, folded s9_def] used kend(2)
    by (simp add: kernel_regions_def base)
  have sym6: "sym s6 = sym s"
    using b6 heap_inv_above(9) [of s6 s5] by (simp add: regions_built_def regions_only_def s5_def kernel_space_empty_def)
  have start: "set_count ?ks 0 (set_regions ?ks None (set_directory ?ks (paging_get_directory t) t))\<lparr>current_space := ?ks\<rparr> = s5"
    if "t = kprintf ''VMM: Initializing...\<newline>'' [] s" for t
    using that by (cases "spaces s ?ks") (simp add: s5_def kernel_space_empty_def set_count_def set_regions_def set_directory_def)
  have fl: "1 OR 2 = (3 :: u32)" "1 OR 2 OR 4 = (7 :: u32)" "16 * 1024 * 1024 = (0x1000000 :: u32)" by simp_all
  have "vmm_init s = (let s10 = idt_register_handler 14 Page_fault_handler s9;
      s11 = kprintf ''VMM: Initialized with %u regions\<newline>'' [VInt (as_count (spaces s10 ?ks))] s10
      in vmm_dump_regions ?ks s11)"
    unfolding vmm_init_def Let_def vmm_kprintf(6) start [OF refl] fl s6_def [symmetric] sym6 kend(3) [symmetric] s7_def [symmetric]
    using kend(2) by (simp add: s8_def s9_def)
  then show thesis using built unfolding s5_def by (rule that)
qed

lemma vmm_find_region_spec:
  assumes "region_seq s sp ix" and "sp \<noteq> 0"
  shows "vmm_find_region sp va s = Some (find (\<lambda>i. r_base (region_pool s ! i) \<le> va
    \<and> va < r_base (region_pool s ! i) + r_size (region_pool s ! i)) ix)"
  using assms chain_find_spec [of "region_pool s" "as_regions (spaces s sp)" ix]
  by (simp add: vmm_find_region_def region_seq_def)

lemma vmm_find_region_iff:
  assumes "region_seq s sp ix" and "sp \<noteq> 0"
  shows "(\<exists>i. vmm_find_region sp va s = Some (Some i))
    \<longleftrightarrow> (\<exists>r \<in> set (space_regions s ix). r_base r \<le> va \<and> va < r_base r + r_size r)"
proof -
  have "(\<exists>i. find P ix = Some i) \<longleftrightarrow> (\<exists>i \<in> set ix. P i)" for P :: "nat \<Rightarrow> bool" by (induction ix) auto
  then show ?thesis by (simp add: vmm_find_region_spec [OF assms] space_regions_def)
qed

lemma vmm_init_spec:
  assumes pool: "length (region_pool s) = 256" "region_pool_used s = 0" and t: "term_inv s" and h: "14 < length (handlers s)"
    and ks: "kernel_space s \<noteq> 0"
    and kend: "0xC0100000 < kend" "kend < 0xC0400000" "kend = page_align_up (kernel_end_sym (sym s))"
  obtains ix where "region_seq (vmm_init s) (kernel_space s) ix" "space_regions (vmm_init s) ix = kernel_regions kend"
    "faults (vmm_init s) = faults s" "term_inv (vmm_init s)" "current_space (vmm_init s) = kernel_space s"
    "as_directory (spaces (vmm_init s) (kernel_space s)) = paging_get_directory s"
    "handlers (vmm_init s) = (handlers s)[14 := Some Page_fault_handler]" "unat (region_pool_used (vmm_init s)) = 4"
    "vmm_state.more (vmm_init s) = vmm_state.more s" "sym (vmm_init s) = sym s" "mem (vmm_init s) = mem s"
    "heap_inv s \<Longrightarrow> heap_inv (vmm_init s) \<and> heap_live (vmm_init s) = heap_live s \<and> heap_ok (vmm_init s) = heap_ok s
       \<and> heap_fits (vmm_init s) = heap_fits s"
proof -
  obtain s9 where init: "vmm_init s = (let s10 = idt_register_handler 14 Page_fault_handler s9;
      s11 = kprintf ''VMM: Initialized with %u regions\<newline>'' [VInt (as_count (spaces s10 (kernel_space s)))] s10
      in vmm_dump_regions (kernel_space s) s11)"
    and built: "regions_built (kernel_space s) (kernel_space_empty (kprintf ''VMM: Initializing...\<newline>'' [] s)) s9 (kernel_regions kend)"
    by (rule vmm_init_register [OF pool kend])
  let ?ks = "kernel_space s" and ?h = "(handlers s)[14 := Some Page_fault_handler]"
  define s1 where "s1 = kprintf ''VMM: Initializing...\<newline>'' [] s"
  have t1: "term_inv s1" "faults s1 = faults s" using kprintf_safe [of "''VMM: Initializing...\<newline>''" "[]" s] t by (simp_all add: s1_def)
  have only: "regions_only ?ks (kernel_space_empty s1) s9" and used: "unat (region_pool_used s9) = 4"
    using built pool(2) by (simp_all add: regions_built_def s1_def kernel_space_empty_def kernel_regions_def)
  have tr: "kheap_state.truncate s9 = kheap_state.truncate s1"
    using only by (simp add: regions_only_def kernel_space_empty_def kheap_state.defs)
  have hs: "handlers u = handlers (kheap_state.truncate u)" "term_inv u = term_inv (kheap_state.truncate u)"
    for u :: "'a vmm_state_scheme" by (simp add: kheap_state.defs) simp
  have f9: "handlers s9 = handlers s" "term_inv s9" "faults s9 = faults s" "sym s9 = sym s" "mem s9 = mem s"
    using hs [of s9] hs [of s1] t1 heap_inv_above(8-10) [OF tr] unfolding tr by (simp_all add: s1_def)
  define s11 where "s11 = kprintf ''VMM: Initialized with %u regions\<newline>'' [VInt (as_count (spaces s9 ?ks))] (s9\<lparr>handlers := ?h\<rparr>)"
  have i: "vmm_init s = vmm_dump_regions ?ks s11"
    using init h f9(1) by (simp add: idt_register_handler_def s11_def)
  have t9: "term_inv (s9\<lparr>handlers := ?h\<rparr>)" using f9(2) by (simp add: term_inv_def)
  have "kprintf_ok ''VMM: Initialized with %u regions\<newline>'' [VInt (as_count (spaces s9 ?ks))]" by simp
  note t11 = kprintf_safe [OF this t9, folded s11_def]
  have c11: "console_erase s11 = console_erase (s9\<lparr>handlers := ?h\<rparr>)" by (simp add: s11_def)
  obtain ix where ix: "region_seq s9 ?ks ix" "space_regions s9 ix = kernel_regions kend" using built by (auto simp: regions_built_def)
  have seq11: "region_seq s11 ?ks ix" using ix(1) region_seq_cong(1) [of s11 s9] vmm_console [OF c11] by simp
  note d = dump_regions_spec [OF seq11 t11(1) ks, folded i]
  have c: "console_erase (vmm_init s) = console_erase (s9\<lparr>handlers := ?h\<rparr>)" using d(1) c11 by simp
  note v = vmm_console [OF c]
  have more: "vmm_state.more (vmm_init s) = vmm_state.more s9"
    by (rule trans [OF console_field [OF c]]) (simp_all add: console_erase_def)
  have more1: "vmm_state.more s9 = vmm_state.more s1" "current_space s9 = ?ks" "as_directory (spaces s9 ?ks) = paging_get_directory s"
    using only by (simp_all add: regions_only_def kernel_space_empty_def s1_def paging_get_directory_def)
  have more2: "vmm_state.more s1 = vmm_state.more s"
    unfolding s1_def by (rule console_field [OF console_erase_kprintf]) (simp add: console_erase_def)
  have "heap_inv (vmm_init s) \<and> heap_live (vmm_init s) = heap_live s \<and> heap_ok (vmm_init s) = heap_ok s \<and> heap_fits (vmm_init s) = heap_fits s"
    if "heap_inv s"
  proof -
    have ok: "kprintf_ok ''VMM: Initializing...\<newline>'' []" by simp
    note k1 = heap_inv_kprintf [OF that ok, folded s1_def] and k9 = heap_inv_above [OF tr]
    have "heap_inv (s9\<lparr>handlers := ?h\<rparr>)" using k1 k9 by simp
    then show ?thesis using heap_inv_console [OF c d(2)] k1 k9 by simp
  qed
  then show thesis
    using seq11 ix region_seq_cong [of "vmm_init s" s9] v d t11 f9 more more1 more2 used
    by (intro that [of ix]) simp_all
qed

lemma kernel_regions_cover:
  assumes "0xC0100000 < kend" "kend < 0xC0400000"
  shows "(\<exists>r \<in> set (kernel_regions kend). r_base r \<le> va \<and> va < r_base r + r_size r) \<longleftrightarrow> 0xC0001000 \<le> va \<and> va < 0xC1400000"
proof -
  have "(\<exists>r \<in> set (kernel_regions kend). r_base r \<le> va \<and> va < r_base r + r_size r) \<longleftrightarrow>
      0xC0001000 \<le> va \<and> va < 0xC0100000 \<or> 0xC0100000 \<le> va \<and> va < kend \<or> kend \<le> va \<and> va < 0xC0400000
      \<or> 0xC0400000 \<le> va \<and> va < 0xC1400000"
    by (simp add: kernel_regions_def new_region_def)
  also have "\<dots> \<longleftrightarrow> 0xC0001000 \<le> va \<and> va < 0xC1400000"
    using assms by (simp add: word_le_nat_alt word_less_nat_alt) linarith
  finally show ?thesis .
qed

section \<open>Removal\<close>

lemma rseg_remove:
  assumes seg: "rseg pool st (xs @ c # i # ys) None"
  shows "rseg (link_to c (r_next (pool ! i)) pool) st (xs @ c # ys) None"
proof -
  have d: "c \<notin> set xs" "c \<notin> set ys" "c \<noteq> i" using rseg_distinct [OF seg] by auto
  obtain m where m: "rseg pool st xs m" "m = Some c" "c < length pool" "rseg pool (r_next (pool ! i)) ys None"
    using seg by (auto simp: rseg_append)
  then show ?thesis using d by (auto simp: rseg_append rseg_link_other)
qed

lemma remove_region_spec:
  assumes seg: "rseg (region_pool s) (as_regions (spaces s sp)) (xs @ i # ys) None"
  obtains pool' first where
    "remove_region sp i s = s\<lparr>region_pool := pool',
       spaces := (spaces s)(sp := (spaces s sp)\<lparr>as_regions := first, as_count := as_count (spaces s sp) - 1\<rparr>)\<rparr>"
    "rseg pool' first (xs @ ys) None" "length pool' = length (region_pool s)" "\<And>j. region_at pool' j = region_at (region_pool s) j"
proof (cases xs rule: rev_cases)
  case Nil
  have eq: "remove_region sp i s = s\<lparr>region_pool := region_pool s, spaces := (spaces s)(sp := (spaces s sp)
      \<lparr>as_regions := r_next (region_pool s ! i), as_count := as_count (spaces s sp) - 1\<rparr>)\<rparr>"
    using seg Nil by (simp add: remove_region_def set_regions_def set_count_def Let_def)
  show thesis using seg Nil by (intro that [OF eq]) simp_all
next
  case (snoc zs c)
  let ?p = "region_pool s"
  obtain k ks where k: "xs = k # ks" using snoc by (metis append_is_Nil_conv list.exhaust not_Cons_self2)
  have first: "as_regions (spaces s sp) = Some k" using seg k by simp
  have d: "distinct (xs @ i # ys)" using rseg_distinct [OF seg] .
  have tw: "takeWhile (\<lambda>j. j \<noteq> i) (ks @ i # ys) = ks"
  proof -
    have "takeWhile (\<lambda>j. j \<noteq> i) (ks @ i # ys) = ks @ takeWhile (\<lambda>j. j \<noteq> i) (i # ys)"
      using d k by (intro takeWhile_append2) auto
    then show ?thesis by simp
  qed
  have "remove_walk ?p i k = Some (last (k # takeWhile (\<lambda>j. j \<noteq> i) (ks @ i # ys)))"
    using seg k first by (intro remove_walk_spec) simp
  then have walk: "remove_walk ?p i k = Some c" using tw snoc k by (metis last_snoc)
  have seg': "rseg ?p (as_regions (spaces s sp)) (zs @ c # i # ys) None" using seg snoc by simp
  then have nx: "r_next (?p ! c) = Some i" by (auto simp: rseg_append)
  have "k \<noteq> i" using d k by auto
  then have eq: "remove_region sp i s = s\<lparr>region_pool := link_to c (r_next (?p ! i)) ?p, spaces := (spaces s)(sp := (spaces s sp)
      \<lparr>as_regions := as_regions (spaces s sp), as_count := as_count (spaces s sp) - 1\<rparr>)\<rparr>"
    using first walk nx by (cases "spaces s sp") (simp add: remove_region_def set_next_region_eq set_count_def Let_def)
  show thesis using rseg_remove [OF seg'] snoc by (intro that [OF eq]) simp_all
qed

lemma remove_region_seq:
  assumes seq: "region_seq s sp (xs @ i # ys)"
  shows "region_seq (remove_region sp i s) sp (xs @ ys)" "space_regions (remove_region sp i s) ks = space_regions s ks"
    "regions_only sp s (remove_region sp i s)"
proof -
  note q = seq [unfolded region_seq_def]
  obtain pool' first where r: "remove_region sp i s = s\<lparr>region_pool := pool',
       spaces := (spaces s)(sp := (spaces s sp)\<lparr>as_regions := first, as_count := as_count (spaces s sp) - 1\<rparr>)\<rparr>"
    "rseg pool' first (xs @ ys) None" "length pool' = length (region_pool s)" "\<And>j. region_at pool' j = region_at (region_pool s) j"
    by (rule remove_region_spec [of s sp xs i ys]) (use q in auto)
  have base: "r_base (pool' ! j) = r_base (region_pool s ! j)" for j using arg_cong [OF r(4) [of j], of r_base] by simp
  show "region_seq (remove_region sp i s) sp (xs @ ys)"
    using q r(2,3) unfolding region_seq_def r(1) by (simp add: base sorted_append)
  show "space_regions (remove_region sp i s) ks = space_regions s ks" by (simp add: space_regions_def r)
  show "regions_only sp s (remove_region sp i s)" unfolding r(1) by (simp add: regions_only_def kheap_state.defs)
qed

section \<open>Properties\<close>

definition sample_vmm :: vmm_state where
  "sample_vmm = kheap_init (paging_init (kheap_state.extend sample_kheap
     (vmm_state.fields (\<lambda>_. \<lparr>as_directory = 0, as_regions = None, as_count = 0\<rparr>) 0
       (replicate 256 (new_region 0 0 0 REGION_FREE)) 0)))"

lemma sample_vmm_ok:
  "heap_inv sample_vmm" "faults sample_vmm = []" "length (region_pool sample_vmm) = 256" "region_pool_used sample_vmm = 0"
  "sym sample_vmm = sample_symbols" "14 < length (handlers sample_vmm)"
proof -
  let ?boot = "kheap_state.extend sample_kheap (vmm_state.fields (\<lambda>_. \<lparr>as_directory = 0, as_regions = None, as_count = 0\<rparr>) 0
       (replicate 256 (new_region 0 0 0 REGION_FREE)) 0)"
  have b: "kheap_state.truncate ?boot = sample_kheap" by (cases sample_kheap) (simp add: kheap_state.defs vmm_state.defs)
  show "heap_inv sample_vmm" "faults sample_vmm = []" using sample_kheap_above [OF b] by (simp_all add: sample_vmm_def)
  have e: "mm_erase sample_vmm = (mm_erase ?boot)\<lparr>current_page_directory := page_directory ?boot,
     cpu := (cpu ?boot)\<lparr>reg_cr3 := VIRT_TO_PHYS (page_directory ?boot)\<rparr>\<rparr>"
    by (simp add: sample_vmm_def mm_erase_paging_init)
  have f: "f sample_vmm = f ?boot" if "\<And>t. f (mm_erase t) = f t" "\<And>t d c. f (t\<lparr>current_page_directory := d, cpu := c\<rparr>) = f t"
    for f :: "vmm_state \<Rightarrow> 'b"
    using arg_cong [OF e, of f] that by simp
  have "region_pool sample_vmm = region_pool ?boot" "region_pool_used sample_vmm = region_pool_used ?boot"
    "sym sample_vmm = sym ?boot" "handlers sample_vmm = handlers ?boot"
    by (rule f; simp add: mm_erase_defs)+
  moreover have "sym ?boot = sample_symbols" "handlers ?boot = handlers sample_intr"
    by (simp_all add: kheap_state.defs vmm_state.defs sample_kheap_def paging_state.defs sample_paging_def pmm_state.defs
        sample_pmm_def intr_state.defs) (simp_all add: sample_intr_def)
  ultimately show "length (region_pool sample_vmm) = 256" "region_pool_used sample_vmm = 0"
    "sym sample_vmm = sample_symbols" "14 < length (handlers sample_vmm)"
    by (simp_all add: kheap_state.defs vmm_state.defs sample_intr_def)
qed

text \<open>
  C24. Registering a region refines insertion into a sorted list. On an address space whose region list is well
  formed, \<^verbatim>\<open>register_existing_region\<close> returns the next record of the pool; the list then has the old regions
  and the new one, is sorted by base address and counted. When no region starts at the new base address
  it is exactly sorted insertion of the library. When the pool of 256 is used up it returns null
  and nothing but the console changes.
\<close>

theorem register_region_refines_insort:
  assumes "region_seq s sp ix" and "register_existing_region sp base sz flags type s = (r, s')"
  shows "if region_pool_used s < 256
    then r = Some (unat (region_pool_used s)) \<and> (\<exists>ix'. region_seq s' sp ix' \<and> sorted (map r_base (space_regions s' ix'))
       \<and> mset (space_regions s' ix') = add_mset (new_region base sz flags type) (mset (space_regions s ix))
       \<and> (base \<notin> r_base ` set (space_regions s ix) \<longrightarrow>
            space_regions s' ix' = insort_key r_base (new_region base sz flags type) (space_regions s ix)))
    else r = None \<and> console_erase s' = console_erase s \<and> region_seq s' sp ix"
proof (cases "region_pool_used s < 256")
  case True
  obtain t ix' where t: "register_existing_region sp base sz flags type s = (Some (unat (region_pool_used s)), t)"
    "region_seq t sp ix'"
    "mset (space_regions t ix') = add_mset (new_region base sz flags type) (mset (space_regions s ix))"
    "base \<notin> r_base ` set (space_regions s ix) \<Longrightarrow>
       space_regions t ix' = insort_key r_base (new_region base sz flags type) (space_regions s ix)"
    by (rule register_spec [OF assms(1) True]) (rule that; assumption)
  have "sorted (map r_base (space_regions t ix'))"
    using t(2) by (simp add: region_seq_def space_regions_def comp_def)
  then show ?thesis using t assms(2) True by auto
next
  case False
  then show ?thesis using assms by (auto simp: register_existing_region_def alloc_region_def not_less region_seq_def)
qed

theorem register_region_refines_insort_witness:
  "\<exists>ix r s'. region_seq (vmm_init sample_vmm) 0xC011A000 ix
     \<and> register_existing_region 0xC011A000 0xD0000000 0x1000 3 REGION_MMIO (vmm_init sample_vmm) = (r, s') \<and> r = Some 4"
proof -
  have k: "kernel_space sample_vmm = 0xC011A000" "page_align_up (kernel_end_sym (sym sample_vmm)) = 0xC011F000"
    by (simp_all add: sample_vmm_ok sample_symbols_def page_align_up_def)
  have ks: "kernel_space sample_vmm \<noteq> 0" by (simp add: k)
  obtain ix where ix: "region_seq (vmm_init sample_vmm) (kernel_space sample_vmm) ix" "unat (region_pool_used (vmm_init sample_vmm)) = 4"
    by (rule vmm_init_spec [OF sample_vmm_ok(3,4) heap_inv_term [OF sample_vmm_ok(1)] sample_vmm_ok(6) ks, of "0xC011F000"]) (simp_all add: k)
  obtain r s' where run: "register_existing_region 0xC011A000 0xD0000000 0x1000 3 REGION_MMIO (vmm_init sample_vmm) = (r, s')" by fastforce
  from register_region_refines_insort [OF ix(1) [unfolded k] run] have "r = Some 4" using ix(2) by (simp add: word_less_nat_alt)
  then show ?thesis using ix(1) run unfolding k by blast
qed

text \<open>
  \<^verbatim>\<open>vmm_init\<close>, with an unused pool and a kernel image that ends below the heap, runs without fault and
  describes the kernel's memory by four regions without gap or overlap: device memory, the kernel
  image, the rest of the window, the heap. \<^verbatim>\<open>vmm_find_region\<close> then finds a region for exactly the
  addresses from 0xC0001000 to 0xC1400000. The kernel's address space is current, with the directory of
  \<^verbatim>\<open>paging.c\<close>, and the page fault handler is installed.
\<close>

lemma vmm_init_covers_kernel_memory:
  assumes "length (region_pool s) = 256" "region_pool_used s = 0" and "term_inv s" and "14 < length (handlers s)"
    and "kernel_space s \<noteq> 0" and "0xC0100000 < page_align_up (kernel_end_sym (sym s))" "page_align_up (kernel_end_sym (sym s)) < 0xC0400000"
  shows "faults (vmm_init s) = faults s \<and> current_space (vmm_init s) = kernel_space s
    \<and> as_directory (spaces (vmm_init s) (kernel_space s)) = paging_get_directory s
    \<and> handlers (vmm_init s) ! 14 = Some Page_fault_handler
    \<and> (\<exists>ix. region_seq (vmm_init s) (kernel_space s) ix
         \<and> space_regions (vmm_init s) ix = kernel_regions (page_align_up (kernel_end_sym (sym s))))
    \<and> (\<forall>va. (\<exists>i. vmm_find_region (kernel_space s) va (vmm_init s) = Some (Some i)) \<longleftrightarrow> 0xC0001000 \<le> va \<and> va < 0xC1400000)"
proof -
  obtain ix where ix: "region_seq (vmm_init s) (kernel_space s) ix"
      "space_regions (vmm_init s) ix = kernel_regions (page_align_up (kernel_end_sym (sym s)))"
      "faults (vmm_init s) = faults s" "current_space (vmm_init s) = kernel_space s"
      "as_directory (spaces (vmm_init s) (kernel_space s)) = paging_get_directory s"
      "handlers (vmm_init s) = (handlers s)[14 := Some Page_fault_handler]"
    by (rule vmm_init_spec [OF assms refl]) (rule that; assumption)
  have "(\<exists>i. vmm_find_region (kernel_space s) va (vmm_init s) = Some (Some i)) \<longleftrightarrow> 0xC0001000 \<le> va \<and> va < 0xC1400000" for va
    unfolding vmm_find_region_iff [OF ix(1) assms(5)] ix(2) by (rule kernel_regions_cover [OF assms(6,7)])
  then show ?thesis using ix assms(4) by auto
qed

lemma vmm_init_covers_kernel_memory_example:
  "faults (vmm_init sample_vmm) = []
   \<and> (\<exists>i. vmm_find_region 0xC011A000 0xC0401234 (vmm_init sample_vmm) = Some (Some i))
   \<and> \<not> (\<exists>i. vmm_find_region 0xC011A000 0xD0000000 (vmm_init sample_vmm) = Some (Some i))"
proof -
  have k: "kernel_space sample_vmm = 0xC011A000" "page_align_up (kernel_end_sym (sym sample_vmm)) = 0xC011F000"
    by (simp_all add: sample_vmm_ok sample_symbols_def page_align_up_def)
  have "kernel_space sample_vmm \<noteq> 0" "0xC0100000 < page_align_up (kernel_end_sym (sym sample_vmm))"
    "page_align_up (kernel_end_sym (sym sample_vmm)) < 0xC0400000" unfolding k by simp_all
  from vmm_init_covers_kernel_memory [OF sample_vmm_ok(3,4) heap_inv_term [OF sample_vmm_ok(1)] sample_vmm_ok(6) this]
  show ?thesis unfolding k by (simp add: sample_vmm_ok)
qed

end
