(* ===== verification/Vmm_Map.thy ===== *)
theory Vmm_Map
  imports Vmm_Regions
begin

text \<open>
  Mapping and unmapping regions, \<^verbatim>\<open>vmm_map_region\<close> and \<^verbatim>\<open>vmm_unmap_region\<close> of \<^verbatim>\<open>vmm.c\<close>. The kernel reaches its page
  tables in the window that \<^verbatim>\<open>paging_init\<close> maps, the first 16 MB; a region outside of it is
  mapped page by page to frames of its own, which are cleared, and unmapping gives the frames
  back. When the frames run out in the middle, everything is taken back. A frame for a new table has to be
  one that the window shows.
\<close>

section \<open>The window\<close>

text \<open>The pages from 0xC0000000 on that \<^verbatim>\<open>paging_init\<close> maps, 16 MB.\<close>

definition in_view :: "u32 \<Rightarrow> bool" where
  "in_view y \<longleftrightarrow> 786432 \<le> page_no y \<and> page_no y < 790528"

definition in_pages :: "u32 \<Rightarrow> nat \<Rightarrow> u32 \<Rightarrow> bool" where
  "in_pages va n y \<longleftrightarrow> page_no va \<le> page_no y \<and> page_no y < page_no va + n"

text \<open>The kernel's directory is loaded, and every table lies in the window, at an address that leads to it.\<close>

definition map_ready :: "'a kheap_state_scheme \<Rightarrow> bool" where
  "map_ready s \<longleftrightarrow> paging_inv s \<and> reg_cr3 (cpu s) = VIRT_TO_PHYS (page_directory s) \<and> in_view (page_directory s)
     \<and> (\<forall>i. unat i < 1024 \<longrightarrow> bit (pde s i) 0 \<longrightarrow>
           in_view (table_of (pde s i)) \<and> translate s (table_of (pde s i)) = Some (pde s i AND 0xFFFFF000))"

text \<open>A frame that is neither the directory nor a table.\<close>

definition no_table :: "'a paging_state_scheme \<Rightarrow> u32 \<Rightarrow> bool" where
  "no_table s f \<longleftrightarrow> f \<noteq> VIRT_TO_PHYS (page_directory s) \<and> (\<forall>i. unat i < 1024 \<longrightarrow> bit (pde s i) 0 \<longrightarrow> pde s i AND 0xFFFFF000 \<noteq> f)"

lemma map_readyD:
  assumes "map_ready s"
  shows "paging_inv s" "pmm_inv s" "page_aligned (page_directory s)" "reg_cr3 (cpu s) = VIRT_TO_PHYS (page_directory s)"
    "in_view (page_directory s)" "\<And>i. unat i < 1024 \<Longrightarrow> bit (pde s i) 0 \<Longrightarrow> in_view (table_of (pde s i))"
    "\<And>i. unat i < 1024 \<Longrightarrow> bit (pde s i) 0 \<Longrightarrow> translate s (table_of (pde s i)) = Some (pde s i AND 0xFFFFF000)"
  using assms paging_inv_parts by (auto simp: map_ready_def)

lemma in_view_iff: "in_view y \<longleftrightarrow> 0xC0000000 \<le> y \<and> y < 0xC1000000"
  using less_eq_div_iff_mult_less_eq [of 4096 786432 "unat y"] div_less_iff_less_mult [of 4096 "unat y" 790528]
  by (simp add: in_view_def page_no_def u32_order)

lemma view_apart: "in_view x \<Longrightarrow> \<not> in_view y \<Longrightarrow> page_no y \<noteq> page_no x"
  by (auto simp: in_view_def)

lemma view_frame:
  assumes "f < 4096"
  shows "in_view (PHYS_TO_VIRT (of_nat f * 4096))"
proof -
  have "unat (of_nat f * 4096 :: u32) = f * 4096" using assms frame_addr(1) by simp
  then have "unat (PHYS_TO_VIRT (of_nat f * 4096)) = 786432 * 4096 + f * 4096" using assms by (simp add: PHYS_TO_VIRT_def u32_add)
  then have "page_no (PHYS_TO_VIRT (of_nat f * 4096)) = 786432 + f" by (simp add: page_no_def)
  then show ?thesis using assms by (simp add: in_view_def)
qed

lemma slot_view:
  assumes "page_aligned d" and "unat i < 1024" and "k < 4"
  shows "page_no (entry_at d i + of_nat k) = page_no d"
proof -
  have "unat (entry_at d i + of_nat k) = unat d + (4 * unat i + k)"
    using unat_slot [OF assms(1,2)] assms page_room [OF assms(1)] by (simp add: u32_add u32_of_nat)
  moreover have "4 * unat i + k < 4096" using assms by linarith
  ultimately show ?thesis using page_off [OF assms(1)] by (simp add: page_no_def)
qed

text \<open>The tables are read inside the view only.\<close>

lemma slot_kept:
  assumes "page_aligned d" and "unat i < 1024" and "in_view d" and "\<And>y. in_view y \<Longrightarrow> m' y = m y"
  shows "load32 m' (entry_at d i) = load32 m (entry_at d i)"
  using assms slot_view [OF assms(1,2)] by (intro load32_cong) (auto simp: in_view_def)

lemma view_kept:
  assumes r: "map_ready s" and same: "\<And>y. in_view y \<Longrightarrow> mem s' y = mem s y" and sym: "sym s' = sym s"
  shows "unat i < 1024 \<Longrightarrow> pde s' i = pde s i" and "translate s' = translate s"
proof -
  note d = map_readyD [OF r]
  have pde: "pde s' i = pde s i" if "unat i < 1024" for i
    unfolding pde_def sym by (rule slot_kept [OF d(3) that d(5) same])
  then show "unat i < 1024 \<Longrightarrow> pde s' i = pde s i" .
  have "translate s' va = translate s va" for va
  proof (cases "bit (pde s (pd_index va)) 0")
    case True
    have "pte s' va = pte s va" unfolding pte_def pde [OF index_bounds(1)]
      using d(6) [OF _ True] by (intro slot_kept [OF _ _ _ same]) simp_all
    then show ?thesis using d(3) pde by (simp add: translate_eq sym)
  next
    case False
    then show ?thesis using d(3) pde by (simp add: translate_eq sym)
  qed
  then show "translate s' = translate s" by (rule ext)
qed

lemma map_ready_update:
  assumes r: "map_ready s" and e: "mm_erase s' = mm_erase s" and inv: "paging_inv s'"
    and pde: "\<And>i. unat i < 1024 \<Longrightarrow> bit (pde s' i) 0 \<Longrightarrow>
      in_view (table_of (pde s' i)) \<and> translate s' (table_of (pde s' i)) = Some (pde s' i AND 0xFFFFF000)"
  shows "map_ready s'"
proof -
  have "cpu s' = cpu s" "sym s' = sym s" by (rule mm_erase_field [OF e]; simp add: mm_erase_defs)+
  then show ?thesis using r inv pde by (simp add: map_ready_def)
qed

lemma map_ready_keep:
  assumes r: "map_ready s" and e: "mm_erase s' = mm_erase s" and inv: "paging_inv s'"
    and pde: "\<And>i. unat i < 1024 \<Longrightarrow> pde s' i = pde s i" and tr: "\<And>y. in_view y \<Longrightarrow> translate s' y = translate s y"
  shows "map_ready s'"
  using map_readyD(6,7) [OF r] pde tr by (intro map_ready_update [OF r e inv]) simp

section \<open>The operations on pages\<close>

lemma ready_alloc:
  assumes r: "map_ready s" and a: "pmm_alloc_frame s = (f, s')"
  shows "map_ready s'" "translate s' = translate s" "pde s' = pde s" "mem s' = mem s" "faults s' = faults s"
    "mm_erase s' = mm_erase s"
proof -
  note d = map_readyD [OF r] and i = alloc_paging_inv [OF map_readyD(1) [OF r] a]
  note p = pmm_alloc_inv [OF d(2) a]
  show "translate s' = translate s" "pde s' = pde s" "faults s' = faults s" using i p by auto
  show "mem s' = mem s" using pmm_erase_fields [OF p(3)] by simp
  show e: "mm_erase s' = mm_erase s" using p(3) by (rule mm_erase_pmm)
  show "map_ready s'" using i by (intro map_ready_keep [OF r e]) simp_all
qed

lemma ready_no_table: "map_ready s \<Longrightarrow> f \<in> avail_frames s \<Longrightarrow> no_table s f"
  using paging_inv_parts(3,4) [OF map_readyD(1)] unfolding no_table_def by blast

lemma ready_free:
  assumes r: "map_ready s" and f: "managed_frame f" "no_table s f"
  shows "map_ready (pmm_free_frame f s)" "translate (pmm_free_frame f s) = translate s" "pde (pmm_free_frame f s) = pde s"
    "avail_frames (pmm_free_frame f s) = insert f (avail_frames s)" "faults (pmm_free_frame f s) = faults s"
    "mem (pmm_free_frame f s) = mem s"
proof -
  note d = map_readyD [OF r]
  note p = pmm_free_inv [OF d(2) f(1)]
  note e = pmm_erase_fields [OF p(4)]
  show pde: "pde (pmm_free_frame f s) = pde s" using e by (intro ext) (simp add: pde_def)
  show tr: "translate (pmm_free_frame f s) = translate s" using e by (intro ext) (simp add: translate_def)
  show "avail_frames (pmm_free_frame f s) = insert f (avail_frames s)" "faults (pmm_free_frame f s) = faults s"
    "mem (pmm_free_frame f s) = mem s"
    using p e by simp_all
  have "paging_inv (pmm_free_frame f s)"
    using d(1) p(1,3) f(2) e unfolding paging_inv_def pde no_table_def by auto
  then show "map_ready (pmm_free_frame f s)" using pde tr by (intro map_ready_keep [OF r]) simp_all
qed

lemma in_page: "page_aligned a \<Longrightarrow> in_range a 4096 x \<longleftrightarrow> page_no x = page_no a"
proof -
  assume a: "page_aligned a"
  then have "unat a = 4096 * (unat a div 4096)" by auto
  then show ?thesis using page_room [OF a] unfolding page_no_def by (subst in_range_iff) linarith+
qed

lemma store_out:
  assumes "page_aligned d" and "unat i < 1024" and "page_no y \<noteq> page_no d"
  shows "store32 m (entry_at d i) v y = m y"
proof (rule store32_byte_other)
  show "\<not> in_range (entry_at d i) 4 y"
  proof
    assume "in_range (entry_at d i) 4 y"
    then have "unat (y - entry_at d i) < 4" by (simp add: in_range_def)
    then have "y = entry_at d i + of_nat (unat (y - entry_at d i))" by simp
    then show False using slot_view [OF assms(1,2)] assms(3) \<open>unat (y - entry_at d i) < 4\<close> by metis
  qed
qed

lemma ready_set_entry:
  fixes s :: "'a kheap_state_scheme" and va pa flags :: u32
  assumes r: "map_ready s" and t: "table_present s va" and va: "\<not> in_view va"
  defines "s' \<equiv> paging_set_entry va pa flags s"
  shows "map_ready s'" "avail_frames s' = avail_frames s" "low_frames s' = low_frames s" "faults s' = faults s"
    "unat i < 1024 \<Longrightarrow> pde s' i = pde s i" "\<not> in_view y \<Longrightarrow> mem s' y = mem s y"
    "translate s' va' = (if page_no va = page_no va' then Some ((pa AND 0xFFFFF000) OR (va' AND 0xFFF)) else translate s va')"
proof -
  note d = map_readyD [OF r]
  have b: "bit (pde s (pd_index va)) 0" using t by (simp add: table_present_def)
  have w: "window_shows s (pde s (pd_index va) AND 0xFFFFF000)"
    using d(7) [OF _ b] by (simp add: window_shows_iff table_of_def)
  note i = set_entry_spec [OF d(1) b w, of pa flags, folded s'_def]
  show pde: "pde s' i = pde s i" if "unat i < 1024" for i unfolding s'_def by (rule set_entry_pde [OF d(1) t that])
  show "avail_frames s' = avail_frames s" "low_frames s' = low_frames s" "faults s' = faults s"
    using i(2) by (simp_all add: s'_def set_entry_eq [OF w] low_frames_def frame_free_def scan_limit_def)
  show tr: "translate s' va' = (if page_no va = page_no va' then Some ((pa AND 0xFFFFF000) OR (va' AND 0xFFF)) else translate s va')" for va'
    using i(3) by (simp add: same_page_no)
  show "map_ready s'" using pde i(1) tr view_apart [OF _ va] by (intro map_ready_keep [OF r]) (simp_all add: s'_def)
  show "mem s' y = mem s y" if "\<not> in_view y"
  proof -
    have "page_no y \<noteq> page_no (table_of (pde s (pd_index va)))" by (rule view_apart [OF d(6) [OF _ b] that]) simp
    then show ?thesis by (simp add: s'_def set_entry_eq [OF w] store_out)
  qed
qed

lemma ready_unmap:
  fixes s :: "'a kheap_state_scheme" and va :: u32
  assumes r: "map_ready s" and va: "\<not> in_view va"
  defines "s' \<equiv> paging_unmap_page va s"
  shows "map_ready s'" "avail_frames s' = avail_frames s" "faults s' = faults s" "unat i < 1024 \<Longrightarrow> pde s' i = pde s i"
    "\<not> in_view y \<Longrightarrow> mem s' y = mem s y" "translate s' va' = (if page_no va = page_no va' then None else translate s va')"
proof -
  note d = map_readyD [OF r]
  note i = unmap_page_spec [OF d(1), of va, folded s'_def]
  show "faults s' = faults s" by (rule i(2))
  show tr: "translate s' va' = (if page_no va = page_no va' then None else translate s va')" for va' using i(3) by (simp add: same_page_no)
  have eq: "s' = (if bit (pde s (pd_index va)) 0 then hw_emit (Invlpg va)
        (s\<lparr>mem := store32 (mem s) (entry_at (table_of (pde s (pd_index va))) (pt_index va)) 0\<rparr>) else s)"
    by (simp add: s'_def paging_unmap_page_def Let_def present_bit pde_def table_of_def paging_flush_tlb_def)
  show "avail_frames s' = avail_frames s" by (simp add: eq)
  show pde: "pde s' i = pde s i" if "unat i < 1024" for i
    using write_pte(1) [OF d(1) _ that, of va 0] by (simp add: eq)
  show "map_ready s'" using pde i(1) tr view_apart [OF _ va] by (intro map_ready_keep [OF r]) (simp_all add: s'_def)
  show "mem s' y = mem s y" if "\<not> in_view y"
  proof (cases "bit (pde s (pd_index va)) 0")
    case True
    then have "page_no y \<noteq> page_no (table_of (pde s (pd_index va)))" by (intro view_apart [OF d(6) [OF _ True] that]) simp
    then show ?thesis by (simp add: eq store_out)
  qed (simp add: eq)
qed

lemma ready_clear:
  fixes s :: "'a vmm_state_scheme"
  assumes r: "map_ready s" and va: "page_aligned va" "\<not> in_view va" and here: "translate s va \<noteq> None"
  defines "s' \<equiv> clear_page va s"
  shows "map_ready s'" "avail_frames s' = avail_frames s" "low_frames s' = low_frames s" "faults s' = faults s"
    "unat i < 1024 \<Longrightarrow> pde s' i = pde s i" "translate s' = translate s" "mm_erase s' = mm_erase s"
    "mem s' y = (if page_no y = page_no va then 0 else mem s y)"
proof -
  note d = map_readyD [OF r]
  have eq: "s' = s\<lparr>mem := zero_bytes (mem s) va 4096\<rparr>"
    using here d(4) by (auto simp: s'_def clear_page_def translate_def)
  show m: "mem s' y = (if page_no y = page_no va then 0 else mem s y)" for y
    using in_page [OF va(1)] by (simp add: eq zero_bytes_in zero_bytes_out)
  have same: "mem s' y = mem s y" if "in_view y" for y using m view_apart [OF that va(2)] by auto
  have sym: "sym s' = sym s" by (simp add: eq)
  show pde: "pde s' i = pde s i" if "unat i < 1024" for i by (rule view_kept(1) [OF r same sym that])
  show tr: "translate s' = translate s" by (rule view_kept(2) [OF r same sym])
  show "avail_frames s' = avail_frames s" "low_frames s' = low_frames s" "faults s' = faults s" and e: "mm_erase s' = mm_erase s"
    by (simp_all add: eq low_frames_def frame_free_def scan_limit_def)
  have "paging_inv s'" using d(2) pde by (intro paging_inv_cong [OF d(1)]) (simp_all add: eq)
  then show "map_ready s'" using pde tr by (intro map_ready_keep [OF r e]) simp_all
qed

text \<open>The allocator takes the least frame it can find.\<close>

lemma alloc_low:
  assumes "pmm_inv s" and "pmm_alloc_frame s = (a, s')" and "a \<noteq> 0"
  obtains f where "f \<in> low_frames s" "a = of_nat f * 4096" "\<And>g. g \<in> low_frames s \<Longrightarrow> f \<le> g" "low_frames s' = low_frames s - {f}"
  using assms(1)
proof (cases rule: pmm_alloc_cases)
  case (frame f)
  have s': "a = of_nat f * 4096" "s' = (bitmap_set (of_nat f) s)\<lparr>used_frames := used_frames s + 1\<rparr>"
    using frame(1) assms(2) by auto
  have "length (frame_bitmap s) = 4098" using assms(1) by (simp add: pmm_inv_def)
  then have "free_frames s' = free_frames s - {f}" and "scan_limit s' = scan_limit s"
    using frame(6) by (simp add: s' free_frames_set, simp add: s' scan_limit_def bitmap_set_in)
  then have "low_frames s' = low_frames s - {f}" by (auto simp: low_frames_def free_frames_def)
  moreover have "f \<le> g" if "g \<in> low_frames s" for g using frame(4) [of g] that by (auto simp: low_frames_def intro: leI)
  ultimately show thesis using frame(2,3) s'(1) by (intro that) (auto simp: low_frames_def)
next
  case none
  then show thesis using assms by simp
qed

text \<open>The frame on which a new table would lie is in the window.\<close>

definition new_table_low :: "'a paging_state_scheme \<Rightarrow> u32 \<Rightarrow> bool" where
  "new_table_low s va \<longleftrightarrow> table_present s va \<or> in_view (PHYS_TO_VIRT (fst (pmm_alloc_frame s)))"

text \<open>Mapping a page may add a table, on a frame that was available.\<close>

lemma ready_map:
  fixes s :: "'a kheap_state_scheme" and va pa flags :: u32
  assumes r: "map_ready s" and va: "\<not> in_view va" and ok: "mappable s va" "new_table_low s va"
    and run: "paging_map_page va pa flags s = s'"
  obtains T L where "map_ready s'" "T \<subseteq> avail_frames s" "avail_frames s' = avail_frames s - T" "table_present s va \<Longrightarrow> T = {}"
    "low_frames s' = low_frames s - L" "L \<subseteq> low_frames s" "card L = (if table_present s va then 0 else 1)"
    "\<And>i. unat i < 1024 \<Longrightarrow> bit (pde s i) 0 \<Longrightarrow> pde s' i = pde s i"
    "\<And>i. unat i < 1024 \<Longrightarrow> bit (pde s' i) 0 \<Longrightarrow> bit (pde s i) 0 \<or> i = pd_index va \<and> pde s' i AND 0xFFFFF000 \<in> T"
    "table_present s' va" "faults s' = faults s" "\<And>y. \<not> in_view y \<Longrightarrow> mem s' y = mem s y"
    "\<And>va'. translate s' va' = (if page_no va = page_no va' then Some ((pa AND 0xFFFFF000) OR (va' AND 0xFFF)) else translate s va')"
  using map_readyD(1) [OF r]
proof (cases rule: map_page_cases [where va = va and pa = pa and flags = flags])
  case present
  have t: "table_present s va" using present(1) by (simp add: table_present_def)
  note e = ready_set_entry [OF r t va, where pa = pa and flags = flags, folded present(2), unfolded run]
  show thesis by (rule that [of "{}" "{}"]) (use e t in \<open>simp_all add: table_present_def\<close>)
next
  case (added t s1 s3)
  note d = map_readyD [OF r]
  note a = ready_alloc [OF r added(2)] and b = add_table [OF d(1) added(1-3), where flags = flags, folded added(4)]
  have t: "t \<in> avail_frames s" using pmm_alloc_avail(1) [OF d(2) added(2,3)] by simp
  have mt: "managed_frame t" using pmm.avail_managed [OF d(2) t] .
  have al: "page_aligned t" using mt by (simp add: managed_frame_def)
  have vt: "in_view (PHYS_TO_VIRT t)" using ok(2) added(1,2) by (simp add: new_table_low_def table_present_def)
  have r3: "map_ready s3"
  proof (rule map_ready_update [OF r _ b(1)])
    show "mm_erase s3 = mm_erase s" using a(6) by (simp add: added(4))
    show "in_view (table_of (pde s3 i)) \<and> translate s3 (table_of (pde s3 i)) = Some (pde s3 i AND 0xFFFFF000)"
      if "unat i < 1024" "bit (pde s3 i) 0" for i
      using that vt d(6,7) [OF that(1)] entry_value(4) [OF al] added(6)
      by (cases "i = pd_index va") (auto simp: b(3,6) table_of_def window_shows_iff)
  qed
  have t3: "table_present s3 va" using b(2) by (simp add: table_present_def)
  note e = ready_set_entry [OF r3 t3 va, where pa = pa and flags = flags, folded added(5), unfolded run]
  obtain f where f: "f \<in> low_frames s" "low_frames s1 = low_frames s - {f}" by (rule alloc_low [OF d(2) added(2,3)])
  have l3: "low_frames s3 = low_frames s1" by (simp add: added(4) low_frames_def frame_free_def scan_limit_def)
  have n3: "\<not> in_view y \<Longrightarrow> mem s3 y = mem s y" for y
  proof -
    assume y: "\<not> in_view y"
    have "\<not> in_range (PHYS_TO_VIRT t) 4096 y" 
      using view_apart [OF vt y] in_page [OF page_aligned_window(1) [OF al]] by simp
    then show ?thesis using view_apart [OF d(5) y] d(3) a(4) by (simp add: added(4) store_out fill32_out)
  qed
  show thesis
  proof (rule that [of "{t}" "{f}"])
    show "low_frames s' = low_frames s - {f}" using f(2) e(3) l3 by simp
    show "pde s' i = pde s i" if "unat i < 1024" "bit (pde s i) 0" for i
      using that added(1) e(5) by (auto simp: b(6))
    show "bit (pde s i) 0 \<or> i = pd_index va \<and> pde s' i AND 0xFFFFF000 \<in> {t}" if "unat i < 1024" "bit (pde s' i) 0" for i
      using that e(5) entry_value(4) [OF al] by (auto simp: b(6))
    show "table_present s' va" using t3 e(5) by (simp add: table_present_def)
  qed (use t f(1) e b n3 added(1) in \<open>simp_all add: table_present_def\<close>)
next
  case (hidden t s1 e)
  then show thesis using ok by (simp add: mappable_def table_fault_def table_frame_def)
next
  case (full s1)
  then show thesis using ok by (simp add: mappable_def table_frame_def)
qed

section \<open>Taking pages back\<close>

fun release_pages :: "u32 \<Rightarrow> u32 list \<Rightarrow> 'a kheap_state_scheme \<Rightarrow> 'a kheap_state_scheme" where
  "release_pages va [] s = s"
| "release_pages va (f # fs) s = release_pages (va + 4096) fs (pmm_free_frame f (paging_unmap_page va s))"

lemma no_table_cong:
  "sym s' = sym s \<Longrightarrow> (\<And>i. unat i < 1024 \<Longrightarrow> pde s' i = pde s i) \<Longrightarrow> no_table s' f = no_table s f"
  by (simp add: no_table_def)

lemma release_step:
  fixes s :: "'a kheap_state_scheme" and va f :: u32
  assumes r: "map_ready s" and va: "\<not> in_view va" and f: "managed_frame f" "no_table s f"
  defines "s' \<equiv> pmm_free_frame f (paging_unmap_page va s)"
  shows "map_ready s'" "avail_frames s' = insert f (avail_frames s)" "mm_erase s' = mm_erase s" "faults s' = faults s"
    "unat i < 1024 \<Longrightarrow> pde s' i = pde s i" "no_table s' g = no_table s g" "\<not> in_view y \<Longrightarrow> mem s' y = mem s y"
    "translate s' y = (if page_no va = page_no y then None else translate s y)"
proof -
  let ?u = "paging_unmap_page va s"
  note u = ready_unmap [OF r va]
  have sym: "sym ?u = sym s" by (rule mm_erase_field [OF mm_erase_unmap_page]) (simp add: mm_erase_defs)
  have n: "no_table ?u f" using f(2) no_table_cong [OF sym u(4)] by simp
  note p = ready_free [OF u(1) f(1) n, folded s'_def]
  have sym': "sym s' = sym s" unfolding s'_def sym [symmetric] by (rule mm_erase_field [OF mm_erase_free]) (simp add: mm_erase_defs)
  show pde: "pde s' i = pde s i" if "unat i < 1024" for i using p(3) u(4) [OF that] by simp
  show "no_table s' g = no_table s g" by (rule no_table_cong [OF sym' pde])
  show "map_ready s'" "avail_frames s' = insert f (avail_frames s)" "faults s' = faults s" using p u by simp_all
  show "mm_erase s' = mm_erase s" by (simp add: s'_def)
  show "\<not> in_view y \<Longrightarrow> mem s' y = mem s y" using p(6) u(5) by simp
  show "translate s' y = (if page_no va = page_no y then None else translate s y)" using p(2) u(6) by simp
qed

lemma page_no_nth: "page_no va + k < 1048576 \<Longrightarrow> page_no (va + 4096 * of_nat k) = page_no va + k"
proof (induction k)
  case (Suc k)
  then show ?case using page_no_step [of "va + 4096 * of_nat k"] by (simp add: algebra_simps)
qed simp

lemma in_pages_step:
  "page_no va + Suc n \<le> 1048576 \<Longrightarrow> in_pages va (Suc n) y \<longleftrightarrow> page_no va = page_no y \<or> in_pages (va + 4096) n y \<and> 0 < n"
  using page_no_step [of va] by (cases n) (auto simp: in_pages_def)

lemma release_pages_spec:
  assumes "map_ready s" and "\<And>f. f \<in> set fs \<Longrightarrow> managed_frame f \<and> no_table s f" and "page_no va + length fs \<le> 1048576"
    and "\<And>y. in_pages va (length fs) y \<Longrightarrow> \<not> in_view y"
  shows "map_ready (release_pages va fs s) \<and> avail_frames (release_pages va fs s) = set fs \<union> avail_frames s
    \<and> mm_erase (release_pages va fs s) = mm_erase s \<and> faults (release_pages va fs s) = faults s
    \<and> (\<forall>i. unat i < 1024 \<longrightarrow> pde (release_pages va fs s) i = pde s i)
    \<and> (\<forall>y. \<not> in_view y \<longrightarrow> mem (release_pages va fs s) y = mem s y)
    \<and> (\<forall>y. translate (release_pages va fs s) y = (if in_pages va (length fs) y then None else translate s y))"
  using assms
proof (induction fs arbitrary: va s)
  case Nil
  then show ?case by (auto simp: in_pages_def)
next
  case (Cons f fs)
  let ?s = "pmm_free_frame f (paging_unmap_page va s)"
  have f: "managed_frame f" "no_table s f" using Cons.prems(2) by simp_all
  have va: "\<not> in_view va" using Cons.prems(4) [of va] by (simp add: in_pages_def)
  note st = release_step [OF Cons.prems(1) va f]
  have "page_no (va + 4096) + length fs \<le> 1048576 \<or> fs = []"
    using Cons.prems(3) page_no_step [of va] by (cases fs) simp_all
  then show ?case
  proof
    assume l: "page_no (va + 4096) + length fs \<le> 1048576"
    have "\<And>g. g \<in> set fs \<Longrightarrow> managed_frame g \<and> no_table ?s g" using Cons.prems(2) st(6) by simp
    note ih = Cons.IH [OF st(1) this l]
    have pages: "in_pages va (length (f # fs)) y \<longleftrightarrow> page_no va = page_no y \<or> in_pages (va + 4096) (length fs) y" for y
      using in_pages_step [of va "length fs" y] Cons.prems(3) by (cases fs) (auto simp: in_pages_def)
    then have "\<not> in_view y" if "in_pages (va + 4096) (length fs) y" for y using Cons.prems(4) [of y] that by simp
    then show ?thesis using ih st pages by auto
  next
    assume "fs = []"
    then show ?thesis using st by (auto simp: in_pages_def)
  qed
qed

text \<open>The loops of the code that unmap a page and free its frame do this.\<close>

lemma physical_frame:
  assumes "map_ready s" and "translate s va = Some f" and "managed_frame f"
  shows "paging_get_physical va s = f" "f \<noteq> 0" "f AND 0xFFFFF000 = f"
  using paging_get_physical_eq [OF map_readyD(3) [OF assms(1)]] assms page_aligned_mask [of f] by (simp_all add: managed_frame_def)

lemma release_bodies:
  assumes "map_ready s" and "translate s (va + off) = Some f" and "managed_frame f"
  shows "undo_page va off s = pmm_free_frame f (paging_unmap_page (va + off) s)"
    "unmap_page va off s = pmm_free_frame f (paging_unmap_page (va + off) s)"
  using physical_frame [OF assms] by (simp_all add: undo_page_def unmap_page_def Let_def)

lemma page_loop_release:
  assumes body: "\<And>s off f. map_ready s \<Longrightarrow> translate s (va + off) = Some f \<Longrightarrow> managed_frame f \<Longrightarrow>
      body off s = pmm_free_frame f (paging_unmap_page (va + off) s)"
    and "map_ready s" and "\<And>f. f \<in> set fs \<Longrightarrow> managed_frame f \<and> no_table s f"
    and "unat off + 4096 * length fs = unat lim" and "page_no (va + off) + length fs \<le> 1048576"
    and view: "\<And>y. in_pages (va + off) (length fs) y \<Longrightarrow> \<not> in_view y"
    and "\<And>j. j < length fs \<Longrightarrow> translate s (va + off + 4096 * of_nat j) = Some (fs ! j)"
  shows "page_loop body lim off s = Some (release_pages (va + off) fs s)"
  using assms(2-)
proof (induction fs arbitrary: off s)
  case Nil
  then show ?case by (simp add: page_loop.simps word_less_nat_alt)
next
  case (Cons f fs)
  let ?s = "pmm_free_frame f (paging_unmap_page (va + off) s)"
  have f: "managed_frame f" "no_table s f" using Cons.prems(2) by simp_all
  have vo: "\<not> in_view (va + off)" using Cons.prems(5) [of "va + off"] by (simp add: in_pages_def)
  note st = release_step [OF Cons.prems(1) vo f]
  have off: "unat (off + 4096) = unat off + 4096" using Cons.prems(3) u32_bound [of lim] by (simp add: u32_add)
  have less: "off < lim" using Cons.prems(3) by (simp add: word_less_nat_alt)
  have t: "translate ?s (va + (off + 4096) + 4096 * of_nat j) = Some (fs ! j)" if j: "j < length fs" for j
  proof -
    have w: "va + (off + 4096) + 4096 * of_nat j = va + off + 4096 * of_nat (Suc j)" by (simp add: algebra_simps)
    have "page_no (va + off) \<noteq> page_no (va + off + 4096 * of_nat (Suc j))"
      using page_no_nth [of "va + off" "Suc j"] Cons.prems(4) j by simp
    then show ?thesis unfolding w st(8) using Cons.prems(6) [of "Suc j"] j by simp
  qed
  have step: "page_loop body lim off s = page_loop body lim (off + 4096) ?s"
    using less body [OF Cons.prems(1) _ f(1)] Cons.prems(6) [of 0] by (simp add: page_loop.simps [of body lim off])
  show ?case
  proof (cases fs)
    case Nil
    then show ?thesis using step off Cons.prems(3) by (simp add: page_loop.simps [of body lim "off + 4096"] word_less_nat_alt)
  next
    case c: (Cons g gs)
    have "page_no (va + (off + 4096)) + length fs \<le> 1048576"
      using Cons.prems(4) page_no_step [of "va + off"] c by (simp add: algebra_simps)
    moreover have "\<not> in_view y" if "in_pages (va + (off + 4096)) (length fs) y" for y
      using Cons.prems(4) Cons.prems(5) [of y] in_pages_step [of "va + off" "length fs" y] that c by (simp add: add.assoc)
    ultimately have "page_loop body lim (off + 4096) ?s = Some (release_pages (va + (off + 4096)) fs ?s)"
      using Cons.prems(2,3) st(6) off by (intro Cons.IH [OF st(1) _ _ _ _ t]) simp_all
    then show ?thesis using step by (simp add: add.assoc)
  qed
qed

section \<open>Mapping pages\<close>

definition map_range :: "u32 \<Rightarrow> nat \<Rightarrow> bool" where
  "map_range va n \<longleftrightarrow> page_aligned va \<and> page_no va + n < 1048576 \<and> (\<forall>y. in_pages va n y \<longrightarrow> \<not> in_view y)"

text \<open>The first pages from \<open>va\<close> on are mapped to the frames \<open>fs\<close> and cleared, and the frames \<open>T\<close> became tables.\<close>

definition mapped :: "'a vmm_state_scheme \<Rightarrow> u32 \<Rightarrow> u32 list \<Rightarrow> u32 set \<Rightarrow> 'a vmm_state_scheme \<Rightarrow> bool" where
  "mapped s0 va fs T s \<longleftrightarrow> map_ready s \<and> distinct fs \<and> (\<forall>f \<in> set fs. managed_frame f \<and> no_table s f) \<and> T \<inter> set fs = {}
     \<and> set fs \<union> T \<subseteq> avail_frames s0 \<and> avail_frames s = avail_frames s0 - set fs - T
     \<and> faults s = faults s0 \<and> mm_erase s = mm_erase s0 \<and> (\<forall>y. table_present s0 y \<longrightarrow> table_present s y)
     \<and> (\<forall>y. translate s y = (if in_pages va (length fs) y then Some (fs ! (page_no y - page_no va) OR (y AND 0xFFF)) else translate s0 y))
     \<and> (\<forall>y. \<not> in_view y \<longrightarrow> mem s y = (if in_pages va (length fs) y then 0 else mem s0 y))"

lemma mapped_start: "map_ready s \<Longrightarrow> mapped s va [] {} s"
  by (auto simp: mapped_def in_pages_def)

text \<open>One round of the loop: a frame, the entry for it, and the page cleared.\<close>

lemma fresh_page:
  fixes s :: "'a vmm_state_scheme" and p f fl :: u32
  assumes r: "map_ready s" and p: "page_aligned p" "\<not> in_view p"
    and a: "pmm_alloc_frame s = (f, s1)" "f \<noteq> 0" and ok: "mappable s1 p" "new_table_low s1 p"
  defines "s' \<equiv> clear_page p (paging_map_page p f fl s1)"
  obtains T L where "map_ready s'" "managed_frame f" "f \<in> avail_frames s" "T \<subseteq> avail_frames s - {f}"
    "avail_frames s' = avail_frames s - {f} - T" "faults s' = faults s" "mm_erase s' = mm_erase s"
    "table_present s p \<Longrightarrow> T = {}" "low_frames s' = low_frames s - L" "L \<subseteq> low_frames s" "card L = (if table_present s p then 1 else 2)"
    "\<And>y. table_present s y \<Longrightarrow> table_present s' y" "table_present s' p" "\<And>g. no_table s g \<Longrightarrow> g \<notin> T \<Longrightarrow> no_table s' g"
    "\<And>y. translate s' y = (if page_no y = page_no p then Some (f OR (y AND 0xFFF)) else translate s y)"
    "\<And>y. \<not> in_view y \<Longrightarrow> mem s' y = (if page_no y = page_no p then 0 else mem s y)"
proof -
  note d = map_readyD [OF r] and a1 = ready_alloc [OF r a(1)]
  have f: "f \<in> avail_frames s" "avail_frames s1 = avail_frames s - {f}" using pmm_alloc_avail(1) [OF d(2) a] by auto
  have mf: "managed_frame f" using pmm.avail_managed [OF d(2) f(1)] .
  have fm: "f AND 0xFFFFF000 = f" using mf by (intro page_aligned_mask) (simp add: managed_frame_def)
  have tp1: "table_present s1 = table_present s" using a1(3) by (simp add: table_present_def fun_eq_iff)
  define s2 where "s2 = paging_map_page p f fl s1"
  obtain T L where t: "map_ready s2" "T \<subseteq> avail_frames s1" "avail_frames s2 = avail_frames s1 - T" "table_present s1 p \<Longrightarrow> T = {}"
    and l: "low_frames s2 = low_frames s1 - L" "L \<subseteq> low_frames s1" "card L = (if table_present s1 p then 0 else 1)"
    and u:
    "\<And>i. unat i < 1024 \<Longrightarrow> bit (pde s1 i) 0 \<Longrightarrow> pde s2 i = pde s1 i"
    "\<And>i. unat i < 1024 \<Longrightarrow> bit (pde s2 i) 0 \<Longrightarrow> bit (pde s1 i) 0 \<or> i = pd_index p \<and> pde s2 i AND 0xFFFFF000 \<in> T"
    "table_present s2 p" "faults s2 = faults s1" "\<And>y. \<not> in_view y \<Longrightarrow> mem s2 y = mem s1 y"
    "\<And>y. translate s2 y = (if page_no p = page_no y then Some ((f AND 0xFFFFF000) OR (y AND 0xFFF)) else translate s1 y)"
    by (rule ready_map [OF a1(1) p(2) ok s2_def [symmetric]]) (rule that; assumption)
  have "translate s2 p \<noteq> None" using u(6) by simp
  note c = ready_clear [OF t(1) p this, unfolded s2_def, folded s'_def, folded s2_def]
  obtain f0 where f0: "f0 \<in> low_frames s" "low_frames s1 = low_frames s - {f0}" by (rule alloc_low [OF d(2) a])
  have "finite L" using l(2) finite_low_frames by (rule finite_subset)
  then have card: "card (insert f0 L) = (if table_present s p then 1 else 2)" using l(2,3) f0(2) tp1 by (subst card_insert_disjoint) auto
  have e: "mm_erase s' = mm_erase s" using c(7) a1(6) by (simp add: s2_def)
  then have sym: "sym s' = sym s" by (rule mm_erase_field) (simp add: mm_erase_defs)
  have tp: "table_present s' y" if "table_present s2 y" for y using that c(5) by (simp add: table_present_def)
  have nt: "no_table s' g" if "no_table s g" "g \<notin> T" for g
    unfolding no_table_def sym
  proof (intro conjI allI impI)
    show "g \<noteq> VIRT_TO_PHYS (page_directory s)" using that by (simp add: no_table_def)
    fix i assume i: "unat i < 1024" "bit (pde s' i) 0"
    then have "bit (pde s2 i) 0" "pde s' i = pde s2 i" using c(5) by simp_all
    then show "pde s' i AND 0xFFFFF000 \<noteq> g" using u(1,2) [OF i(1)] that a1(3) i(1) by (auto simp: no_table_def)
  qed
  have tps: "table_present s' y" if "table_present s y" for y
    using that u(1) [of "pd_index y"] a1(3) by (intro tp) (simp add: table_present_def)
  show thesis
  proof (rule that [of T "insert f0 L", OF c(1) mf f(1) _ _ _ e _ _ _ card tps tp [OF u(3)] nt])
    show "T \<subseteq> avail_frames s - {f}" "avail_frames s' = avail_frames s - {f} - T" using t(2,3) f(2) c(2) by simp_all
    show "faults s' = faults s" using c(4) u(4) a1(5) by simp
    show "table_present s p \<Longrightarrow> T = {}" using t(4) tp1 by simp
    show "low_frames s' = low_frames s - insert f0 L" "insert f0 L \<subseteq> low_frames s" using c(3) l f0 by auto
    show "translate s' y = (if page_no y = page_no p then Some (f OR (y AND 0xFFF)) else translate s y)" for y
      using c(6) u(6) [of y] a1(2) fm by simp
    show "mem s' y = (if page_no y = page_no p then 0 else mem s y)" if "\<not> in_view y" for y
      using c(8) [of y] u(5) [OF that] a1(4) by simp
  qed
qed

lemma mapped_step:
  fixes s0 s :: "'a vmm_state_scheme" and va f fl :: u32
  assumes m: "mapped s0 va fs T s" and rg: "map_range va n" "length fs < n"
    and a: "pmm_alloc_frame s = (f, s1)" "f \<noteq> 0" and ok: "mappable s1 (va + 4096 * of_nat (length fs))"
      "new_table_low s1 (va + 4096 * of_nat (length fs))"
  defines "p \<equiv> va + 4096 * of_nat (length fs)"
  defines "s' \<equiv> clear_page p (paging_map_page p f fl s1)"
  obtains T' L where "mapped s0 va (fs @ [f]) (T \<union> T') s'" "table_present s p \<Longrightarrow> T' = {}"
    "low_frames s' = low_frames s - L" "L \<subseteq> low_frames s" "card L = (if table_present s p then 1 else 2)"
    "\<And>y. table_present s y \<Longrightarrow> table_present s' y" "table_present s' p"
proof -
  let ?k = "length fs"
  note md = m [unfolded mapped_def]
  have r: "map_ready s" using md by blast
  have pn: "page_no p = page_no va + ?k" unfolding p_def using rg by (intro page_no_nth) (simp add: map_range_def)
  have pv: "\<not> in_view p" using rg pn by (simp add: map_range_def in_pages_def)
  have "unat va = 4096 * page_no va" using rg by (auto simp: map_range_def page_no_def)
  then have "unat p = 4096 * (page_no va + ?k)"
    using page_tail [of va ?k n] rg unfolding p_def map_range_def by simp
  then have pal: "page_aligned p" by simp
  obtain T' L where t: "map_ready s'" "managed_frame f" "f \<in> avail_frames s" "T' \<subseteq> avail_frames s - {f}"
    "avail_frames s' = avail_frames s - {f} - T'" "faults s' = faults s" "mm_erase s' = mm_erase s"
    "table_present s p \<Longrightarrow> T' = {}" and l: "low_frames s' = low_frames s - L" "L \<subseteq> low_frames s" "card L = (if table_present s p then 1 else 2)"
    and u:
    "\<And>y. table_present s y \<Longrightarrow> table_present s' y" "table_present s' p" "\<And>g. no_table s g \<Longrightarrow> g \<notin> T' \<Longrightarrow> no_table s' g"
    "\<And>y. translate s' y = (if page_no y = page_no p then Some (f OR (y AND 0xFFF)) else translate s y)"
    "\<And>y. \<not> in_view y \<Longrightarrow> mem s' y = (if page_no y = page_no p then 0 else mem s y)"
    by (rule fresh_page [OF r pal pv a ok [folded p_def], of fl, folded s'_def]) (rule that; assumption)
  have pages: "in_pages va (length (fs @ [f])) y \<longleftrightarrow> in_pages va ?k y \<or> page_no y = page_no p" for y
    using pn by (auto simp: in_pages_def)
  have dis: "f \<notin> set fs" "f \<notin> T" "T' \<inter> set fs = {}" "f \<notin> T'" "T' \<subseteq> avail_frames s0" "f \<in> avail_frames s0"
    using md t(3,4) by auto
  have "no_table s' g" if "g \<in> set (fs @ [f])" for g
    using that md dis ready_no_table [OF r t(3)] by (intro u(3)) auto
  moreover have "translate s' y = (if in_pages va (length (fs @ [f])) y
      then Some ((fs @ [f]) ! (page_no y - page_no va) OR (y AND 0xFFF)) else translate s0 y)" for y
  proof -
    have "translate s y = (if in_pages va ?k y then Some (fs ! (page_no y - page_no va) OR (y AND 0xFFF)) else translate s0 y)"
      using md by blast
    then show ?thesis unfolding pages u(4) using pn by (auto simp: in_pages_def nth_append)
  qed
  moreover have "mem s' y = (if in_pages va (length (fs @ [f])) y then 0 else mem s0 y)" if "\<not> in_view y" for y
    unfolding pages u(5) [OF that] using md that by auto
  ultimately have "mapped s0 va (fs @ [f]) (T \<union> T') s'"
    using md dis t(1,2,5,6,7) u(1) unfolding mapped_def by auto
  then show thesis using t l u by (intro that [of T' L]) auto
qed

lemma mapped_cong:
  assumes "mapped s0 va fs T s" and "map_ready s'" "translate s' = translate s" "pde s' = pde s" "mem s' = mem s"
    "avail_frames s' = avail_frames s" "faults s' = faults s" "mm_erase s' = mm_erase s"
  shows "mapped s0 va fs T s'"
proof -
  have "sym s' = sym s" by (rule mm_erase_field [OF assms(8)]) (simp add: mm_erase_defs)
  then show ?thesis using assms unfolding mapped_def by (simp add: no_table_def table_present_def)
qed

lemma ready_kprintf:
  assumes "map_ready s" and "kprintf_ok fmt args"
  shows "map_ready (kprintf fmt args s)" "translate (kprintf fmt args s) = translate s" "pde (kprintf fmt args s) = pde s"
    "avail_frames (kprintf fmt args s) = avail_frames s" "faults (kprintf fmt args s) = faults s"
proof -
  note d = map_readyD [OF assms(1)]
  show pde: "pde (kprintf fmt args s) = pde s" by (simp add: pde_def fun_eq_iff)
  show tr: "translate (kprintf fmt args s) = translate s" by (simp add: translate_def fun_eq_iff)
  show av: "avail_frames (kprintf fmt args s) = avail_frames s" by (simp add: avail_frames_def)
  have "term_inv s" using d(2) by (simp add: pmm_inv_def)
  then show "faults (kprintf fmt args s) = faults s" by (rule kprintf_safe(2) [OF assms(2)])
  have "paging_inv (kprintf fmt args s)"
    using d(1,2) assms(2) av pde by (intro paging_inv_cong [OF d(1)]) (simp_all add: pmm_inv_kprintf)
  then show "map_ready (kprintf fmt args s)" using pde tr by (intro map_ready_keep [OF assms(1)]) simp_all
qed

text \<open>All is as before, except for tables that were added.\<close>

definition restored :: "'a vmm_state_scheme \<Rightarrow> u32 set \<Rightarrow> 'a vmm_state_scheme \<Rightarrow> bool" where
  "restored s0 T s \<longleftrightarrow> map_ready s \<and> avail_frames s = avail_frames s0 - T \<and> translate s = translate s0
     \<and> faults s = faults s0 \<and> mm_erase s = mm_erase s0"

lemma mapped_release:
  assumes m: "mapped s0 va fs T s" and rg: "page_no va + length fs \<le> 1048576"
    and free: "\<And>y. in_pages va (length fs) y \<Longrightarrow> translate s0 y = None"
    and view: "\<And>y. in_pages va (length fs) y \<Longrightarrow> \<not> in_view y"
  shows "restored s0 T (release_pages va fs s)"
proof -
  note md = m [unfolded mapped_def]
  have "map_ready s" "\<And>f. f \<in> set fs \<Longrightarrow> managed_frame f \<and> no_table s f" using md by auto
  note p = release_pages_spec [OF this rg view]
  have "translate (release_pages va fs s) y = translate s0 y" for y using p md free by (cases "in_pages va (length fs) y") simp_all
  then show ?thesis using p md unfolding restored_def by (auto simp: fun_eq_iff)
qed

text \<open>The pages from \<open>va\<close> on lie on the frames \<open>fs\<close>, none of which is a table.\<close>

definition frames_at :: "'a kheap_state_scheme \<Rightarrow> u32 \<Rightarrow> u32 list \<Rightarrow> bool" where
  "frames_at s va fs \<longleftrightarrow> map_ready s \<and> (\<forall>f \<in> set fs. managed_frame f \<and> no_table s f)
     \<and> (\<forall>y. in_pages va (length fs) y \<longrightarrow> translate s y = Some (fs ! (page_no y - page_no va) OR (y AND 0xFFF)))"

lemma mapped_frames: "mapped s0 va fs T s \<Longrightarrow> frames_at s va fs"
  by (simp add: mapped_def frames_at_def)

lemma release_loop:
  assumes m: "frames_at s va fs" and va: "page_aligned va" and rg: "page_no va + length fs < 1048576"
    and view: "\<And>y. in_pages va (length fs) y \<Longrightarrow> \<not> in_view y"
    and lim: "unat lim = 4096 * length fs"
    and body: "\<And>s off f. map_ready s \<Longrightarrow> translate s (va + off) = Some f \<Longrightarrow> managed_frame f \<Longrightarrow>
      body off s = pmm_free_frame f (paging_unmap_page (va + off) s)"
  shows "page_loop body lim 0 s = Some (release_pages va fs s)"
proof -
  note md = m [unfolded frames_at_def]
  have t: "translate s (va + 4096 * of_nat j) = Some (fs ! j)" if j: "j < length fs" for j
  proof -
    have pn: "page_no (va + 4096 * of_nat j) = page_no va + j" using rg j by (intro page_no_nth) simp
    have "unat va = 4096 * page_no va" using va by (auto simp: page_no_def)
    then have "unat (va + 4096 * of_nat j) = 4096 * (page_no va + j)"
      using page_tail [OF va, of j "length fs"] rg j by simp
    then have "unat (va + 4096 * of_nat j) mod 4096 = 0" by simp
    then have "(va + 4096 * of_nat j) AND 0xFFF = 0" by (simp add: u32_eq_iff unat_and_4095)
    moreover have "in_pages va (length fs) (va + 4096 * of_nat j)" using pn j by (simp add: in_pages_def)
    ultimately show ?thesis using md pn by auto
  qed
  have "page_loop body lim 0 s = Some (release_pages (va + 0) fs s)"
    using md t rg lim view by (intro page_loop_release [OF body]) auto
  then show ?thesis by simp
qed

section \<open>The mapping loop\<close>

text \<open>The directory entries that the rest of a range needs and does not have.\<close>

definition missing :: "'a paging_state_scheme \<Rightarrow> u32 \<Rightarrow> nat \<Rightarrow> nat \<Rightarrow> u32 set" where
  "missing s va n k = {pd_index y | y. page_no va + k \<le> page_no y \<and> page_no y < page_no va + n \<and> \<not> table_present s y}"

lemma finite_missing: "finite (missing s va n k)"
  by (rule finite_subset [OF subset_UNIV]) simp

lemma missing_step:
  assumes "\<And>y. table_present s y \<Longrightarrow> table_present s' y" and "table_present s' p" and "page_no p = page_no va + k" "k < n"
  shows "card (missing s' va n (Suc k)) + (if table_present s p then 0 else 1) \<le> card (missing s va n k)"
proof -
  have sub: "missing s' va n (Suc k) \<subseteq> missing s va n k" using assms(1) by (force simp: missing_def)
  show ?thesis
  proof (cases "table_present s p")
    case True
    then show ?thesis using card_mono [OF finite_missing sub] by simp
  next
    case False
    then have "pd_index p \<in> missing s va n k" using assms by (force simp: missing_def)
    moreover have "pd_index p \<notin> missing s' va n (Suc k)" using assms(2) by (auto simp: missing_def table_present_def)
    ultimately have "missing s' va n (Suc k) \<subset> missing s va n k" using sub by blast
    then show ?thesis using psubset_card_mono [OF finite_missing] False by (simp add: Suc_le_eq)
  qed
qed

text \<open>Either all tables are there, or there are frames for the pages and the missing tables. In the
  first case the frames may run out, and everything is taken back. Frames are taken in ascending
  order; where tables are missing, the window has to show all frames that may be taken for them, the least free
  ones up to some number \<open>b\<close>.\<close>

definition frames_for :: "'a paging_state_scheme \<Rightarrow> u32 \<Rightarrow> nat \<Rightarrow> nat \<Rightarrow> bool" where
  "frames_for s va n k \<longleftrightarrow>
     (if missing s va n k = {} then n - k \<le> card (low_frames s)
      else \<exists>b \<le> 4096. (\<forall>f \<in> low_frames s. f < b \<longrightarrow> translate s (PHYS_TO_VIRT (of_nat f * 4096)) = Some (of_nat f * 4096))
             \<and> n - k + card (missing s va n k) \<le> card {f \<in> low_frames s. f < b})"

lemma frames_for_least: "frames_for s va n k \<Longrightarrow> n - k + card (missing s va n k) \<le> card (low_frames s)"
proof -
  have "card {f \<in> low_frames s. f < b} \<le> card (low_frames s)" for b by (rule card_mono [OF finite_low_frames]) auto
  then show "frames_for s va n k \<Longrightarrow> n - k + card (missing s va n k) \<le> card (low_frames s)"
    by (auto simp: frames_for_def intro: le_trans split: if_splits)
qed

lemma frames_for_step:
  assumes tp: "\<And>y. table_present s y \<Longrightarrow> table_present s' y" "table_present s' p" and p: "page_no p = page_no va + k" "k < n"
    and L: "low_frames s' = low_frames s - L" "L \<subseteq> low_frames s" "card L = (if table_present s p then 1 else 2)"
    and tr: "\<And>y. in_view y \<Longrightarrow> translate s' y = translate s y" and ff: "frames_for s va n k"
  shows "frames_for s' va n (Suc k)"
proof -
  note ms = missing_step [where s = s, OF tp p]
  have fin: "finite L" by (rule finite_subset [OF L(2) finite_low_frames])
  show ?thesis
  proof (cases "missing s' va n (Suc k) = {}")
    case True
    have "card (low_frames s) - card L \<le> card (low_frames s')" unfolding L(1) by (rule diff_card_le_card_Diff [OF fin])
    moreover have "n - k + card (missing s va n k) \<le> card (low_frames s)" by (rule frames_for_least [OF ff])
    ultimately show ?thesis using True ms L(3) by (auto simp: frames_for_def split: if_splits)
  next
    case False
    then have "missing s va n k \<noteq> {}" using ms by (auto simp: card_gt_0_iff finite_missing dest: le_0_eq [THEN iffD1] split: if_splits)
    then obtain b where b: "b \<le> 4096" "\<And>f. f \<in> low_frames s \<Longrightarrow> f < b \<Longrightarrow> translate s (PHYS_TO_VIRT (of_nat f * 4096)) = Some (of_nat f * 4096)"
      "n - k + card (missing s va n k) \<le> card {f \<in> low_frames s. f < b}"
      using ff by (auto simp: frames_for_def)
    have "{f \<in> low_frames s'. f < b} = {f \<in> low_frames s. f < b} - L" using L(1) by auto
    then have "card {f \<in> low_frames s. f < b} - card L \<le> card {f \<in> low_frames s'. f < b}" using diff_card_le_card_Diff [OF fin] by simp
    then have "n - Suc k + card (missing s' va n (Suc k)) \<le> card {f \<in> low_frames s'. f < b}"
      using b(3) ms L(3) p(2) by (auto split: if_splits)
    moreover have "translate s' (PHYS_TO_VIRT (of_nat f * 4096)) = Some (of_nat f * 4096)" if "f \<in> low_frames s'" "f < b" for f
      using that b(1,2) tr [OF view_frame] L(1) by auto
    ultimately show ?thesis using False b(1) unfolding frames_for_def by auto
  qed
qed

definition has_tables :: "'a paging_state_scheme \<Rightarrow> u32 \<Rightarrow> nat \<Rightarrow> bool" where
  "has_tables s va n \<longleftrightarrow> (\<forall>y. in_pages va n y \<longrightarrow> table_present s y)"

lemma map_pages_full:
  assumes m: "mapped s0 va fs T s" and rg: "map_range va n" and k: "length fs < n" and off: "unat off = 4096 * length fs" "off < sz"
    and free: "\<And>y. in_pages va n y \<Longrightarrow> translate s0 y = None" and a: "pmm_alloc_frame s = (0, s1)"
  obtains s' where "map_pages va sz fl off s = Some (False, s')" "restored s0 T s'"
proof -
  define s2 where "s2 = kprintf ''VMM: out of physical memory during map\<newline>'' [] s1"
  have r: "map_ready s" using m by (simp add: mapped_def)
  note a1 = ready_alloc [OF r a]
  have av: "avail_frames s1 = avail_frames s" using pmm_alloc_avail(2) [OF map_readyD(2) [OF r] a] by simp
  have "mapped s0 va fs T s1" by (rule mapped_cong [OF m a1(1-4) av a1(5,6)])
  then have m2: "mapped s0 va fs T s2"
    using ready_kprintf [OF a1(1), of "''VMM: out of physical memory during map\<newline>''" "[]"] unfolding s2_def by (elim mapped_cong) simp_all
  have "page_loop (undo_page va) off 0 s2 = Some (release_pages va fs s2)"
    using rg k by (intro release_loop [OF mapped_frames [OF m2] _ _ _ off(1) release_bodies(1)]) (auto simp: map_range_def in_pages_def)
  then have "map_pages va sz fl off s = Some (False, release_pages va fs s2)"
    using off a by (simp add: map_pages.simps [of va sz fl off] s2_def)
  moreover have "restored s0 T (release_pages va fs s2)"
    using rg k free by (intro mapped_release [OF m2]) (auto simp: map_range_def in_pages_def)
  ultimately show thesis by (rule that)
qed

lemma enough_mappable:
  assumes r: "map_ready s" and a: "pmm_alloc_frame s = (f, s1)" "f \<noteq> 0" and p: "page_no p = page_no va + k" "k < n"
    and or: "has_tables s va n \<or> frames_for s va n k"
  shows "mappable s1 p" "new_table_low s1 p"
proof -
  note d = map_readyD [OF r] and a1 = ready_alloc [OF r a(1)]
  have "mappable s1 p \<and> new_table_low s1 p"
  proof (cases "table_present s p")
    case True
    then have b: "bit (pde s1 (pd_index p)) 0" using a1(3) by (simp add: table_present_def)
    then have "window_shows s1 (pde s1 (pd_index p) AND 0xFFFFF000)"
      using map_readyD(7) [OF a1(1) _ b] by (simp add: window_shows_iff table_of_def)
    then show ?thesis using b by (simp add: mappable_def table_fault_def table_frame_def new_table_low_def table_present_def)
  next
    case False
    then have "pd_index p \<in> missing s va n k" using p by (force simp: missing_def)
    then have ne: "missing s va n k \<noteq> {}" "0 < card (missing s va n k)" by (auto simp: card_gt_0_iff finite_missing)
    have "\<not> has_tables s va n" using False p by (force simp: in_pages_def has_tables_def)
    then obtain b where b: "b \<le> 4096" "\<And>g. g \<in> low_frames s \<Longrightarrow> g < b \<Longrightarrow> translate s (PHYS_TO_VIRT (of_nat g * 4096)) = Some (of_nat g * 4096)"
      "n - k + card (missing s va n k) \<le> card {g \<in> low_frames s. g < b}"
      using or ne(1) by (auto simp: frames_for_def)
    obtain f0 where f0: "low_frames s1 = low_frames s - {f0}" by (rule alloc_low [OF d(2) a])
    have "0 < card ({g \<in> low_frames s. g < b} - {f0})"
      using b(3) ne(2) p(2) diff_card_le_card_Diff [of "{f0}" "{g \<in> low_frames s. g < b}"] by simp
    then obtain g where g: "g \<in> low_frames s1" "g < b" using f0 by (auto simp: card_gt_0_iff)
    obtain t s2 where t: "pmm_alloc_frame s1 = (t, s2)" by fastforce
    have nz: "t \<noteq> 0" using alloc_low_frames [OF map_readyD(2) [OF a1(1)] _ t] g(1) by blast
    obtain h where h: "h \<in> low_frames s1" "t = of_nat h * 4096" "h \<le> g"
      by (rule alloc_low [OF map_readyD(2) [OF a1(1)] t nz]) (use g in blast)
    have "h < b" "h \<in> low_frames s" using h g f0 by auto
    then have "translate s1 (PHYS_TO_VIRT t) = Some t" "in_view (PHYS_TO_VIRT t)"
      using b(1,2) h(2) a1(2) view_frame [of h] by auto
    then show ?thesis using False a1(3) t nz
      by (simp add: mappable_def table_fault_def table_frame_def new_table_low_def table_present_def window_fault_def)
  qed
  then show "mappable s1 p" "new_table_low s1 p" by auto
qed

lemma map_pages_run:
  assumes "mapped s0 va fs T s" and "map_range va n" and "unat sz = 4096 * n" and "length fs \<le> n"
    and "\<And>y. in_pages va n y \<Longrightarrow> translate s0 y = None" and "has_tables s va n \<or> frames_for s va n (length fs)"
  shows "\<exists>ok s' fs' T'. map_pages va sz fl (4096 * of_nat (length fs)) s = Some (ok, s')
    \<and> (if ok then length fs' = n \<and> mapped s0 va fs' T' s' else restored s0 T' s')
    \<and> (frames_for s va n (length fs) \<longrightarrow> ok) \<and> (has_tables s va n \<longrightarrow> T' = T)"
  using assms
proof (induction "n - length fs" arbitrary: fs T s)
  case 0
  have "unat (4096 * of_nat n :: u32) = 4096 * n"
    using 0(3,4) u32_bound [of sz] u32_of_nat [of "4096 * n"] by simp
  then have "\<not> 4096 * of_nat (length fs) < sz" using 0 by (simp add: word_less_nat_alt)
  then show ?case using 0 by (intro exI [of _ True] exI [of _ s] exI [of _ fs] exI [of _ T]) (simp add: map_pages.simps)
next
  case (Suc d)
  let ?k = "length fs" and ?off = "4096 * of_nat (length fs) :: u32"
  have k: "?k < n" using Suc.hyps(2) by simp
  have off: "unat ?off = 4096 * ?k" using Suc.prems(3) k u32_bound [of sz] u32_of_nat [of "4096 * ?k"] by simp
  then have less: "?off < sz" using Suc.prems(3) k by (simp add: word_less_nat_alt)
  note rg = Suc.prems(2)
  have r: "map_ready s" using Suc.prems(1) by (simp add: mapped_def)
  obtain f s1 where a: "pmm_alloc_frame s = (f, s1)" by fastforce
  show ?case
  proof (cases "f = 0")
    case True
    obtain s' where "map_pages va sz fl ?off s = Some (False, s')" "restored s0 T s'"
      by (rule map_pages_full [OF Suc.prems(1) rg k off less Suc.prems(5) a [unfolded True]])
    moreover have "low_frames s = {}" using alloc_low_frames [OF map_readyD(2) [OF r] _ a] True by blast
    then have "\<not> frames_for s va n ?k" using k frames_for_least [of s va n ?k] by auto
    ultimately show ?thesis by (intro exI [of _ False] exI [of _ s'] exI [of _ fs] exI [of _ T]) simp
  next
    case False
    let ?p = "va + ?off"
    define s' where "s' = clear_page ?p (paging_map_page ?p f fl s1)"
    have pn: "page_no ?p = page_no va + ?k" using rg k by (intro page_no_nth) (simp add: map_range_def)
    note ok = enough_mappable [OF r a False pn k Suc.prems(6)]
    obtain T' L where t: "mapped s0 va (fs @ [f]) (T \<union> T') s'" "table_present s ?p \<Longrightarrow> T' = {}"
        and l: "low_frames s' = low_frames s - L" "L \<subseteq> low_frames s" "card L = (if table_present s ?p then 1 else 2)"
        and tp: "\<And>y. table_present s y \<Longrightarrow> table_present s' y" "table_present s' ?p"
      by (rule mapped_step [OF Suc.prems(1) rg k a False ok, of fl, folded s'_def]) (rule that; assumption)
    have view: "translate s' y = translate s y" if "in_view y" for y
    proof -
      have "\<not> in_pages va n y" using that rg by (auto simp: map_range_def)
      then have "\<not> in_pages va (length fs) y" "\<not> in_pages va (length (fs @ [f])) y" using k by (auto simp: in_pages_def)
      then show ?thesis using t(1) Suc.prems(1) by (simp add: mapped_def)
    qed
    have cnt: "frames_for s va n ?k \<Longrightarrow> frames_for s' va n (length (fs @ [f]))"
      using frames_for_step [OF tp pn k l view] by simp
    have tabs: "has_tables s va n \<Longrightarrow> has_tables s' va n" using tp by (simp add: has_tables_def)
    have T': "has_tables s va n \<Longrightarrow> T \<union> T' = T" using t(2) pn k by (simp add: in_pages_def has_tables_def)
    have "map_pages va sz fl ?off s = map_pages va sz fl (?off + 4096) s'"
      using less a False by (simp add: map_pages.simps [of va sz fl ?off] s'_def)
    moreover have "?off + 4096 = 4096 * of_nat (length (fs @ [f]))" by (simp add: algebra_simps)
    ultimately have step: "map_pages va sz fl ?off s = map_pages va sz fl (4096 * of_nat (length (fs @ [f]))) s'" by simp
    have "d = n - length (fs @ [f])" "length (fs @ [f]) \<le> n" using Suc.hyps(2) k by simp_all
    from Suc.hyps(1) [OF this(1) t(1) rg Suc.prems(3) this(2) Suc.prems(5)] obtain ok s'' fs' U where
      "map_pages va sz fl ?off s = Some (ok, s'')" "if ok then length fs' = n \<and> mapped s0 va fs' U s'' else restored s0 U s''"
      "frames_for s' va n (length (fs @ [f])) \<longrightarrow> ok" "has_tables s' va n \<longrightarrow> U = T \<union> T'"
      unfolding step using Suc.prems(6) cnt tabs by blast
    then show ?thesis using cnt tabs T' by (intro exI [of _ ok] exI [of _ s''] exI [of _ fs'] exI [of _ U]) auto
  qed
qed

section \<open>Regions\<close>

text \<open>What a caller of \<^verbatim>\<open>vmm_map_region\<close> has to provide: a well-formed region list with a record to spare, and
  \<open>n\<close> unmapped pages outside of the view of the frames that overlap no region.\<close>

definition can_map :: "'a vmm_state_scheme \<Rightarrow> u32 \<Rightarrow> nat list \<Rightarrow> u32 \<Rightarrow> nat \<Rightarrow> bool" where
  "can_map s sp ix va n \<longleftrightarrow> sp \<noteq> 0 \<and> region_seq s sp ix \<and> region_pool_used s < 256 \<and> map_ready s \<and> map_range va n
     \<and> (\<forall>r \<in> set (space_regions s ix). \<not> overlaps va (4096 * of_nat n) r) \<and> (\<forall>y. in_pages va n y \<longrightarrow> translate s y = None)"

lemma ready_above:
  fixes s s' :: "'a kheap_state_scheme"
  assumes "kheap_state.truncate s' = kheap_state.truncate s"
  shows "map_ready s' = map_ready s" "translate s' = translate s" "avail_frames s' = avail_frames s" "no_table s' = no_table s"
    "mem s' = mem s" "faults s' = faults s"
proof -
  have t: "map_ready (kheap_state.truncate t) = map_ready t" "translate (kheap_state.truncate t) = translate t"
    "no_table (kheap_state.truncate t) = no_table t" for t :: "'a kheap_state_scheme"
    by (simp_all add: map_ready_def translate_def no_table_def pde_def fun_eq_iff) (simp add: kheap_state.defs)
  show "map_ready s' = map_ready s" "translate s' = translate s" "no_table s' = no_table s"
    using t [of s] t [of s'] assms by metis+
  show "avail_frames s' = avail_frames s" using assms truncate_frames(2) [of s] truncate_frames(2) [of s'] by metis
  show "mem s' = mem s" "faults s' = faults s" using heap_inv_above(8,10) [OF assms] by simp_all
qed

lemma regions_kept:
  assumes "mm_erase s' = mm_erase s"
  shows "region_seq s' = region_seq s" "space_regions s' = space_regions s" "region_pool_used s' = region_pool_used s"
    "region_pool s' = region_pool s" "spaces s' = spaces s"
proof -
  show f: "region_pool s' = region_pool s" "spaces s' = spaces s" "region_pool_used s' = region_pool_used s"
    by (rule mm_erase_field [OF assms]; simp add: mm_erase_defs)+
  show "region_seq s' = region_seq s" "space_regions s' = space_regions s" using region_seq_cong [OF f] by simp_all
qed

lemma page_words: "unat va mod 4096 = 0 \<Longrightarrow> va AND 4095 = 0" for va :: u32
  by (simp add: u32_eq_iff unat_and_4095)

lemma map_region_checks:
  assumes c: "can_map s sp ix va n"
  shows "unat (4096 * of_nat n :: u32) = 4096 * n"
    and "vmm_map_region sp va (4096 * of_nat n) fl ty s =
      (case map_pages va (4096 * of_nat n) (vmm_flags_to_page_flags fl) 0 s of
         None \<Rightarrow> (-1, add_fault Diverges s)
       | Some (False, s1) \<Rightarrow> (-1, s1)
       | Some (True, s1) \<Rightarrow>
           (case register_existing_region sp va (4096 * of_nat n) fl ty s1 of
              (None, s2) \<Rightarrow> (case page_loop (undo_page va) (4096 * of_nat n) 0 s2 of
                 None \<Rightarrow> (-1, add_fault Diverges s2) | Some s3 \<Rightarrow> (-1, s3))
            | (Some r, s2) \<Rightarrow> (0, s2)))"
proof -
  note cd = c [unfolded can_map_def]
  have rg: "page_aligned va" "page_no va + n < 1048576" using cd by (simp_all add: map_range_def)
  show sz: "unat (4096 * of_nat n :: u32) = 4096 * n" using rg(2) u32_of_nat [of "4096 * n"] by simp
  have al: "va AND 4095 = 0" "(4096 * of_nat n :: u32) AND 4095 = 0" using rg sz by (auto intro: page_words)
  have "chain_find (region_pool s) (overlaps va (4096 * of_nat n)) (as_regions (spaces s sp)) =
      Some (find (\<lambda>i. overlaps va (4096 * of_nat n) (region_pool s ! i)) ix)"
    using cd by (intro chain_find_spec) (simp add: region_seq_def)
  moreover have "find (\<lambda>i. overlaps va (4096 * of_nat n) (region_pool s ! i)) ix = None"
    using cd by (auto simp: find_None_iff space_regions_def overlaps_def)
  ultimately have "chain_find (region_pool s) (overlaps va (4096 * of_nat n)) (as_regions (spaces s sp)) = Some None" by simp
  then show "vmm_map_region sp va (4096 * of_nat n) fl ty s =
      (case map_pages va (4096 * of_nat n) (vmm_flags_to_page_flags fl) 0 s of
         None \<Rightarrow> (-1, add_fault Diverges s)
       | Some (False, s1) \<Rightarrow> (-1, s1)
       | Some (True, s1) \<Rightarrow>
           (case register_existing_region sp va (4096 * of_nat n) fl ty s1 of
              (None, s2) \<Rightarrow> (case page_loop (undo_page va) (4096 * of_nat n) 0 s2 of
                 None \<Rightarrow> (-1, add_fault Diverges s2) | Some s3 \<Rightarrow> (-1, s3))
            | (Some r, s2) \<Rightarrow> (0, s2)))"
    using cd al unfolding vmm_map_region_def register_existing_region_def
    by (auto split: option.split prod.split bool.split)
qed

lemma map_region_cases:
  assumes c: "can_map s sp ix va n" and or: "has_tables s va n \<or> frames_for s va n 0"
  obtains (ok) fs T s1 s' ix' where "vmm_map_region sp va (4096 * of_nat n) fl ty s = (0, s')" "length fs = n"
      "mapped s va fs T s1" "has_tables s va n \<Longrightarrow> T = {}" "regions_only sp s1 s'" "region_seq s' sp ix'"
      "mset (space_regions s' ix') = add_mset (new_region va (4096 * of_nat n) fl ty) (mset (space_regions s ix))"
      "va \<notin> r_base ` set (space_regions s ix) \<Longrightarrow>
         space_regions s' ix' = insort_key r_base (new_region va (4096 * of_nat n) fl ty) (space_regions s ix)"
    | (full) s' where "vmm_map_region sp va (4096 * of_nat n) fl ty s = (-1, s')" "restored s {} s'" "\<not> frames_for s va n 0"
proof -
  note cd = c [unfolded can_map_def] and sz = map_region_checks(1) [OF c] and ch = map_region_checks(2) [OF c, of fl ty]
  have m: "mapped s va [] {} s" using cd by (intro mapped_start) simp
  have rg: "map_range va n" "\<And>y. in_pages va n y \<Longrightarrow> translate s y = None" using cd by auto
  have "\<exists>ok s1 fs T. map_pages va (4096 * of_nat n) (vmm_flags_to_page_flags fl) 0 s = Some (ok, s1)
    \<and> (if ok then length fs = n \<and> mapped s va fs T s1 else restored s T s1)
    \<and> (frames_for s va n 0 \<longrightarrow> ok) \<and> (has_tables s va n \<longrightarrow> T = {})"
    using map_pages_run [OF m rg(1) sz _ rg(2)] or by simp
  then obtain ok s1 fs T where p: "map_pages va (4096 * of_nat n) (vmm_flags_to_page_flags fl) 0 s = Some (ok, s1)"
    "if ok then length fs = n \<and> mapped s va fs T s1 else restored s T s1"
    "frames_for s va n 0 \<longrightarrow> ok" "has_tables s va n \<longrightarrow> T = {}" by blast
  show thesis
  proof (cases ok)
    case True
    then have m1: "mapped s va fs T s1" "length fs = n" using p(2) by simp_all
    then have e: "mm_erase s1 = mm_erase s" by (simp add: mapped_def)
    note k = regions_kept [OF e]
    have "region_seq s1 sp ix" "region_pool_used s1 < 256" using cd k by simp_all
    then obtain s' ix' where r: "register_existing_region sp va (4096 * of_nat n) fl ty s1 = (Some (unat (region_pool_used s1)), s')"
      "region_seq s' sp ix'" "mset (space_regions s' ix') = add_mset (new_region va (4096 * of_nat n) fl ty) (mset (space_regions s1 ix))"
      "va \<notin> r_base ` set (space_regions s1 ix) \<Longrightarrow>
         space_regions s' ix' = insort_key r_base (new_region va (4096 * of_nat n) fl ty) (space_regions s1 ix)"
      "regions_only sp s1 s'"
      by (rule register_spec) (rule that; assumption)
    have "vmm_map_region sp va (4096 * of_nat n) fl ty s = (0, s')" unfolding ch using p(1) True r(1) by simp
    then show thesis by (rule ok [OF _ m1(2,1) _ r(5,2) r(3,4) [unfolded k]]) (use p(4) in simp_all)
  next
    case False
    then have "vmm_map_region sp va (4096 * of_nat n) fl ty s = (-1, s1)" unfolding ch using p(1) by simp
    moreover have "restored s {} s1" using p False or by auto
    ultimately show thesis using p(3) False by (intro full) auto
  qed
qed

text \<open>Unmapping a region whose pages lie on frames of their own.\<close>

lemma unmap_region_run:
  assumes seq: "region_seq s sp (xs @ i # ys)" and sp: "sp \<noteq> 0" and i: "r_base (region_pool s ! i) = va"
      "\<And>j. j \<in> set xs \<Longrightarrow> r_base (region_pool s ! j) \<noteq> va" "\<not> r_type (region_pool s ! i) \<le> REGION_IDENTITY_MAP"
    and loop: "page_loop (unmap_page va) (r_size (region_pool s ! i)) 0 s = Some s1"
  shows "vmm_unmap_region sp va s = (0, remove_region sp i s1)"
proof -
  have "find (\<lambda>j. r_base (region_pool s ! j) = va) (xs @ i # ys) = Some i" using i(1,2) by (induction xs) auto
  then have "chain_find (region_pool s) (\<lambda>r. r_base r = va) (as_regions (spaces s sp)) = Some (Some i)"
    using seq chain_find_spec [of "region_pool s" _ "xs @ i # ys" "\<lambda>r. r_base r = va"] by (simp add: region_seq_def)
  then show ?thesis using sp i loop by (simp add: vmm_unmap_region_def)
qed

lemma map_unmap_run:
  assumes c: "can_map s sp ix va n" and m: "mapped s va fs T s1" "length fs = n" and only: "regions_only sp s1 s2"
    and seq: "region_seq s2 sp ix2" "space_regions s2 ix2 = insort_key r_base (new_region va (4096 * of_nat n) fl ty) (space_regions s ix)"
    and new: "va \<notin> r_base ` set (space_regions s ix)" and ty: "\<not> ty \<le> REGION_IDENTITY_MAP"
  obtains s3 ix3 where "vmm_unmap_region sp va s2 = (0, s3)" "region_seq s3 sp ix3" "space_regions s3 ix3 = space_regions s ix"
    "translate s3 = translate s" "avail_frames s3 = avail_frames s - T" "faults s3 = faults s"
proof -
  note cd = c [unfolded can_map_def] and sz = map_region_checks(1) [OF c]
  let ?R = "new_region va (4096 * of_nat n) fl ty"
  have rg: "page_aligned va" "page_no va + length fs < 1048576" and view: "\<And>y. in_pages va (length fs) y \<Longrightarrow> \<not> in_view y"
    using cd m(2) by (simp_all add: map_range_def)
  have "?R \<in> set (space_regions s2 ix2)" unfolding seq(2) by (simp add: set_insort_key)
  then have "\<exists>j \<in> set ix2. region_at (region_pool s2) j = ?R" by (auto simp: space_regions_def)
  then obtain xs i ys where ix2: "ix2 = xs @ i # ys" and i: "region_at (region_pool s2) i = ?R"
    and xs: "\<forall>j \<in> set xs. region_at (region_pool s2) j \<noteq> ?R" by (rule split_list_first_propE)
  have parts: "space_regions s2 (xs @ ys) = space_regions s ix"
  proof -
    have "space_regions s2 (xs @ ys) = remove1 ?R (space_regions s2 ix2)"
      using ix2 i xs by (auto simp: space_regions_def remove1_append)
    then show ?thesis unfolding seq(2) by (simp add: remove1_insort_key)
  qed
  have bi: "r_base (region_pool s2 ! i) = va" "r_size (region_pool s2 ! i) = 4096 * of_nat n" "r_type (region_pool s2 ! i) = ty"
    using arg_cong [OF i, of r_base] arg_cong [OF i, of r_size] arg_cong [OF i, of r_type] by (simp_all add: new_region_def)
  have bx: "r_base (region_pool s2 ! j) \<noteq> va" if "j \<in> set xs" for j
  proof -
    have "region_at (region_pool s2) j \<in> set (space_regions s ix)" unfolding parts [symmetric] using that by (simp add: space_regions_def)
    then show ?thesis using new by (metis image_eqI region_at_fields(1))
  qed
  have t: "kheap_state.truncate s2 = kheap_state.truncate s1" using only by (simp add: regions_only_def)
  note ab = ready_above [OF t]
  have fr: "frames_at s2 va fs" using mapped_frames [OF m(1)] ab by (simp add: frames_at_def)
  define s3 where "s3 = release_pages va fs s2"
  have "page_loop (unmap_page va) (r_size (region_pool s2 ! i)) 0 s2 = Some s3"
    unfolding bi s3_def using sz m(2) view by (intro release_loop [OF fr rg _ _ release_bodies(2)]) simp_all
  with seq(1) cd bi bx ty ix2 have un: "vmm_unmap_region sp va s2 = (0, remove_region sp i s3)"
    by (intro unmap_region_run) auto
  have rel: "mm_erase s3 = mm_erase s2" "avail_frames s3 = set fs \<union> avail_frames s2" "faults s3 = faults s2"
    "\<And>y. translate s3 y = (if in_pages va (length fs) y then None else translate s2 y)"
    using release_pages_spec [of s2 fs va] fr rg view unfolding s3_def frames_at_def by auto
  note k = regions_kept [OF rel(1)]
  note rem = remove_region_seq [of s3 sp xs i ys, unfolded k, OF seq(1) [unfolded ix2]]
  have "kheap_state.truncate (remove_region sp i s3) = kheap_state.truncate s3" using rem(3) by (simp add: regions_only_def)
  note ab3 = ready_above [OF this]
  show thesis
  proof (rule that [OF un rem(1)])
    show "space_regions (remove_region sp i s3) (xs @ ys) = space_regions s ix" using rem(2) parts by simp
    show "translate (remove_region sp i s3) = translate s"
      using ab3(2) rel(4) ab(2) m cd by (auto simp: fun_eq_iff mapped_def)
    show "avail_frames (remove_region sp i s3) = avail_frames s - T" using ab3(3) rel(2) ab(3) m(1) by (auto simp: mapped_def)
    show "faults (remove_region sp i s3) = faults s" using ab3(6) rel(3) ab(6) m(1) by (simp add: mapped_def)
  qed
qed

section \<open>After \<^verbatim>\<open>paging_init\<close>\<close>

lemma paging_init_ready:
  assumes placed: "tables_placed s" and "pmm_inv s" "tables_reserved s"
    and view: "in_view (page_directory s)" "\<And>t. t < 4 \<Longrightarrow> in_view (table_page (page_tables_sym (sym s)) t)"
  shows "map_ready (paging_init s)"
proof -
  let ?T = "table_page (page_tables_sym (sym s))"
  have inv: "paging_inv (paging_init s)" using assms by (intro paging_init_inv) (auto simp: tables_reserved_def)
  have "reg_cr3 (cpu (mm_erase (paging_init s))) = VIRT_TO_PHYS (page_directory s)" by (simp add: mm_erase_paging_init)
  then have cr3: "reg_cr3 (cpu (paging_init s)) = VIRT_TO_PHYS (page_directory s)" by (simp add: mm_erase_defs)
  have "in_view (table_of (pde (paging_init s) i)) \<and>
      translate (paging_init s) (table_of (pde (paging_init s) i)) = Some (pde (paging_init s) i AND 0xFFFFF000)"
    if i: "unat i < 1024" "bit (pde (paging_init s) i) 0" for i
  proof -
    have e: "pde (paging_init s) i = (if 768 \<le> unat i \<and> unat i < 772 then VIRT_TO_PHYS (?T (unat i - 768)) OR 3 else 2)"
      using paging_init_entries(1) [OF placed i(1), of 0] by simp
    have "\<not> bit (2 :: u32) 0" by (simp add: bit_iff_odd)
    then have w: "768 \<le> unat i \<and> unat i < 772" using i(2) e by (auto split: if_splits)
    have "page_aligned (VIRT_TO_PHYS (?T (unat i - 768)))"
      using placed w by (intro page_aligned_window table_page_aligned) (auto simp: tables_placed_def)
    then have "pde (paging_init s) i AND 0xFFFFF000 = VIRT_TO_PHYS (?T (unat i - 768))" using e w present_writable by simp
    moreover have v: "in_view (?T (unat i - 768))" using view(2) [of "unat i - 768"] w by auto
    moreover have "translate (paging_init s) (?T (unat i - 768)) = Some (VIRT_TO_PHYS (?T (unat i - 768)))"
      using paging_init_translate [OF placed] v by (simp add: in_view_iff VIRT_TO_PHYS_def)
    ultimately show ?thesis by (simp add: table_of_def)
  qed
  then show ?thesis using inv cr3 view(1) by (simp add: map_ready_def paging_init_fields)
qed

lemma sample_kheap_ready:
  fixes s :: "'a kheap_state_scheme"
  assumes "kheap_state.truncate s = sample_kheap"
  shows "map_ready (paging_init s)" "faults (paging_init s) = []" "low_frames (paging_init s) = {1024..<32768}"
    "translate (paging_init s) va = (if 0xC0000000 \<le> va \<and> va < 0xC1000000 then Some (va - 0xC0000000) else None)"
proof -
  have c: "tables_placed s" "pmm_inv s" "tables_reserved s" "faults s = []" "low_frames s = low_frames sample_kheap" "sym s = sym sample_kheap"
    using sample_kheap_boot(1-3) sample_kheap_fields(6) unfolding assms [symmetric] by simp_all
  show "map_ready (paging_init s)"
  proof (rule paging_init_ready [OF c(1-3)])
    show "in_view (page_directory s)" unfolding c by (simp add: in_view_def page_no_def)
    show "in_view (table_page (page_tables_sym (sym s)) t)" if "t < 4" for t
    proof -
      have "t \<in> {0, 1, 2, 3}" using that by auto
      then show ?thesis unfolding c by (auto simp: in_view_def page_no_def table_page_def)
    qed
  qed
  show "faults (paging_init s) = []" using c(2,4) paging_init_console(2) [of s] unfolding pmm_inv_def by simp
  show "low_frames (paging_init s) = {1024..<32768}"
    unfolding paging_init_kheap c(5) by (auto simp: low_frames_def sample_kheap_free scan_limit_def)
  show "translate (paging_init s) va = (if 0xC0000000 \<le> va \<and> va < 0xC1000000 then Some (va - 0xC0000000) else None)"
    by (rule paging_init_translate [OF c(1)])
qed

definition sample_ready :: vmm_state where
  "sample_ready = paging_init (kheap_state.extend sample_kheap
     (vmm_state.fields (\<lambda>_. \<lparr>as_directory = 0, as_regions = None, as_count = 0\<rparr>) 0
       (replicate 256 (new_region 0 0 0 REGION_FREE)) 0))"

lemma sample_ready_ok:
  "map_ready sample_ready" "region_seq sample_ready sp []" "region_pool_used sample_ready = 0" "faults sample_ready = []"
  "low_frames sample_ready = {1024..<32768}"
  "translate sample_ready va = (if 0xC0000000 \<le> va \<and> va < 0xC1000000 then Some (va - 0xC0000000) else None)"
proof -
  let ?boot = "kheap_state.extend sample_kheap (vmm_state.fields (\<lambda>_. \<lparr>as_directory = 0, as_regions = None, as_count = 0\<rparr>) 0
       (replicate 256 (new_region 0 0 0 REGION_FREE)) 0)"
  have b: "kheap_state.truncate ?boot = sample_kheap" by (cases sample_kheap) (simp add: kheap_state.defs vmm_state.defs)
  note r = sample_kheap_ready [OF b, folded sample_ready_def]
  show "map_ready sample_ready" "faults sample_ready = []" "low_frames sample_ready = {1024..<32768}"
    "translate sample_ready va = (if 0xC0000000 \<le> va \<and> va < 0xC1000000 then Some (va - 0xC0000000) else None)"
    by (rule r)+
  have e: "mm_erase sample_ready = (mm_erase ?boot)\<lparr>current_page_directory := page_directory ?boot,
     cpu := (cpu ?boot)\<lparr>reg_cr3 := VIRT_TO_PHYS (page_directory ?boot)\<rparr>\<rparr>"
    by (simp add: sample_ready_def mm_erase_paging_init)
  have f: "f sample_ready = f ?boot" if "\<And>t. f (mm_erase t) = f t" "\<And>t d c. f (t\<lparr>current_page_directory := d, cpu := c\<rparr>) = f t"
    for f :: "vmm_state \<Rightarrow> 'b"
    using arg_cong [OF e, of f] that by simp
  have "region_pool sample_ready = region_pool ?boot" "region_pool_used sample_ready = region_pool_used ?boot" "spaces sample_ready = spaces ?boot"
    by (rule f; simp add: mm_erase_defs)+
  then show "region_seq sample_ready sp []" "region_pool_used sample_ready = 0"
    by (simp_all add: region_seq_def kheap_state.defs vmm_state.defs)
qed

lemma sample_can_map: "can_map sample_ready 0xC011A000 [] 0xD0000000 2" "frames_for sample_ready 0xD0000000 2 0"
proof -
  have p: "page_no 0xD0000000 = 851968" by (simp add: page_no_def)
  have out: "\<not> in_view y" if "in_pages 0xD0000000 2 y" for y using that by (simp add: in_view_def in_pages_def p)
  have "translate sample_ready y = None" if "in_pages 0xD0000000 2 y" for y
  proof -
    have "\<not> y < 0xC1000000"
    proof
      assume "y < 0xC1000000"
      then have "unat y div 4096 \<le> 3238002688 div 4096" by (intro div_le_mono) (simp add: word_less_nat_alt)
      then show False using that by (simp add: in_pages_def p) (simp add: page_no_def)
    qed
    then show ?thesis by (simp add: sample_ready_ok)
  qed
  then show "can_map sample_ready 0xC011A000 [] 0xD0000000 2"
    using out by (simp add: can_map_def sample_ready_ok map_range_def p space_regions_def)
  have "pd_index y = 832" if "page_no y = 851968 \<or> page_no y = 851969" for y
    using that by (auto simp: pd_index_def page_no_def u32_eq_iff unat_drop22)
  then have "missing sample_ready 0xD0000000 2 0 \<subseteq> {832}" by (force simp: missing_def p)
  then have "card (missing sample_ready 0xD0000000 2 0) \<le> card {832 :: u32}" by (intro card_mono) simp_all
  moreover have "{f \<in> {1024..<32768 :: nat}. f < 1030} = {1024..<1030}" by auto
  moreover have "translate sample_ready (PHYS_TO_VIRT (of_nat f * 4096)) = Some (of_nat f * 4096)" if "f < 1030" for f
    using view_frame [of f] that by (simp add: in_view_iff sample_ready_ok PHYS_TO_VIRT_def)
  ultimately show "frames_for sample_ready 0xD0000000 2 0"
    unfolding frames_for_def sample_ready_ok(5) by (auto intro!: exI [of _ 1030])
qed

section \<open>The gap search\<close>

text \<open>Above all regions the search returns its start, if there is room.\<close>

lemma gap_walk_above:
  assumes "rseg pool st ix None" and "\<And>i. i \<in> set ix \<Longrightarrow> unat (r_base (pool ! i)) + unat (r_size (pool ! i)) \<le> unat c"
    and "0 < sz" and "unat c + unat sz < 4294967296"
  shows "gap_walk pool sz c st = Some (if ix \<noteq> [] \<and> c + sz \<le> 0xFFFFF000 then Some c else None)"
  using assms(1,2)
proof (induction ix arbitrary: st)
  case Nil
  then show ?case by (simp add: gap_walk.simps)
next
  case (Cons i ix)
  have st: "st = Some i" and tail: "rseg pool (r_next (pool ! i)) ix None" using Cons.prems(1) by simp_all
  have e: "unat (r_base (pool ! i) + r_size (pool ! i)) \<le> unat c"
    using Cons.prems(2) [of i] u32_bound [of c] by (simp add: u32_add)
  then have cand: "gap_candidate c (pool ! i) = c" by (simp add: gap_candidate_def Let_def word_less_nat_alt)
  have ih: "gap_walk pool sz c (r_next (pool ! i)) = Some (if ix \<noteq> [] \<and> c + sz \<le> 0xFFFFF000 then Some c else None)"
    using Cons.prems by (intro Cons.IH) simp_all
  show ?case
  proof (cases ix)
    case Nil
    then show ?thesis using st tail cand ih by (simp add: gap_walk.simps [of pool sz c "Some i"] gap_limit_def)
  next
    case c2: (Cons j js)
    then have nx: "r_next (pool ! i) = Some j" using tail by simp
    have "unat (r_base (pool ! j)) \<le> unat c" using Cons.prems(2) [of j] c2 by simp
    then have "\<not> c + sz \<le> r_base (pool ! j)"
      using assms(3,4) by (simp add: word_le_nat_alt u32_add word_less_nat_alt)
    then show ?thesis using st cand ih nx c2 by (simp add: gap_walk.simps [of pool sz c "Some i"] gap_limit_def)
  qed
qed

lemma aligned_up: "page_aligned a \<Longrightarrow> page_align_up a = a"
proof -
  assume a: "page_aligned a"
  then obtain k where "unat a = 4096 * k" by (auto simp: mod_eq_0_iff_dvd)
  then have "(unat a + 4095) div 4096 * 4096 = unat a" by simp
  then show ?thesis using unat_page_align_up [of a] page_room [OF a] by (simp add: u32_eq_iff)
qed

lemma overlaps_at [simp]: "overlaps va sz (region_at pool i) = overlaps va sz (pool ! i)"
  by (simp add: overlaps_def)

section \<open>Properties\<close>

text \<open>
  C1. \<^verbatim>\<open>vmm_map_region\<close> maps a region completely or not at all. The region consists of \<open>n\<close> unmapped pages that overlap
  no region of the address space, outside of the window at 0xC0000000, which shows the page tables; either there are
  frames for the pages and for the tables they lack, and the window shows the frames that may become tables, or all
  the tables exist. On success each page lies on a frame of its own that was
  available and no longer is, reads as zero, no other page is translated differently, and the
  region is entered in the list. When the frames run out in the middle the call returns -1 with the
  translation, the available frames and the region list as before. With enough frames it succeeds. In no case there is a
  fault.
\<close>

theorem vmm_map_region_all_or_nothing:
  assumes "can_map s sp ix va n" and "has_tables s va n \<or> frames_for s va n 0"
    and "vmm_map_region sp va (4096 * of_nat n) fl ty s = (res, s')"
  shows "faults s' = faults s \<and> (frames_for s va n 0 \<longrightarrow> res = 0) \<and>
    (if res = 0 then
       \<exists>fs ix'. length fs = n \<and> distinct fs \<and> set fs \<subseteq> avail_frames s \<and> set fs \<inter> avail_frames s' = {}
         \<and> (\<forall>y. translate s' y = (if in_pages va n y then Some (fs ! (page_no y - page_no va) OR (y AND 0xFFF)) else translate s y))
         \<and> (\<forall>y. in_pages va n y \<longrightarrow> mem s' y = 0) \<and> region_seq s' sp ix'
         \<and> mset (space_regions s' ix') = add_mset (new_region va (4096 * of_nat n) fl ty) (mset (space_regions s ix))
     else res = -1 \<and> translate s' = translate s \<and> avail_frames s' = avail_frames s \<and> region_seq s' sp ix)"
  using assms(1,2)
proof (cases rule: map_region_cases [where fl = fl and ty = ty])
  case (ok fs T s1 s2 ix')
  have t: "kheap_state.truncate s2 = kheap_state.truncate s1" using ok(5) by (simp add: regions_only_def)
  note a = ready_above [OF t] and m = ok(3) [unfolded mapped_def ok(2)]
  have s': "s' = s2" "res = 0" using ok(1) assms(3) by auto
  have "mem s' y = 0" if "in_pages va n y" for y
    using that m a(5) assms(1) by (simp add: s' can_map_def map_range_def)
  then show ?thesis using s' ok(2,6,7) m a by (auto intro!: exI [of _ fs] exI [of _ ix'])
next
  case (full s2)
  have s': "s' = s2" "res = -1" using full(1) assms(3) by auto
  have "region_seq s' sp ix"
    using full(2) assms(1) regions_kept(1) [of s2 s] by (simp add: s' restored_def can_map_def)
  then show ?thesis using full by (auto simp: s' restored_def)
qed

theorem vmm_map_region_all_or_nothing_witness:
  "\<exists>s' fs. vmm_map_region 0xC011A000 0xD0000000 0x2000 3 REGION_USER_DATA sample_ready = (0, s') \<and> faults s' = []
     \<and> distinct fs \<and> length fs = 2 \<and> translate s' 0xD0001004 = Some (fs ! 1 OR 4) \<and> mem s' 0xD0001004 = 0"
proof -
  obtain res s' where run: "vmm_map_region 0xC011A000 0xD0000000 (4096 * of_nat 2) 3 REGION_USER_DATA sample_ready = (res, s')" by fastforce
  note t = vmm_map_region_all_or_nothing [OF sample_can_map(1) disjI2 [OF sample_can_map(2)] run]
  have res: "res = 0" "faults s' = []" using t sample_can_map(2) sample_ready_ok(4) by auto
  then obtain fs where fs: "length fs = 2" "distinct fs"
      "\<forall>y. translate s' y = (if in_pages 0xD0000000 2 y then Some (fs ! (page_no y - page_no 0xD0000000) OR (y AND 0xFFF)) else translate sample_ready y)"
      "\<forall>y. in_pages 0xD0000000 2 y \<longrightarrow> mem s' y = 0" using t by auto
  have "in_pages 0xD0000000 2 0xD0001004" "page_no 0xD0001004 - page_no 0xD0000000 = 1" by (simp_all add: in_pages_def page_no_def)
  then have "translate s' 0xD0001004 = Some (fs ! 1 OR 4)" "mem s' 0xD0001004 = 0" using fs(3,4) by simp_all
  then show ?thesis using run res fs(1,2) by auto
qed



text \<open>
  \<^verbatim>\<open>vmm_find_free_region\<close>, started at a page above all regions of a list that is not empty, returns this page when
  the size, rounded up to pages, fits below 0xFFFFF000, and 0 otherwise; the range it returns
  overlaps no region, so \<^verbatim>\<open>vmm_map_region\<close> does not refuse it.
\<close>

lemma vmm_find_free_region_above:
  assumes "region_seq s sp ix" and "sp \<noteq> 0" "ix \<noteq> []" and "page_aligned hint" "hint \<noteq> 0"
    and "\<forall>r \<in> set (space_regions s ix). unat (r_base r) + unat (r_size r) \<le> unat hint"
    and "0 < sz" "unat hint + unat sz + 4095 < 4294967296"
  shows "if hint + page_align_up sz \<le> 0xFFFFF000
    then vmm_find_free_region sp sz hint s = (hint, s) \<and> (\<forall>r \<in> set (space_regions s ix). \<not> overlaps hint (page_align_up sz) r)
    else fst (vmm_find_free_region sp sz hint s) = 0"
proof -
  have below: "unat (r_base (region_pool s ! i)) + unat (r_size (region_pool s ! i)) \<le> unat hint" if "i \<in> set ix" for i
    using assms(6) that by (auto simp: space_regions_def)
  have up: "unat (page_align_up sz) = (unat sz + 4095) div 4096 * 4096" using assms(8) by (intro unat_page_align_up) simp
  then have "unat sz \<le> unat (page_align_up sz)" "unat (page_align_up sz) \<le> unat sz + 4095" by linarith+
  then have "0 < page_align_up sz" "unat hint + unat (page_align_up sz) < 4294967296"
    using assms(7,8) by (auto simp: word_less_nat_alt)
  note walk = gap_walk_above [OF _ below this]
  have hint: "page_align_up hint = hint" using assms(4) by (rule aligned_up)
  have "gap_walk (region_pool s) (page_align_up sz) hint (as_regions (spaces s sp)) =
      Some (if ix \<noteq> [] \<and> hint + page_align_up sz \<le> 0xFFFFF000 then Some hint else None)"
    using assms(1) by (intro walk) (simp add: region_seq_def)
  moreover have "\<not> overlaps hint (page_align_up sz) r" if "r \<in> set (space_regions s ix)" for r
  proof -
    have "unat (r_base r) + unat (r_size r) \<le> unat hint" using assms(6) that by blast
    moreover have "unat (r_base r + r_size r) = unat (r_base r) + unat (r_size r)" using calculation u32_bound [of hint] by (simp add: u32_add)
    ultimately show ?thesis by (simp add: overlaps_def Let_def word_less_nat_alt)
  qed
  ultimately show ?thesis using assms(2,3,5) hint by (simp add: vmm_find_free_region_def Let_def)
qed

lemma sample_vmm_regions:
  obtains ix where "region_seq (vmm_init sample_vmm) 0xC011A000 ix" "space_regions (vmm_init sample_vmm) ix = kernel_regions 0xC011F000"
proof -
  have k: "kernel_space sample_vmm = 0xC011A000" "page_align_up (kernel_end_sym (sym sample_vmm)) = 0xC011F000"
    by (simp_all add: sample_vmm_ok sample_symbols_def page_align_up_def)
  have ks: "kernel_space sample_vmm \<noteq> 0" by (simp add: k)
  show thesis
    by (rule vmm_init_spec [OF sample_vmm_ok(3,4) heap_inv_term [OF sample_vmm_ok(1)] sample_vmm_ok(6) ks, of "0xC011F000"])
      (use that in \<open>simp_all add: k\<close>)
qed

lemma vmm_find_free_region_above_example:
  "vmm_find_free_region 0xC011A000 0x1800 0xD0000000 (vmm_init sample_vmm) = (0xD0000000, vmm_init sample_vmm)"
proof -
  obtain ix where ix: "region_seq (vmm_init sample_vmm) 0xC011A000 ix" "space_regions (vmm_init sample_vmm) ix = kernel_regions 0xC011F000"
    by (rule sample_vmm_regions)
  have "ix \<noteq> []" using ix(2) by (auto simp: space_regions_def kernel_regions_def)
  moreover have "\<forall>r \<in> set (space_regions (vmm_init sample_vmm) ix). unat (r_base r) + unat (r_size r) \<le> unat (0xD0000000 :: u32)"
    unfolding ix(2) by (simp add: kernel_regions_def new_region_def)
  ultimately show ?thesis using vmm_find_free_region_above [OF ix(1), of "0xD0000000" "0x1800"] by (simp add: page_align_up_def)
qed

text \<open>
  C40. Below the regions \<^verbatim>\<open>vmm_find_free_region\<close> is wrong. When the search starts below the first region, and the range
  reaches into it but not to the second one, the search compares only with the second one and
  returns the start, a range that \<^verbatim>\<open>vmm_map_region\<close> refuses as an overlap. The same happens in a gap that is
  too small.
\<close>

theorem vmm_find_free_region_overlaps:
  assumes "region_seq s sp (i # j # ks)" and "sp \<noteq> 0" and "page_aligned hint" "hint \<noteq> 0" and "page_aligned sz"
    and "hint < r_base (region_pool s ! i)" "r_base (region_pool s ! i) < hint + sz" "hint + sz \<le> r_base (region_pool s ! j)"
    and "r_base (region_pool s ! i) < r_base (region_pool s ! i) + r_size (region_pool s ! i)"
  shows "vmm_find_free_region sp sz hint s = (hint, s) \<and> overlaps hint sz (region_pool s ! i)
    \<and> fst (vmm_map_region sp hint sz fl ty s) = -1 \<and> console_erase (snd (vmm_map_region sp hint sz fl ty s)) = console_erase s"
proof -
  have seg: "as_regions (spaces s sp) = Some i" "r_next (region_pool s ! i) = Some j" "rseg (region_pool s) (Some i) (i # j # ks) None"
    using assms(1) by (simp_all add: region_seq_def)
  have al: "page_align_up hint = hint" "page_align_up sz = sz" by (rule aligned_up, rule assms(3), rule aligned_up, rule assms(5))
  have cand: "gap_candidate hint (region_pool s ! i) = hint" using assms(6) by (auto simp: gap_candidate_def Let_def)
  have "gap_walk (region_pool s) sz hint (Some i) = Some (Some hint)"
    using seg(2) cand assms(8) by (simp add: gap_walk.simps [of _ _ _ "Some i"] gap_limit_def)
  then have find: "vmm_find_free_region sp sz hint s = (hint, s)"
    using assms(2,4) seg(1) al by (simp add: vmm_find_free_region_def Let_def)
  have over: "overlaps hint sz (region_pool s ! i)" using assms(6,7,9) by (simp add: overlaps_def Let_def)
  then have "chain_find (region_pool s) (overlaps hint sz) (as_regions (spaces s sp)) = Some (Some i)"
    unfolding seg(1) using chain_find_spec [OF seg(3), of "overlaps hint sz"] by simp
  moreover have "hint AND 4095 = 0" "sz AND 4095 = 0" using assms(3,5) by (auto intro: page_words)
  ultimately show ?thesis using find over assms(2) by (simp add: vmm_map_region_def)
qed

theorem vmm_find_free_region_overlaps_witness:
  "vmm_find_free_region 0xC011A000 0x2000 0xC0000000 (vmm_init sample_vmm) = (0xC0000000, vmm_init sample_vmm)
   \<and> fst (vmm_map_region 0xC011A000 0xC0000000 0x2000 3 REGION_USER_DATA (vmm_init sample_vmm)) = -1"
proof -
  let ?s = "vmm_init sample_vmm"
  obtain ix where ix: "region_seq ?s 0xC011A000 ix" "space_regions ?s ix = kernel_regions 0xC011F000" by (rule sample_vmm_regions)
  obtain i j ks where ijk: "ix = i # j # ks" and ij: "region_at (region_pool ?s) i = new_region 0xC0001000 0xFF000 3 REGION_MMIO"
      "region_at (region_pool ?s) j = new_region 0xC0100000 (0xC011F000 - 0xC0100000) 7 REGION_KERNEL_CODE"
    using ix(2) by (auto simp: space_regions_def kernel_regions_def map_eq_Cons_conv)
  have "r_base (region_pool ?s ! i) = 0xC0001000" "r_size (region_pool ?s ! i) = 0xFF000" "r_base (region_pool ?s ! j) = 0xC0100000"
    using arg_cong [OF ij(1), of r_base] arg_cong [OF ij(1), of r_size] arg_cong [OF ij(2), of r_base] by (simp_all add: new_region_def)
  then show ?thesis
    using vmm_find_free_region_overlaps [OF ix(1) [unfolded ijk], of "0xC0000000" "0x2000" 3 REGION_USER_DATA] by simp
qed

end
