(* ===== verification/Kernel_Main.thy ===== *)
theory Kernel_Main
  imports Keyboard Vmm_Map
begin

text \<open>
  The entry point, \<^verbatim>\<open>kernel_main\<close> of \<^verbatim>\<open>kernel.c\<close>, and the dispatch of interrupts to the drivers. The
  threads that \<^verbatim>\<open>kernel_main\<close> starts are known by the addresses of their functions.
\<close>

type_synonym kernel_state = kbd_state

definition terminal_print_int :: "u32 \<Rightarrow> 'a term_state_scheme \<Rightarrow> 'a term_state_scheme" where
  "terminal_print_int num s =
     (if num = 0 then terminal_putchar CHR ''0'' s
      else case uint_fill 12 num [] of
             None \<Rightarrow> add_fault Out_Of_Bounds s
           | Some buffer \<Rightarrow> fold terminal_putchar (rev buffer) s)"

abbreviation (input) MULTIBOOT_MAGIC :: u32 where "MULTIBOOT_MAGIC \<equiv> 0x2BADB002"

text \<open>The branch of \<^verbatim>\<open>kernel_main\<close> for a kernel that a multiboot loader started.\<close>

definition boot_memory :: "u32 \<Rightarrow> u32 \<Rightarrow> 'a kbd_state_scheme \<Rightarrow> 'a kbd_state_scheme" where
  "boot_memory magic mbi s =
     (let s1 = kprintf ''Multiboot magic OK: 0x%x\<newline>'' [VInt magic] s;
          s2 = vmm_init (kheap_init (paging_init (pmm_init mbi s1)));
          s3 = process_init s2;
          s4 = snd (kthread_create (thread_a_sym (sym s3)) ''thread_a'' s3);
          s5 = snd (kthread_create (thread_b_sym (sym s4)) ''thread_b'' s4);
          s6 = scheduler_init s5;
          s7 = kprintf ''Heap used: %u KB, free: %u KB\<newline>'' [VInt (kheap_get_used s6 div 1024), VInt (kheap_get_free s6 div 1024)] s6
      in kprintf ''Free memory: %u KB\<newline>'' [VInt (pmm_get_free_memory s7 div 1024)] s7)"

definition kernel_main :: "u32 \<Rightarrow> u32 \<Rightarrow> 'a kbd_state_scheme \<Rightarrow> 'a kbd_state_scheme" where
  "kernel_main magic mbi s =
     (let s1 = serial_init (terminal_initialize s);
          s2 = serial_printf ''Serial port initialized\<newline>'' [] s1;
          s3 = serial_printf ''Timer ticks: %u\<newline>'' [VInt (timer_get_ticks s2)] s2;
          s4 = terminal_writestring ''GDT Initialized\<newline>'' (gdt_init (terminal_writestring ''Initalizing GDT\<newline>'' s3));
          s5 = terminal_writestring ''IDT Initialized\<newline>'' (idt_init (terminal_writestring ''Initalizing IDT\<newline>'' s4));
          s6 = terminal_writestring ''Keyboard Initialized\<newline>'' (keyboard_init (terminal_writestring ''Initializing Keyboard\<newline>'' s5));
          s7 = timer_init 100 (terminal_writestring ''Kernel initialization complete!\<newline>'' s6);
          s8 = kprintf ''Timer initialized at 100 Hz\<newline>'' [] s7;
          s9 = (if magic \<noteq> MULTIBOOT_MAGIC then kprintf ''ERROR: Invalid multiboot magic: 0x%x\<newline>'' [VInt magic] s8
                else boot_memory magic mbi s8);
          s10 = shell_init (kprintf ''Welcome to TupleOS!\<newline>'' [] s9)
      in hw_emit Hlt s10)"

text \<open>The registered handlers.\<close>

fun run_handler :: "handler \<Rightarrow> interrupt_frame \<Rightarrow> 'a kbd_state_scheme \<Rightarrow> 'a kbd_state_scheme" where
  "run_handler Timer_handler frame s = timer_handler frame s"
| "run_handler Keyboard_handler frame s = keyboard_handler frame s"
| "run_handler Page_fault_handler frame s = page_fault_handler frame s"

text \<open>The loops of the two threads, run for a number of rounds; the delay loop counts to 500000.\<close>

function busy_wait :: "nat \<Rightarrow> nat" where
  "busy_wait i = (if i < 500000 then busy_wait (i + 1) else i)"
  by pat_completeness auto

termination busy_wait
  by (relation "measure (\<lambda>i. 500000 - i)") auto

declare busy_wait.simps [simp del]

primrec thread_a :: "nat \<Rightarrow> 'a kbd_state_scheme \<Rightarrow> 'a kbd_state_scheme" where
  "thread_a 0 s = s"
| "thread_a (Suc n) s = (let s1 = kprintf ''A'' [] s; i = busy_wait 0 in thread_a n s1)"

primrec thread_b :: "nat \<Rightarrow> 'a kbd_state_scheme \<Rightarrow> 'a kbd_state_scheme" where
  "thread_b 0 s = s"
| "thread_b (Suc n) s = (let s1 = kprintf ''B'' [] s; i = busy_wait 0 in thread_b n s1)"

section \<open>What the handlers leave alone\<close>

text \<open>The history of the ports.\<close>

definition hw_erase :: "'a hw_state_scheme \<Rightarrow> 'a hw_state_scheme" where
  "hw_erase s = s\<lparr>hw_trace := [], port_reads := (\<lambda>_. 0), faults := []\<rparr>"

lemma hw_erase_upd [simp]:
  "hw_erase (hw_emit e s) = hw_erase s" "hw_erase (outb p v s) = hw_erase s" "hw_erase (add_fault f s) = hw_erase s"
  "hw_erase (snd (inb p s)) = hw_erase s"
  by (simp_all add: hw_erase_def hw_defs Let_def)

lemma hw_erase_wait: "serial_wait s = Some s' \<Longrightarrow> hw_erase s' = hw_erase s"
proof (induction rule: serial_wait.raw_induct [rotated, consumes 1, case_names step])
  case (step wait s s')
  have "hw_erase (snd (serial_is_transmit_empty s)) = hw_erase s"
    by (simp add: serial_is_transmit_empty_def split_beta)
  then show ?case using step by (auto simp: split_beta split: if_splits)
qed

lemma hw_erase_putchar [simp]: "hw_erase (serial_putchar c s) = hw_erase s"
  by (auto simp: serial_putchar_def hw_erase_wait split: option.split)

lemma hw_erase_fold [simp]: "hw_erase (fold serial_putchar cs s) = hw_erase s"
  by (induction cs arbitrary: s) simp_all

lemma hw_erase_serial [simp]:
  "hw_erase (serial_writestring str s) = hw_erase s" "hw_erase (serial_print_uint n s) = hw_erase s"
  "hw_erase (serial_print_int n s) = hw_erase s" "hw_erase (serial_print_hex n s) = hw_erase s"
proof -
  show "hw_erase (serial_writestring str s) = hw_erase s" by (induction str s rule: serial_writestring.induct) auto
  show u: "hw_erase (serial_print_uint n s) = hw_erase s" for n and s :: "'a hw_state_scheme"
    by (simp add: serial_print_uint_def split: option.split)
  show "hw_erase (serial_print_hex n s) = hw_erase s" by (simp add: serial_print_hex_def split: option.split)
  show "hw_erase (serial_print_int n s) = hw_erase s" by (simp add: serial_print_int_def Let_def u)
qed

lemma hw_erase_printf [simp]: "hw_erase (serial_printf fmt args s) = hw_erase s"
  by (induction fmt args s rule: serial_printf.induct) (auto split: list.splits va_arg.splits)

text \<open>Two states with the same processes.\<close>

definition proc_same :: "'a proc_state_scheme \<Rightarrow> 'a proc_state_scheme \<Rightarrow> bool" where
  "proc_same s s' \<longleftrightarrow> process_table s' = process_table s \<and> next_pid s' = next_pid s \<and> current_process s' = current_process s
     \<and> scheduler_enabled s' = scheduler_enabled s"

lemma proc_same_trans: "proc_same s t \<Longrightarrow> proc_same t u \<Longrightarrow> proc_same s u"
  by (simp add: proc_same_def)

lemma proc_same_console: "console_erase s' = console_erase s \<Longrightarrow> proc_same s s'"
  unfolding proc_same_def by (intro conjI; erule console_field; simp add: console_erase_def)

lemma proc_same_hw:
  assumes "hw_erase s' = hw_erase s"
  shows "proc_same s s'"
  using arg_cong [OF assms, of process_table] arg_cong [OF assms, of next_pid] arg_cong [OF assms, of current_process]
    arg_cong [OF assms, of scheduler_enabled] by (simp add: proc_same_def hw_erase_def)

lemma proc_same_shell: "shell_erase s' = shell_erase s \<Longrightarrow> proc_same s s'"
  unfolding proc_same_def by (intro conjI; erule shell_erase_field; simp add: shell_erase_def console_erase_def)

lemma proc_same_inv: "proc_same s s' \<Longrightarrow> proc_inv s \<Longrightarrow> proc_inv s'"
  by (auto simp: proc_same_def intro: proc_inv_vars)

lemma proc_same_keyboard: "proc_same s (keyboard_handler frame s)"
proof -
  obtain b where b: "port_in s 0x60 (port_reads s 0x60) = b" by simp
  have e: "shell_erase (fold shell_handle_key cs t) = shell_erase t" for cs and t :: "'a kbd_state_scheme"
    by (induction cs arbitrary: t) simp_all
  have "proc_same s (snd (inb 0x60 s))" by (rule proc_same_hw) simp
  moreover have "proc_same (snd (inb 0x60 s)) (fold shell_handle_key (code_chars b (shift_held s)) (snd (inb 0x60 s)))"
    by (rule proc_same_shell [OF e])
  ultimately show ?thesis unfolding keyboard_handler_eq [OF b] by (simp add: proc_same_def)
qed

lemma proc_same_page_fault: "proc_same s (page_fault_handler frame s)"
proof -
  have k: "proc_same t (kprintf fmt args t)" for fmt args and t :: "'a proc_state_scheme"
    by (rule proc_same_console) simp
  have ser: "proc_same t (serial_printf fmt args t)" for fmt args and t :: "'a proc_state_scheme" by (rule proc_same_hw) simp
  have d: "proc_same t (describe_fault fo pr wr us t)" for fo pr wr us and t :: "'a proc_state_scheme"
    by (rule proc_same_console) (simp add: describe_fault_def Let_def split: option.split)
  have f: "proc_same t (add_fault f t)" "proc_same t (hw_emit e t)" for f e and t :: "'a proc_state_scheme"
    by (rule proc_same_hw; simp)+
  have m: "proc_same t (if b then (case w of None \<Rightarrow> add_fault Diverges t | Some found \<Rightarrow> describe_fault found p q r t) else t)"
    for b w p q r and t :: "'a proc_state_scheme"
    using d f by (auto simp: proc_same_def split: option.split)
  show ?thesis unfolding page_fault_handler_def Let_def
    by (rule proc_same_trans [OF k proc_same_trans [OF k proc_same_trans [OF k proc_same_trans [OF k proc_same_trans [OF ser
        proc_same_trans [OF m proc_same_trans [OF k proc_same_trans [OF f(2) f(2)]]]]]]]])
qed

section \<open>Interrupts\<close>

lemma proc_inv_timer:
  assumes "proc_inv s"
  shows "proc_inv (timer_handler frame s)"
proof -
  have "proc_same s (outb 0x20 0x20 (s\<lparr>ticks := ticks s + 1\<rparr>))"
    by (rule proc_same_trans [OF _ proc_same_hw]) (simp_all add: proc_same_def)
  from proc_inv_schedule(1) [OF proc_same_inv [OF this assms]] show ?thesis by (simp add: timer_handler_def Let_def)
qed

lemma proc_inv_interrupt:
  assumes "proc_inv s"
  shows "proc_inv (interrupt_handler run_handler frame s)"
proof -
  have h: "proc_inv (run_handler h frame s)" for h
    using assms by (cases h) (auto intro: proc_inv_timer proc_same_inv [OF proc_same_keyboard] proc_same_inv [OF proc_same_page_fault])
  have e: "proc_same t (send_eoi n t)" for n and t :: "'a kbd_state_scheme"
    by (rule proc_same_hw) (simp add: send_eoi_def)
  have "proc_same s (add_fault Out_Of_Bounds s)" by (rule proc_same_hw) simp
  then show ?thesis unfolding interrupt_handler_def Let_def
    using h assms by (intro proc_same_inv [OF e]) (auto split: option.split intro: proc_same_inv)
qed

section \<open>Executions\<close>

lemma proc_inv_boot:
  "proc_inv (boot_memory magic mbi s)"
proof -
  obtain s2 where s2: "s2 = vmm_init (kheap_init (paging_init (pmm_init mbi (kprintf ''Multiboot magic OK: 0x%x\<newline>'' [VInt magic] s))))" by simp
  let ?s3 = "process_init s2"
  let ?s4 = "snd (kthread_create (thread_a_sym (sym ?s3)) ''thread_a'' ?s3)"
  let ?s5 = "snd (kthread_create (thread_b_sym (sym ?s4)) ''thread_b'' ?s4)"
  let ?s6 = "scheduler_init ?s5"
  have "proc_run 0 ?s3" by (rule run_init)
  then have "proc_run (Suc 0) ?s4" by (rule run_step) (rule step_create)
  then have "proc_run (Suc (Suc 0)) ?s5" by (rule run_step) (rule step_create)
  then have "proc_run (Suc (Suc (Suc 0))) ?s6" by (rule run_step) (rule step_start)
  then have "proc_inv ?s6" using proc_run_inv by fastforce
  moreover have "proc_same ?s6 (boot_memory magic mbi s)"
    unfolding boot_memory_def Let_def s2 by (rule proc_same_console) simp
  ultimately show ?thesis by (rule proc_same_inv [rotated])
qed

text \<open>The runs of a kernel that a multiboot loader started: \<^verbatim>\<open>kernel_main\<close>, then any interrupts, in any order, while
  the threads of the kernel run.\<close>

inductive kernel_run :: "'a kbd_state_scheme \<Rightarrow> bool" where
  run_boot: "kernel_run (kernel_main MULTIBOOT_MAGIC mbi s)"
| run_interrupt: "kernel_run s \<Longrightarrow> kernel_run (interrupt_handler run_handler frame s)"
| run_thread_a: "kernel_run s \<Longrightarrow> kernel_run (thread_a n s)"
| run_thread_b: "kernel_run s \<Longrightarrow> kernel_run (thread_b n s)"

lemma proc_same_threads: "proc_same s (thread_a n s)" "proc_same s (thread_b n s)"
proof -
  have k: "proc_same s (kprintf fmt args s)" for fmt args and s :: "'a kbd_state_scheme" by (rule proc_same_console) simp
  show "proc_same s (thread_a n s)"
  proof (induction n arbitrary: s)
    case (Suc n)
    show ?case using proc_same_trans [OF k [of s "''A''" "[]"] Suc] by (simp add: Let_def)
  qed (simp add: proc_same_def)
  show "proc_same s (thread_b n s)"
  proof (induction n arbitrary: s)
    case (Suc n)
    show ?case using proc_same_trans [OF k [of s "''B''" "[]"] Suc] by (simp add: Let_def)
  qed (simp add: proc_same_def)
qed

lemma kernel_run_inv: "kernel_run s \<Longrightarrow> proc_inv s"
proof (induction rule: kernel_run.induct)
  case (run_boot mbi s)
  have sh: "proc_same t (shell_init t)" "proc_same t (hw_emit e t)" "proc_same t (kprintf fmt args t)"
    for t :: "'a kbd_state_scheme" and e fmt args
    by (rule proc_same_shell, simp, rule proc_same_hw, simp, rule proc_same_console, simp)
  show ?case unfolding kernel_main_def Let_def
    by (simp only: simp_thms if_False) (rule proc_same_inv [OF proc_same_trans [OF sh(3) proc_same_trans [OF sh(1) sh(2)]] proc_inv_boot])
qed (auto intro: proc_inv_interrupt proc_same_inv [OF proc_same_threads(1)] proc_same_inv [OF proc_same_threads(2)])

end
