(* ===== verification/Boot.thy ===== *)
theory Boot
  imports Kernel_Main
begin

text \<open>
  What \<^verbatim>\<open>kernel_main\<close> establishes. The initialisations are composed in the order of the code, each on the state the
  previous ones leave: frames, page tables, heap, regions, process table, two threads, scheduler.
\<close>

section \<open>What the frame manager leaves alone\<close>

definition boot_erase :: "'a pmm_state_scheme \<Rightarrow> 'a pmm_state_scheme" where
  "boot_erase s = (pmm_erase s)\<lparr>total_frames := 0\<rparr>"

lemma boot_erase_upd [simp]:
  "boot_erase (s\<lparr>total_frames := n\<rparr>) = boot_erase s" "boot_erase (s\<lparr>frame_bitmap := b\<rparr>) = boot_erase s"
  "boot_erase (add_fault f s) = boot_erase s"
  by (simp_all add: boot_erase_def pmm_erase_def console_erase_def add_fault_def)

lemma boot_erase_pmm: "pmm_erase s' = pmm_erase s \<Longrightarrow> boot_erase s' = boot_erase s"
  by (simp add: boot_erase_def)

lemma boot_erase_ops [simp]: "boot_erase (kprintf fmt args s) = boot_erase s" "boot_erase (bitmap_clear f s) = boot_erase s"
  by (rule boot_erase_pmm; simp)+

lemma boot_erase_release [simp]: "boot_erase (pmm_release ke f s) = boot_erase s"
  by (simp add: pmm_release_def Let_def)

lemma boot_erase_region [simp]: "boot_erase (pmm_add_region ke base len s) = boot_erase s"
proof -
  have "boot_erase (fold (pmm_release ke) fs t) = boot_erase t" for fs and t :: "'a pmm_state_scheme"
    by (induction fs arbitrary: t) simp_all
  then show ?thesis by (simp add: pmm_add_region_def Let_def)
qed

lemma boot_erase_walk [simp]: "boot_erase (mmap_walk n ke p e s) = boot_erase s"
  by (induction n ke p e s rule: mmap_walk.induct) (auto simp: Let_def)

lemma boot_erase_init [simp]: "boot_erase (pmm_init mbi s) = boot_erase s"
  by (simp add: pmm_init_def Let_def)

lemma boot_erase_field:
  assumes "boot_erase s' = boot_erase s" and "\<And>t. f (boot_erase t) = f t"
  shows "f s' = f s"
  using arg_cong [OF assms(1), of f] assms(2) by simp

section \<open>Writing into a block\<close>

lemma thread_frame_other:
  assumes "\<not> in_range (sp - 24) 24 y"
  shows "thread_frame sp tr entry m y = m y"
proof -
  have "\<not> in_range (sp - d) 4 y" if "d \<in> {4, 8, 12, 16, 20, 24}" for d
  proof
    assume r: "in_range (sp - d) 4 y"
    have d: "unat (24 - d) \<le> 20" "y - (sp - 24) = (y - (sp - d)) + (24 - d)" using that by auto
    have "unat (a + b) < 24" if "unat a < 4" "unat b \<le> 20" for a b :: u32 using that by (simp add: u32_add)
    then have "unat (y - (sp - 24)) < 24" unfolding d(2) using r d(1) unfolding in_range_def by blast
    then show False using assms by (simp add: in_range_def)
  qed
  then show ?thesis by (simp add: thread_frame_def Let_def store32_byte_other)
qed

lemma heap_payload_write:
  assumes ok: "heap_ok s bs" and w: "heap_window s heap_lim" and q: "(q, k) \<in> allocs heap_base bs"
    and same: "\<And>y. unat y < q \<or> q + k \<le> unat y \<Longrightarrow> m' y = mem s y"
  shows "heap_ok (s\<lparr>mem := m'\<rparr>) bs" "heap_window (s\<lparr>mem := m'\<rparr>) heap_lim"
proof -
  note h = heap_okD [OF ok]
  have r: "heap_base + 12 \<le> q" "q + k \<le> unat (heap_end s)" using allocs_range [OF q] h(6) by auto
  have "m' (of_nat x) = mem s (of_nat x)" if "x \<in> header_bytes heap_base bs" for x
  proof -
    have "x < 4294967296" using that header_bytes_range [of heap_base bs] h(6) u32_bound [of "heap_end s"] by auto
    then have u: "unat (of_nat x :: u32) = x" by (rule u32_of_nat)
    have "x \<notin> {q..<q + k}" using allocs_headers [OF q] that by auto
    then show ?thesis by (intro same) (auto simp: u)
  qed
  from block_seg_headers [OF h(4) this] show "heap_ok (s\<lparr>mem := m'\<rparr>) bs" using ok by (simp add: heap_ok_def)
  show "heap_window (s\<lparr>mem := m'\<rparr>) heap_lim"
  proof (rule heap_window_update [OF w])
    show "mem (s\<lparr>mem := m'\<rparr>) y = mem s y" if "\<not> in_window heap_lim y" for y
      using that r w same [of y] by (auto simp: in_window_def heap_window_def)
    show "pmm_inv (s\<lparr>mem := m'\<rparr>)" using w paging_inv_parts(1) by (auto simp: heap_window_def)
  qed (use w in \<open>auto simp: heap_window_def\<close>)
qed

section \<open>Creating a thread\<close>

text \<open>A stack from the first free block that is large enough, as on a heap that has not been fragmented.\<close>

lemma stack_alloc:
  assumes ok: "heap_ok s bs" and w: "heap_window s heap_lim" and room: "unat (heap_end s) + 20480 \<le> heap_lim"
    and fit: "first_fit heap_base 12288 bs = Some (p, bs')"
  obtains stack s5 k where "kmalloc_aligned 8192 s = (stack, s5)" "heap_ok s5 bs'" "heap_window s5 heap_lim" "faults s5 = faults s"
    "stack \<noteq> 0" "(p, k) \<in> allocs heap_base bs'" "p \<le> unat stack" "unat stack + 8192 \<le> p + k"
proof -
  obtain ptr s5 where km: "kmalloc 12288 s = (ptr, s5)" by fastforce
  have "unat ptr = p \<and> heap_step s bs s5 bs' heap_lim"
    using kmalloc_refines [OF ok w _ _ km] room fit by (auto simp: alloc_blocks_def split: if_splits)
  then have ptr: "unat ptr = p" and s5: "heap_ok s5 bs'" "heap_window s5 heap_lim" "faults s5 = faults s" by (auto simp: heap_step_def)
  have "alloc_blocks 12288 bs p bs'" using fit by (simp add: alloc_blocks_def)
  then obtain k where k: "12288 \<le> k" "allocs heap_base bs' = insert (p, k) (allocs heap_base bs)"
    by (rule alloc_blocks_effect [OF _ heap_okD(1) [OF ok]])
  have in': "(p, k) \<in> allocs heap_base bs'" using k(2) by simp
  have r: "heap_base + 12 \<le> p" "p + k \<le> unat (heap_end s5)" using allocs_range [OF in'] heap_okD(6) [OF s5(1)] by auto
  have "unat ptr + 4095 < 4294967296" using r k(1) ptr u32_bound [of "heap_end s5"] by simp
  then have up: "unat (page_align_up ptr) = (p + 4095) div 4096 * 4096" using unat_page_align_up [of ptr] ptr by simp
  then have b: "p \<le> unat (page_align_up ptr)" "unat (page_align_up ptr) + 8192 \<le> p + k" using k(1) by linarith+
  have nz: "ptr \<noteq> 0" "page_align_up ptr \<noteq> 0" using ptr r(1) b(1) by auto
  have "kmalloc_aligned 8192 s = (page_align_up ptr, s5)" using km nz(1) by (simp add: kmalloc_aligned_def)
  then show thesis using s5 nz(2) in' b by (rule that)
qed

lemma kthread_create_heap:
  fixes s :: "'a proc_state_scheme"
  assumes len: "length (process_table s) = 64" and fs: "free_slot (process_table s) = Some sl"
    and ok: "heap_ok s bs" and w: "heap_window s heap_lim" and room: "unat (heap_end s) + 20480 \<le> heap_lim"
    and fit: "first_fit heap_base 12288 bs = Some (p, bs')"
  obtains s' where "kthread_create entry nm s = (Some sl, s')" "heap_ok s' bs'" "heap_window s' heap_lim" "faults s' = faults s"
    "sym s' = sym s" "spaces s' = spaces s" "region_pool s' = region_pool s" "region_pool_used s' = region_pool_used s"
    "handlers s' = handlers s" "current_space s' = current_space s"
proof -
  obtain stack s5 k where st: "kmalloc_aligned 8192 (claim_slot sl s) = (stack, s5)" "heap_ok s5 bs'" "heap_window s5 heap_lim"
    "faults s5 = faults (claim_slot sl s)" "stack \<noteq> 0" "(p, k) \<in> allocs heap_base bs'" "p \<le> unat stack" "unat stack + 8192 \<le> p + k"
    by (rule stack_alloc [OF _ _ _ fit, of "claim_slot sl s"]) (use ok w room in simp_all)
  have "heap_inv s5" using st(2,3) by (auto simp: heap_inv_def)
  with len fs st(1,5) obtain s1 where pa: "process_alloc s = (Some sl, s1)" "heap_inv s1" "faults s1 = faults s5"
    "kernel_stack (proc_at s1 sl) = stack" "sym s1 = sym s" "length (process_table s1) = 64" "heap_ok s1 = heap_ok s5"
    and v: "spaces s1 = spaces s" "region_pool s1 = region_pool s" "region_pool_used s1 = region_pool_used s"
      "handlers s1 = handlers s" "current_space s1 = current_space s"
    by (rule process_alloc_some)
  have sl: "sl < 64" using fs by (simp add: free_slot_iff)
  define s4 where "s4 = upd_proc sl (\<lambda>p. p\<lparr>address_space := vmm_get_kernel_space s1\<rparr>)
     (upd_proc sl (\<lambda>p. p\<lparr>p_directory := paging_get_directory s1\<rparr>) (upd_proc sl (\<lambda>p. p\<lparr>pname := copy_name (pname p) nm 32\<rparr>) s1))"
  have h4: "heap_ok s4 bs'" "heap_window s4 heap_lim" "faults s4 = faults s" "kernel_stack (proc_at s4 sl) = stack" "mem s4 = mem s1" "sym s4 = sym s"
    using pa st(2,4) sl by (simp_all add: s4_def heap_inv_def)
  let ?m = "thread_frame (stack + 8192) (kthread_trampoline_sym (sym s)) entry (mem s1)"
  have "?m y = mem s4 y" if "unat y < p \<or> p + k \<le> unat y" for y
    unfolding h4(5)
  proof (rule thread_frame_other)
    have "p + k \<le> unat (heap_end s5)" using allocs_range [OF st(6)] heap_okD(6) [OF st(2)] by auto
    then have le: "unat stack + 8192 < 4294967296" using st(8) u32_bound [of "heap_end s5"] by linarith
    then have u: "unat (stack + 8168) = unat stack + 8168" by (simp add: u32_add)
    have "\<not> in_range (stack + 8168) 24 y" using in_range_iff [of "stack + 8168" 24 y] u le that st(7,8) by linarith
    moreover have "stack + 8192 - 24 = stack + 8168" by simp
    ultimately show "\<not> in_range (stack + 8192 - 24) 24 y" by metis
  qed
  note w = heap_payload_write [OF h4(1,2) st(6) this]
  define s6 where "s6 = upd_proc sl (\<lambda>p. p\<lparr>kernel_esp := stack + 8192 - 24\<rparr>) (s4\<lparr>mem := ?m\<rparr>)"
  have h6: "heap_ok s6 bs'" "heap_window s6 heap_lim" "faults s6 = faults s" using w h4(3) by (simp_all add: s6_def)
  let ?f = "''[KTHREAD] Created '%s' (PID %u, entry @ 0x%x)\<newline>''"
  let ?a = "[VStr (pname (proc_at s6 sl)), VInt (pid (proc_at s6 sl)), VInt entry]"
  have run: "kthread_create entry nm s = (Some sl, kprintf ?f ?a s6)"
    unfolding kthread_create_def pa(1) using h4(4-6) unfolding s6_def s4_def by (simp add: Let_def vmm_get_kernel_space_def paging_get_directory_def)
  have "kprintf_ok ?f ?a" by simp
  from heap_window_kprintf [OF h6(2) this] have k: "heap_window (kprintf ?f ?a s6) heap_lim" "faults (kprintf ?f ?a s6) = faults s"
    using h6(3) by simp_all
  show thesis
    by (rule that [OF run heap_ok_kprintf [OF h6(1)] k]) (simp_all add: s6_def s4_def v pa(5) upd_proc_def)
qed

section \<open>The image and the memory map\<close>

text \<open>The static data of the kernel as the loader leaves it, and the layout: the page directory and the page tables are
  part of the image, which ends below the heap.\<close>

definition kernel_image :: "'a vmm_state_scheme \<Rightarrow> bool" where
  "kernel_image s \<longleftrightarrow> length (frame_bitmap s) = 4098 \<and> total_frames s = 0 \<and> used_frames s = 0 \<and> total_allocated s = 0
     \<and> length (region_pool s) = 256 \<and> region_pool_used s = 0 \<and> length (handlers s) = 256 \<and> kernel_space s \<noteq> 0 \<and> tables_placed s
     \<and> 0xC0100000 < page_align_up (kernel_end_sym (sym s)) \<and> page_align_up (kernel_end_sym (sym s)) < 0xC0400000
     \<and> (\<forall>p \<in> set (page_directory s # map (table_page (page_tables_sym (sym s))) [0..<4]).
          0xC0000000 \<le> p \<and> p < page_align_up (kernel_end_sym (sym s)))"

text \<open>A memory map the frame manager can use, with 1 MB among the frames it can find.\<close>

definition usable_map :: "u32 \<Rightarrow> mmap_entry list \<Rightarrow> bool" where
  "usable_map kernel_end es \<longleftrightarrow> (\<forall>e \<in> set es. entry_ok e) \<and> sorted_wrt (\<lambda>e e'. entry_frames e \<inter> entry_frames e' = {}) es
     \<and> 256 \<le> card {f \<in> usable_frames kernel_end es. f < 8 * (card (usable_frames kernel_end es) div 8)}"

definition boot_map :: "u32 \<Rightarrow> 'a pmm_state_scheme \<Rightarrow> mmap_entry list \<Rightarrow> bool" where
  "boot_map mbi s es \<longleftrightarrow> mbi_flags (mem s) mbi AND MULTIBOOT_FLAG_MMAP \<noteq> 0
     \<and> mmap_at (mem s) (mbi_mmap_addr (mem s) mbi) (mbi_mmap_addr (mem s) mbi + mbi_mmap_length (mem s) mbi) es
     \<and> usable_map (kernel_end_phys s) es"

lemma kernel_end_phys_eq:
  fixes s :: "'a pmm_state_scheme"
  assumes "0xC0100000 < page_align_up (kernel_end_sym (sym s))"
  shows "unat (page_align_up (kernel_end_sym (sym s))) = unat (kernel_end_phys s) + 3221225472"
proof -
  define e where "e = kernel_end_sym (sym s)"
  have big: "3222274048 < unat (page_align_up e)" using assms by (simp add: e_def u32_less_iff)
  have nw: "unat e + 4095 < 4294967296"
  proof (rule ccontr)
    assume "\<not> unat e + 4095 < 4294967296"
    then have "unat (e + 4095) < 4096" using u32_bound [of e] by (simp add: u32_add)
    then have "unat (page_align_up e) < 4096" unfolding page_align_up_eq by (simp add: unat_page_base)
    then show False using big by simp
  qed
  note k = unat_page_align_up [OF nw]
  have low: "3221225472 \<le> unat e" using big k by linarith
  then have ph: "unat (e - 0xC0000000) = unat e - 3221225472" by (simp add: u32_sub)
  then have "unat (kernel_end_phys s) = (unat e - 3221225472 + 4095) div 4096 * 4096"
    unfolding kernel_end_phys_def e_def [symmetric] using nw by (subst unat_page_align_up) simp_all
  moreover have "(unat e + 4095) div 4096 = (unat e - 3221225472 + 4095) div 4096 + 786432"
    using low div_mult_self1 [of 4096 "unat e - 3221225472 + 4095" 786432] by simp
  ultimately show ?thesis using k by (simp add: e_def)
qed

lemma boot_frames:
  fixes s :: "'a vmm_state_scheme"
  assumes img: "kernel_image s" and map: "boot_map mbi s es" and t: "term_inv s"
  defines "s1 \<equiv> pmm_init mbi s"
  shows "pmm_inv s1" "faults s1 = faults s" "tables_placed s1" "tables_reserved s1" "image_low s1" "256 \<le> card (low_frames s1)"
    "sym s1 = sym s"
proof -
  let ?U = "usable_frames (kernel_end_phys s) es" and ?k = "page_align_up (kernel_end_sym (sym s))"
  note m = map [unfolded boot_map_def usable_map_def] and i = img [unfolded kernel_image_def]
  have p: "free_frames s1 = ?U" "unat (total_frames s1) = card ?U" "pmm_inv s1" "faults s1 = faults s"
    using pmm_init_frames [of s mbi es] m i t by (simp_all add: s1_def)
  then show "pmm_inv s1" "faults s1 = faults s" by simp_all
  show sym: "sym s1 = sym s"
    unfolding s1_def by (rule boot_erase_field [OF boot_erase_init]) (simp add: boot_erase_def pmm_erase_def console_erase_def)
  show "tables_placed s1" using i sym by (simp add: tables_placed_def)
  show "256 \<le> card (low_frames s1)"
    using m p(1,2) by (simp add: low_frames_def scan_limit_def free_frames_def conj_commute set_eq_iff)
  have low: "a < 0xC0400000 \<and> VIRT_TO_PHYS a \<notin> avail_frames s1" if "0xC0000000 \<le> a" "a < ?k" for a
  proof -
    have u: "unat (VIRT_TO_PHYS a) = unat a - 3221225472" using that by (simp add: VIRT_TO_PHYS_def u32_sub u32_le_iff)
    have "unat (VIRT_TO_PHYS a) < unat (kernel_end_phys s)"
      using kernel_end_phys_eq [of s] i that u by (simp add: u32_less_iff u32_le_iff)
    moreover have "unat (kernel_end_phys s) \<le> f * 4096" if "f \<in> ?U" for f using that by (simp add: usable_frames_def released_def)
    moreover have "f < 32784" if "f \<in> ?U" for f using that p(1,3) frame_free_bound by (auto simp: free_frames_def pmm_inv_def)
    ultimately have "VIRT_TO_PHYS a \<noteq> of_nat f * 4096" if "f \<in> ?U" for f using that frame_addr(1) [of f] by fastforce
    then show ?thesis using p(1) i that by (auto simp: avail_frames_def)
  qed
  have "t < 4 \<Longrightarrow> t \<in> set [0..<4]" for t by simp
  then show "tables_reserved s1" "image_low s1" using low i sym by (auto simp: tables_reserved_def image_low_def)
qed

section \<open>The memory managers\<close>

lemma boot_vmm:
  fixes s :: "'a vmm_state_scheme"
  assumes img: "kernel_image s" and map: "boot_map mbi s es" and t: "term_inv s"
  defines "s3 \<equiv> vmm_init (kheap_init (paging_init (pmm_init mbi s)))"
  obtains ix where "heap_ok s3 [(1048564, True)]" "heap_window s3 heap_lim" "faults s3 = faults s" "sym s3 = sym s"
    "region_seq s3 (kernel_space s) ix" "space_regions s3 ix = kernel_regions (page_align_up (kernel_end_sym (sym s)))"
    "current_space s3 = kernel_space s" "handlers s3 = (handlers s)[14 := Some Page_fault_handler]"
proof -
  define s1 where "s1 = pmm_init mbi s"
  define s2 where "s2 = kheap_init (paging_init s1)"
  note i = img [unfolded kernel_image_def] and f = boot_frames [OF img map t, folded s1_def]
  have keep1: "region_pool s1 = region_pool s" "region_pool_used s1 = region_pool_used s" "handlers s1 = handlers s"
    "total_allocated s1 = total_allocated s"
    unfolding s1_def by (rule boot_erase_field [OF boot_erase_init]; simp add: boot_erase_def pmm_erase_def console_erase_def)+
  have "mm_erase s2 = (mm_erase s1)\<lparr>current_page_directory := page_directory s1, cpu := (cpu s1)\<lparr>reg_cr3 := VIRT_TO_PHYS (page_directory s1)\<rparr>\<rparr>"
    unfolding s2_def mm_erase_kheap_init by (rule mm_erase_paging_init)
  note e = this [THEN arg_cong [of _ _ region_pool]] this [THEN arg_cong [of _ _ region_pool_used]] this [THEN arg_cong [of _ _ handlers]]
    this [THEN arg_cong [of _ _ sym]]
  have keep2: "region_pool s2 = region_pool s" "region_pool_used s2 = region_pool_used s" "handlers s2 = handlers s" "sym s2 = sym s"
    using e keep1 f(7) by (simp_all add: mm_erase_defs)
  have frames: "256 \<le> card (low_frames (paging_init s1))" "total_allocated (paging_init s1) = 0"
    using f(6) keep1 i paging_init_kheap(1) [of s1] by (simp_all add: paging_init_kheap(2) kheap_vars_def)
  have h: "heap_ok s2 [(1048564, True)]" "heap_window s2 heap_lim" "faults s2 = faults (paging_init s1)"
    by (rule kheap_init_spec [OF paging_init_window [OF f(3,1,4,5)] frames, folded s2_def]; simp)+
  have inv: "heap_inv s2" using h by (auto simp: heap_inv_def)
  have fl: "faults s2 = faults s" using h(3) f(1,2) paging_init_console(2) [of s1] by (simp add: pmm_inv_def)
  have pre: "length (region_pool s2) = 256" "region_pool_used s2 = 0" "14 < length (handlers s2)" "kernel_space s2 \<noteq> 0"
    "0xC0100000 < page_align_up (kernel_end_sym (sym s2))" "page_align_up (kernel_end_sym (sym s2)) < 0xC0400000"
    using i by (simp_all add: keep2)
  have s3: "s3 = vmm_init s2" by (simp add: s3_def s2_def s1_def)
  show thesis
    by (rule vmm_init_spec [OF pre(1,2) heap_inv_term [OF inv] pre(3-6) refl, folded s3])
       (use that inv h fl keep2 in \<open>auto simp: heap_inv_def\<close>)
qed

section \<open>The processes\<close>

text \<open>The state after the initialisation of the memory managers, of the process table and of \<^term>\<open>n\<close> - 1 threads.\<close>

definition booted :: "'a proc_state_scheme \<Rightarrow> nat \<Rightarrow> block list \<Rightarrow> 'a proc_state_scheme \<Rightarrow> bool" where
  "booted t n bs s \<longleftrightarrow> heap_ok s bs \<and> heap_window s heap_lim \<and> faults s = faults t \<and> sym s = sym t \<and> spaces s = spaces t
     \<and> region_pool s = region_pool t \<and> region_pool_used s = region_pool_used t \<and> handlers s = handlers t
     \<and> current_space s = current_space t \<and> length (process_table s) = 64 \<and> next_pid s = of_nat n \<and> current_process s = Some 0
     \<and> map state (process_table s) = PROCESS_RUNNING # replicate (n - 1) PROCESS_READY @ replicate (64 - n) PROCESS_UNUSED
     \<and> map pid (take n (process_table s)) = map of_nat [0..<n]"

lemma booted_init:
  assumes "heap_ok t bs" and "heap_window t heap_lim"
  shows "booted t 1 bs (process_init t)"
proof -
  have inv: "heap_inv t" using assms by (auto simp: heap_inv_def)
  have "heap_window (process_init t) heap_lim" "heap_ok (process_init t) bs" "faults (process_init t) = faults t"
    using process_init_heap [OF inv] process_init_ok [OF assms(1)] by (simp_all add: heap_inv_def)
  moreover have "process_table (process_init t) = zero_process\<lparr>state := PROCESS_RUNNING, pname := copy_name (pname zero_process) ''kernel'' 32,
      p_directory := paging_get_directory t, address_space := kernel_space t\<rparr> # replicate 63 zero_process"
    unfolding process_init_table(1) using replicate_Suc [of 63 zero_process] by simp
  ultimately show ?thesis by (simp add: booted_def process_init_table process_init_eq) (simp add: zero_process_def)
qed

lemma booted_thread:
  assumes b: "booted t n bs s" and n: "0 < n" "n < 64" and fit: "first_fit heap_base 12288 bs = Some (p, bs')"
    and room: "unat (heap_end s) + 20480 \<le> heap_lim"
  shows "booted t (Suc n) bs' (snd (kthread_create entry nm s))"
proof -
  note b' = b [unfolded booted_def]
  have st: "state (process_table s ! i) = (if i = 0 then PROCESS_RUNNING else if i < n then PROCESS_READY else PROCESS_UNUSED)" if "i < 64" for i
  proof -
    have "map state (process_table s) ! i = state (process_table s ! i)" using that b' by (intro nth_map) simp
    moreover have "(PROCESS_RUNNING # replicate (n - 1) PROCESS_READY @ replicate (64 - n) PROCESS_UNUSED) ! i
        = (if i = 0 then PROCESS_RUNNING else if i < n then PROCESS_READY else PROCESS_UNUSED)"
      using that n by (cases i) (auto simp: nth_append)
    ultimately show ?thesis using b' by metis
  qed
  have fs: "free_slot (process_table s) = Some n" using n st by (auto simp: free_slot_iff)
  obtain s' where s': "kthread_create entry nm s = (Some n, s')" "heap_ok s' bs'" "heap_window s' heap_lim" "faults s' = faults s"
    "sym s' = sym s" "spaces s' = spaces s" "region_pool s' = region_pool s" "region_pool_used s' = region_pool_used s"
    "handlers s' = handlers s" "current_space s' = current_space s"
    using b' by (blast intro: kthread_create_heap [OF _ fs _ _ room fit])
  have "new_process (Some n) s s'" using kthread_create_new [of s entry nm] b' s'(1) by simp
  then obtain q where q: "process_table s' = (process_table s)[n := q]" "pid q = next_pid s" "state q = PROCESS_READY"
    "next_pid s' = next_pid s + 1" "current_process s' = current_process s"
    using fs by (auto simp: new_process_def)
  have "map state (process_table s') = (PROCESS_RUNNING # replicate (n - 1) PROCESS_READY @ replicate (64 - n) PROCESS_UNUSED)[n := PROCESS_READY]"
    using q(1,3) b' by (simp add: map_update)
  also have "\<dots> = PROCESS_RUNNING # replicate n PROCESS_READY @ replicate (63 - n) PROCESS_UNUSED"
    using n by (auto intro!: nth_equalityI simp: nth_Cons nth_append nth_list_update split: nat.split)
  finally have tab: "map state (process_table s') = \<dots>" .
  have "map pid (take (Suc n) (process_table s')) = map of_nat [0..<Suc n]"
    using q(1,2) b' n by (simp add: take_Suc_conv_app_nth)
  then show ?thesis using tab s' q b' by (simp add: booted_def)
qed

section \<open>Before the memory managers\<close>

text \<open>What the drivers that run first leave alone: everything above the interrupt tables, and the layout.\<close>

definition early :: "'a intr_state_scheme \<Rightarrow> 'a intr_state_scheme \<Rightarrow> bool" where
  "early s s' \<longleftrightarrow> intr_state.more s' = intr_state.more s \<and> sym s' = sym s \<and> port_in s' = port_in s \<and> faults s' = faults s
     \<and> term_inv s' \<and> length (gdt s') = length (gdt s) \<and> length (idt s') = length (idt s) \<and> length (handlers s') = length (handlers s)"

lemma early_refl: "term_inv s \<Longrightarrow> early s s"
  by (simp add: early_def)

lemma early_trans: "early s t \<Longrightarrow> early t u \<Longrightarrow> early s u"
  by (simp add: early_def)

lemma early_console:
  assumes "console_output op" and "term_inv s"
  shows "early s (op s)" "handlers (op s) = handlers s"
proof -
  note e = console_output.only_console [OF assms(1), of s, THEN arg_cong]
  have "intr_state.more (op s) = intr_state.more s" using e [of intr_state.more] by (simp add: console_erase_def)
  moreover have "gdt (op s) = gdt s" "idt (op s) = idt s" using e [of gdt] e [of idt] by (simp_all add: console_erase_def)
  moreover show h: "handlers (op s) = handlers s" using e [of handlers] by (simp add: console_erase_def)
  ultimately show "early s (op s)"
    using console_output.sym_kept [OF assms(1)] console_output.ports_kept [OF assms(1)] console_output.no_fault [OF assms]
      console_output.keeps_inv [OF assms] by (simp add: early_def)
qed

lemma early_serial:
  assumes "uart_live s" and "kprintf_text fmt args = Some t" and "term_inv s"
  shows "early s (serial_printf fmt args s)" "handlers (serial_printf fmt args s) = handlers s"
proof -
  obtain tr n where e: "serial_printf fmt args s = s\<lparr>hw_trace := tr, port_reads := n\<rparr>"
    using serial_puts_sends [OF assms(1), of t] unfolding serial_text_eq [OF assms(2), of s] sends_def by metis
  show "early s (serial_printf fmt args s)" "handlers (serial_printf fmt args s) = handlers s"
    using assms(3) unfolding e early_def by (simp_all add: term_inv_def)
qed

lemma early_tables:
  assumes "term_inv s"
  shows "early s (serial_init s)" "length (gdt s) = 3 \<Longrightarrow> early s (gdt_init s)" "length (idt s) = 256 \<Longrightarrow> early s (idt_init s)"
    "handlers (serial_init s) = handlers s" "handlers (gdt_init s) = handlers s" "length (idt s) = 256 \<Longrightarrow> handlers (idt_init s) = handlers s"
proof -
  show "early s (serial_init s)" using assms by (simp add: early_def serial_init_def Let_def hw_defs term_inv_def)
  show "early s (gdt_init s)" if "length (gdt s) = 3"
    using assms that length_0_conv [of "gdt s"] by (simp add: early_def gdt_init_def gdt_set_entry_def Let_def hw_defs term_inv_def)
  show "early s (idt_init s)" if "length (idt s) = 256"
    unfolding idt_init_eq [OF that] using assms that
    by (simp add: early_def pic_remap_def Let_def split_beta hw_defs term_inv_def)
  show "handlers (serial_init s) = handlers s" "handlers (gdt_init s) = handlers s"
    by (simp_all add: serial_init_def gdt_init_def gdt_set_entry_def Let_def hw_defs)
  show "handlers (idt_init s) = handlers s" if "length (idt s) = 256" unfolding idt_init_eq [OF that] by (simp add: hw_emit_def)
qed

lemma early_handlers:
  assumes "length (handlers s) = 256" and "term_inv s"
  shows "early s (keyboard_init s)" "handlers (keyboard_init s) = (handlers s)[33 := Some Keyboard_handler]"
    "early s (timer_init 100 s)" "handlers (timer_init 100 s) = (handlers s)[32 := Some Timer_handler]"
  using assms by (simp_all add: early_def keyboard_init_def timer_init_def idt_register_handler_def Let_def outb_def hw_emit_def term_inv_def)

text \<open>The initial conditions survive.\<close>

lemma early_image:
  fixes s s' :: "'a vmm_state_scheme"
  assumes "early s s'"
  shows "kernel_image s' = kernel_image s" "boot_map mbi s' es = boot_map mbi s es"
proof -
  have e: "intr_state.more s' = intr_state.more s" "sym s' = sym s" "length (handlers s') = length (handlers s)"
    using assms by (simp_all add: early_def)
  have "mem s' = mem s" "frame_bitmap s' = frame_bitmap s" "total_frames s' = total_frames s" "used_frames s' = used_frames s"
    "total_allocated s' = total_allocated s" "region_pool s' = region_pool s" "region_pool_used s' = region_pool_used s"
    using e(1) by (cases s, cases s', simp)+
  then show "kernel_image s' = kernel_image s" "boot_map mbi s' es = boot_map mbi s es"
    using e(2,3) by (simp_all add: kernel_image_def boot_map_def tables_placed_def kernel_end_phys_def)
qed

section \<open>From the loader to the shell\<close>

lemma booted_console:
  assumes c: "console_output op" and b: "booted t n bs s"
  shows "booted t n bs (op s)" "scheduler_enabled (op s) = scheduler_enabled s"
proof -
  note e = console_output.only_console [OF c, of s]
  have inv: "heap_inv s" and ok: "heap_ok s bs" using b by (auto simp: booted_def heap_inv_def)
  note ti = heap_inv_term [OF inv]
  have "heap_window (op s) heap_lim" "heap_ok (op s) bs" "faults (op s) = faults s"
    using heap_inv_console [OF e console_output.keeps_inv [OF c ti] inv] ok console_output.no_fault [OF c ti]
    by (simp_all add: heap_inv_def)
  moreover have f: "sym (op s) = sym s" "spaces (op s) = spaces s" "region_pool (op s) = region_pool s"
    "region_pool_used (op s) = region_pool_used s" "handlers (op s) = handlers s" "current_space (op s) = current_space s"
    "process_table (op s) = process_table s" "next_pid (op s) = next_pid s" "current_process (op s) = current_process s"
    by (rule console_field [OF e]; simp add: console_erase_def)+
  ultimately show "booted t n bs (op s)" using b by (simp add: booted_def)
  show "scheduler_enabled (op s) = scheduler_enabled s" by (rule console_field [OF e]) (simp add: console_erase_def)
qed

lemma boot_memory_booted:
  fixes s :: "'a kbd_state_scheme"
  assumes img: "kernel_image s" and map: "boot_map mbi s es" and t: "term_inv s"
  obtains t ix where "booted t 3 [(12288, False), (12288, False), (1023964, True)] (boot_memory magic mbi s)"
    "scheduler_enabled (boot_memory magic mbi s)" "faults t = faults s" "sym t = sym s" "region_seq t (kernel_space s) ix"
    "space_regions t ix = kernel_regions (page_align_up (kernel_end_sym (sym s)))" "current_space t = kernel_space s"
    "handlers t = (handlers s)[14 := Some Page_fault_handler]"
proof -
  define s1 where "s1 = kprintf ''Multiboot magic OK: 0x%x\<newline>'' [VInt magic] s"
  have c: "console_output (kprintf ''Multiboot magic OK: 0x%x\<newline>'' [VInt magic])" by (rule console_output_kprintf) simp
  note e = early_console [OF c t, folded s1_def]
  have pre: "kernel_image s1" "boot_map mbi s1 es" "term_inv s1" using early_image [OF e(1)] img map e(1) by (simp_all add: early_def)
  obtain t ix where v: "t = vmm_init (kheap_init (paging_init (pmm_init mbi s1)))" "heap_ok t [(1048564, True)]" "heap_window t heap_lim"
    "faults t = faults s1" "sym t = sym s1"
    "region_seq t (kernel_space s1) ix" "space_regions t ix = kernel_regions (page_align_up (kernel_end_sym (sym s1)))"
    "current_space t = kernel_space s1" "handlers t = (handlers s1)[14 := Some Page_fault_handler]"
    by (rule boot_vmm [OF pre]) blast
  define s3 where "s3 = process_init t"
  define s4 where "s4 = snd (kthread_create (thread_a_sym (sym s3)) ''thread_a'' s3)"
  define s5 where "s5 = snd (kthread_create (thread_b_sym (sym s4)) ''thread_b'' s4)"
  have ends: "unat (heap_end u) + 20480 \<le> heap_lim" if "booted t n bs u" "span bs = 1048576" for u n bs
    using that heap_okD(6) [of u bs] by (simp add: booted_def)
  have b3: "booted t 1 [(1048564, True)] s3" unfolding s3_def by (rule booted_init [OF v(2,3)])
  have b4: "booted t 2 [(12288, False), (1036264, True)] s4"
    using booted_thread [OF b3 _ _ _ ends [OF b3], of "heap_base + 12" "[(12288, False), (1036264, True)]"] by (simp add: s4_def split_free_def numeral_2_eq_2)
  have b5: "booted t 3 [(12288, False), (12288, False), (1023964, True)] s5"
    using booted_thread [OF b4 _ _ _ ends [OF b4], of "heap_base + 12312" "[(12288, False), (12288, False), (1023964, True)]"]
    by (simp add: s5_def split_free_def numeral_3_eq_3 numeral_2_eq_2)
  have b6: "booted t 3 [(12288, False), (12288, False), (1023964, True)] (s5\<lparr>scheduler_enabled := True\<rparr>)"
    using b5 heap_inv_above [OF truncate_table(5) [of True s5]] by (simp add: booted_def)
  have out: "console_output (kprintf ''[SCHEDULER] Round Robin scheduler initialized\<newline>'' [])"
    "console_output (kprintf ''Heap used: %u KB, free: %u KB\<newline>'' [VInt u, VInt f])"
    "console_output (kprintf ''Free memory: %u KB\<newline>'' [VInt u])" for u f
    by (rule console_output_kprintf; simp)+
  have run: "boot_memory magic mbi s = (let s6 = kprintf ''[SCHEDULER] Round Robin scheduler initialized\<newline>'' [] (s5\<lparr>scheduler_enabled := True\<rparr>);
      s7 = kprintf ''Heap used: %u KB, free: %u KB\<newline>'' [VInt (kheap_get_used s6 div 1024), VInt (kheap_get_free s6 div 1024)] s6
      in kprintf ''Free memory: %u KB\<newline>'' [VInt (pmm_get_free_memory s7 div 1024)] s7)"
    by (simp only: boot_memory_def Let_def scheduler_init_def s5_def s4_def s3_def v(1) s1_def)
  have "booted t 3 [(12288, False), (12288, False), (1023964, True)] (boot_memory magic mbi s)" "scheduler_enabled (boot_memory magic mbi s)"
    unfolding run Let_def
    by (intro booted_console(1) [OF out(3)] booted_console(1) [OF out(2)] booted_console(1) [OF out(1)] b6, simp)
  moreover have "faults s1 = faults s" "sym s1 = sym s" "handlers s1 = handlers s" using e by (simp_all add: early_def)
  ultimately show thesis using v(4-9) that by simp
qed

definition driven :: "'a intr_state_scheme \<Rightarrow> handler option list \<Rightarrow> 'a intr_state_scheme \<Rightarrow> bool" where
  "driven s hs s' \<longleftrightarrow> early s s' \<and> handlers s' = hs"

lemma driven_step:
  assumes "driven s hs t" and "term_inv t \<Longrightarrow> early t u \<and> handlers u = hs'"
  shows "driven s hs' u"
  using assms early_trans [of s t u] by (auto simp: driven_def early_def)

lemma driven_console: "console_output op \<Longrightarrow> driven s hs t \<Longrightarrow> driven s hs (op t)"
  by (frule driven_step) (auto simp: early_console driven_def)

lemma driven_drivers:
  assumes d: "driven s hs t"
  shows "driven s hs (serial_init t)" "length (gdt s) = 3 \<Longrightarrow> driven s hs (gdt_init t)"
    "length (idt s) = 256 \<Longrightarrow> driven s hs (idt_init t)"
    "uart_live s \<Longrightarrow> kprintf_text fmt args = Some u \<Longrightarrow> driven s hs (serial_printf fmt args t)"
proof -
  have e: "early s t" "handlers t = hs" using d by (simp_all add: driven_def)
  then have len: "length (gdt t) = length (gdt s)" "length (idt t) = length (idt s)" "uart_live t = uart_live s"
    by (simp_all add: early_def uart_live_def)
  show "driven s hs (serial_init t)" by (rule driven_step [OF d]) (simp add: early_tables e(2))
  show "driven s hs (gdt_init t)" if "length (gdt s) = 3" by (rule driven_step [OF d]) (simp add: early_tables e(2) len that)
  show "driven s hs (idt_init t)" if "length (idt s) = 256" by (rule driven_step [OF d]) (simp add: early_tables e(2) len that)
  show "driven s hs (serial_printf fmt args t)" if "uart_live s" "kprintf_text fmt args = Some u"
    by (rule driven_step [OF d]) (use early_serial [OF _ that(2), of t] e(2) len(3) that(1) in simp)
qed

lemma driven_handlers:
  assumes d: "driven s hs t" and "length (handlers s) = 256"
  shows "driven s (hs[33 := Some Keyboard_handler]) (keyboard_init t)" "driven s (hs[32 := Some Timer_handler]) (timer_init 100 t)"
proof -
  have h: "handlers t = hs" "length (handlers t) = 256" using assms by (auto simp: driven_def early_def)
  show "driven s (hs[33 := Some Keyboard_handler]) (keyboard_init t)" "driven s (hs[32 := Some Timer_handler]) (timer_init 100 t)"
    using early_handlers [OF h(2)] by (auto intro!: driven_step [OF d] simp: h(1))
qed

lemma early_drivers:
  fixes s :: "'a kbd_state_scheme"
  assumes t: "term_inv s" and live: "uart_live s" and len: "length (gdt s) = 3" "length (idt s) = 256" "length (handlers s) = 256"
  obtains s8 where "driven s ((handlers s)[33 := Some Keyboard_handler, 32 := Some Timer_handler]) s8"
    "kernel_main MULTIBOOT_MAGIC mbi s
       = hw_emit Hlt (shell_init (kprintf ''Welcome to TupleOS!\<newline>'' [] (boot_memory MULTIBOOT_MAGIC mbi s8)))"
proof -
  note ws = driven_console [OF writestring.console_output_axioms]
  have str: "kprintf_text ''Serial port initialized\<newline>'' [] = Some ''Serial port initialized\<newline>''"
    "kprintf_text ''Timer ticks: %u\<newline>'' [VInt n] = Some (''Timer ticks: '' @ dec_numeral (unat n) @ ''\<newline>'')" for n by simp_all
  have k: "console_output (kprintf ''Timer initialized at 100 Hz\<newline>'' [])" by (rule console_output_kprintf) simp
  have "driven s (handlers s) s" using t by (simp add: driven_def early_refl)
  then show thesis
    by (intro that [rotated])
      (simp only: kernel_main_def Let_def simp_thms if_False, (rule refl |
       intro driven_console [OF k] driven_handlers [OF _ len(3)] ws driven_drivers(2) [OF _ len(1)] driven_drivers(3) [OF _ len(2)]
         driven_drivers(4) [OF _ live str(1)] driven_drivers(4) [OF _ live str(2)] driven_drivers(1)
         driven_console [OF initialize.console_output_axioms])+)
qed

lemma kernel_main_booted:
  fixes s :: "'a kbd_state_scheme"
  assumes img: "kernel_image s" and map: "boot_map mbi s es" and t: "term_inv s" and live: "uart_live s"
    and len: "length (gdt s) = 3" "length (idt s) = 256"
  defines "s' \<equiv> kernel_main MULTIBOOT_MAGIC mbi s"
  obtains t ix where "booted t 3 [(12288, False), (12288, False), (1023964, True)] s'" "scheduler_enabled s'" "faults s' = faults s"
    "region_seq s' (kernel_space s) ix" "space_regions s' ix = kernel_regions (page_align_up (kernel_end_sym (sym s)))"
    "current_space s' = kernel_space s"
    "handlers s' = (handlers s)[33 := Some Keyboard_handler, 32 := Some Timer_handler, 14 := Some Page_fault_handler]"
proof -
  have hl: "length (handlers s) = 256" using img by (simp add: kernel_image_def)
  obtain s8 where d: "driven s ((handlers s)[33 := Some Keyboard_handler, 32 := Some Timer_handler]) s8"
    and run: "s' = hw_emit Hlt (shell_init (kprintf ''Welcome to TupleOS!\<newline>'' [] (boot_memory MULTIBOOT_MAGIC mbi s8)))"
    unfolding s'_def by (rule early_drivers [OF t live len hl])
  have e: "early s s8" "handlers s8 = (handlers s)[33 := Some Keyboard_handler, 32 := Some Timer_handler]"
    using d by (simp_all add: driven_def)
  have pre: "kernel_image s8" "boot_map mbi s8 es" "term_inv s8" using early_image [OF e(1)] img map e(1) by (simp_all add: early_def)
  have same: "faults s8 = faults s" "sym s8 = sym s" using e(1) by (simp_all add: early_def)
  obtain t ix where b: "booted t 3 [(12288, False), (12288, False), (1023964, True)] (boot_memory MULTIBOOT_MAGIC mbi s8)"
    "scheduler_enabled (boot_memory MULTIBOOT_MAGIC mbi s8)" "faults t = faults s8" "sym t = sym s8" "region_seq t (kernel_space s8) ix"
    "space_regions t ix = kernel_regions (page_align_up (kernel_end_sym (sym s8)))" "current_space t = kernel_space s8"
    "handlers t = (handlers s8)[14 := Some Page_fault_handler]"
    by (rule boot_memory_booted [OF pre])
  have out: "console_output (kprintf ''Welcome to TupleOS!\<newline>'' [])" "console_output (hw_emit Hlt)"
    by (rule console_output_kprintf, simp) (unfold_locales, auto simp: console_erase_def hw_emit_def term_inv_def)
  note steps = booted_console [OF out(1) b(1)]
    and w = booted_console [OF writestring.console_output_axioms] and p = booted_console [OF prompt.console_output_axioms]
  have sh: "booted t 3 bs (shell_init u)" "scheduler_enabled (shell_init u) = scheduler_enabled u"
    if "booted t 3 bs u" for bs and u :: "'a kbd_state_scheme"
    unfolding shell_init_def Let_def using p(1) [OF w(1) [OF w(1) [OF that]]] p(2) [OF w(1) [OF w(1) [OF that]]]
      w(2) [OF w(1) [OF that]] w(2) [OF that] by simp_all
  have fin: "booted t 3 [(12288, False), (12288, False), (1023964, True)] s'" "scheduler_enabled s'"
    unfolding run using booted_console [OF out(2) sh(1) [OF steps(1)]] sh(2) [OF steps(1)] steps(2) b(2) by simp_all
  then have f: "faults s' = faults t" "spaces s' = spaces t" "region_pool s' = region_pool t" "region_pool_used s' = region_pool_used t"
    "current_space s' = current_space t" "handlers s' = handlers t" by (simp_all add: booted_def)
  have "region_seq s' (kernel_space s) ix" "space_regions s' ix = space_regions t ix"
    using b(5) same f by (simp_all add: region_seq_def space_regions_def)
  then show thesis using fin f b(3-8) same e(2) by (intro that) simp_all
qed

section \<open>A machine with 128 MB\<close>

definition sample_loaded :: kbd_state where
  "sample_loaded = sample_kbd\<lparr>sym := sample_symbols, faults := [], port_in := (\<lambda>_ n. if odd n then 0x60 else 0), terminal_row := 0,
     terminal_column := 0, terminal_buffer := replicate 2000 0, gdt := gdt sample_intr, idt := idt sample_intr,
     handlers := replicate 256 None, mem := sample_memory, frame_bitmap := replicate 4098 0, total_frames := 0, used_frames := 0,
     total_allocated := 0, region_pool := replicate 256 (new_region 0 0 0 REGION_FREE), region_pool_used := 0\<rparr>"

lemma sample_loaded_fields [simp]:
  "sym sample_loaded = sample_symbols" "mem sample_loaded = sample_memory" "faults sample_loaded = []" "term_inv sample_loaded"
  "length (gdt sample_loaded) = 3" "length (idt sample_loaded) = 256" "handlers sample_loaded = replicate 256 None"
  by (simp_all add: sample_loaded_def term_inv_def sample_intr_def)

lemma sample_loaded_image: "kernel_image sample_loaded" "uart_live sample_loaded"
proof -
  have k: "page_align_up (kernel_end_sym (sym sample_loaded)) = 0xC011F000" by (simp add: sample_symbols_def page_align_up_def)
  have T: "table_page 0xC0116000 t \<noteq> 0xC0115000" if "t < 4" for t :: nat
  proof -
    have "t \<in> {0, 1, 2, 3}" using that by auto
    then show ?thesis by (auto simp: table_page_def)
  qed
  have sy: "page_directory_sym sample_symbols = 0xC0115000" "page_tables_sym sample_symbols = 0xC0116000" "kernel_space_sym sample_symbols = 0xC011A000"
    by (simp_all add: sample_symbols_def)
  have "tables_placed sample_loaded" using T by (simp add: tables_placed_def sy)
  moreover have "map (table_page 0xC0116000) [0..<4] = [0xC0116000, 0xC0117000, 0xC0118000, 0xC0119000]"
    by (simp add: table_page_def upt_rec)
  moreover have "length (frame_bitmap sample_loaded) = 4098" "total_frames sample_loaded = 0" "used_frames sample_loaded = 0"
    "total_allocated sample_loaded = 0" "length (region_pool sample_loaded) = 256" "region_pool_used sample_loaded = 0"
    by (simp_all add: sample_loaded_def)
  ultimately show "kernel_image sample_loaded" unfolding kernel_image_def k by (simp add: sy)
  have "\<exists>k \<ge> n. odd k" for n :: nat by (rule exI [of _ "2 * n + 1"]) simp
  then show "uart_live sample_loaded" by (auto simp: uart_live_def sample_loaded_def)
qed

lemma sample_loaded_map:
  "boot_map 0x10000 sample_loaded [\<lparr>entry_size = 20, entry_base = 0x100000, entry_length = 0x7F00000, entry_type = 1\<rparr>]"
proof -
  let ?e = "\<lparr>entry_size = 20, entry_base = 0x100000, entry_length = 0x7F00000, entry_type = 1\<rparr> :: mmap_entry"
  have ke: "kernel_end_phys sample_loaded = 0x11F000" by (simp add: kernel_end_phys_def sample_symbols_def page_align_up_eq)
  have U: "usable_frames 0x11F000 [?e] = {287..<32768}" by (auto simp: usable_frames_def released_def entry_frames_def)
  have "{f \<in> {287..<32768 :: nat}. f < 32480} = {287..<32480}" by auto
  then have "256 \<le> card {f \<in> usable_frames 0x11F000 [?e]. f < 8 * (card (usable_frames 0x11F000 [?e]) div 8)}" unfolding U by simp
  then show ?thesis
    by (simp add: boot_map_def usable_map_def ke entry_ok_def mbi_flags_def mbi_mmap_addr_def mbi_mmap_length_def mmap_size_def mmap_base_def
        mmap_length_def mmap_type_def load32_store32_sep sep4_def sample_memory_def)
qed

end
