(* ===== verification/Stubs.thy ===== *)
theory Stubs
  imports Interrupts
begin

text \<open>
  The assembly around the C code: the stubs of \<^verbatim>\<open>interrupts.asm\<close>, through which every interrupt reaches
  \<^verbatim>\<open>interrupt_handler\<close>, and \<^verbatim>\<open>gdt_flush.asm\<close>. The instructions are a datatype, a routine is a list of instructions, and the
  machine is the registers of the processor and the memory. The C function a stub calls is a parameter, with the
  calling convention as its hypothesis.
\<close>

section \<open>The machine\<close>

datatype reg = EAX | ECX | EDX | EBX | ESP | EBP | ESI | EDI

datatype sreg = CS | DS | ES | FS | GS | SS

record machine =
  regs :: "reg \<Rightarrow> u32"
  sregs :: "sreg \<Rightarrow> u16"
  m_eip :: u32
  m_eflags :: u32
  gdtr :: table_ptr
  ram :: memory

definition set_reg :: "reg \<Rightarrow> u32 \<Rightarrow> machine \<Rightarrow> machine" where
  "set_reg r v m = m\<lparr>regs := (regs m)(r := v)\<rparr>"

definition set_sreg :: "sreg \<Rightarrow> u16 \<Rightarrow> machine \<Rightarrow> machine" where
  "set_sreg r v m = m\<lparr>sregs := (sregs m)(r := v)\<rparr>"

definition push32 :: "u32 \<Rightarrow> machine \<Rightarrow> machine" where
  "push32 v m = (let sp = regs m ESP - 4 in (set_reg ESP sp m)\<lparr>ram := store32 (ram m) sp v\<rparr>)"

definition pop32 :: "machine \<Rightarrow> u32 \<times> machine" where
  "pop32 m = (load32 (ram m) (regs m ESP), set_reg ESP (regs m ESP + 4) m)"

text \<open>The instructions of the two files. \<^verbatim>\<open>mov\<close> into and out of a segment register goes through the low half of
  EAX, which leaves the high half alone. \<^verbatim>\<open>popa\<close> skips the saved stack pointer.\<close>

datatype instr =
    Push_imm u32
  | Push reg
  | Pop reg
  | Pusha
  | Popa
  | Mov_ax_sreg sreg
  | Mov_ax_imm u16
  | Mov_sreg_ax sreg
  | Load_stack reg u32
  | Add_esp u32
  | Call u32
  | Lgdt_at reg
  | Far_jmp u16 u32
  | Ret
  | Iret

definition set_ax :: "u16 \<Rightarrow> machine \<Rightarrow> machine" where
  "set_ax v m = set_reg EAX ((regs m EAX AND 0xFFFF0000) OR ucast v) m"

definition pusha :: "machine \<Rightarrow> machine" where
  "pusha m =
     (let sp = regs m ESP
      in fold (\<lambda>r. push32 (if r = ESP then sp else regs m r)) [EAX, ECX, EDX, EBX, ESP, EBP, ESI, EDI] m)"

definition popa :: "machine \<Rightarrow> machine" where
  "popa m =
     fold (\<lambda>r st. let (v, st') = pop32 st in if r = ESP then st' else set_reg r v st')
       [EDI, ESI, EBP, ESP, EBX, EDX, ECX, EAX] m"

text \<open>\<^term>\<open>c\<close> is the function called; it starts with its return address on the stack and ends by popping it.\<close>

fun exec1 :: "(machine \<Rightarrow> machine) \<Rightarrow> instr \<Rightarrow> machine \<Rightarrow> machine" where
  "exec1 c (Push_imm v) m = push32 v m"
| "exec1 c (Push r) m = push32 (regs m r) m"
| "exec1 c (Pop r) m = (let (v, m') = pop32 m in set_reg r v m')"
| "exec1 c Pusha m = pusha m"
| "exec1 c Popa m = popa m"
| "exec1 c (Mov_ax_sreg r) m = set_ax (sregs m r) m"
| "exec1 c (Mov_ax_imm v) m = set_ax v m"
| "exec1 c (Mov_sreg_ax r) m = set_sreg r (ucast (regs m EAX)) m"
| "exec1 c (Load_stack r d) m = set_reg r (load32 (ram m) (regs m ESP + d)) m"
| "exec1 c (Add_esp d) m = set_reg ESP (regs m ESP + d) m"
| "exec1 c (Call ret) m = c (push32 ret m)"
| "exec1 c (Lgdt_at r) m = m\<lparr>gdtr := \<lparr>tp_limit = ucast (load32 (ram m) (regs m r)), tp_base = load32 (ram m) (regs m r + 2)\<rparr>\<rparr>"
| "exec1 c (Far_jmp sel off) m = (set_sreg CS sel m)\<lparr>m_eip := off\<rparr>"
| "exec1 c Ret m = (let (v, m') = pop32 m in m'\<lparr>m_eip := v\<rparr>)"
| "exec1 c Iret m =
     (let (ip, m1) = pop32 m; (sel, m2) = pop32 m1; (fl, m3) = pop32 m2
      in (set_sreg CS (ucast sel) m3)\<lparr>m_eip := ip, m_eflags := fl\<rparr>)"

primrec exec :: "(machine \<Rightarrow> machine) \<Rightarrow> instr list \<Rightarrow> machine \<Rightarrow> machine" where
  "exec c [] m = m"
| "exec c (i # is) m = exec c is (exec1 c i m)"

section \<open>The stubs\<close>

text \<open>The exceptions for which the processor pushes an error code.\<close>

definition error_vectors :: "nat list" where
  "error_vectors = [8, 10, 11, 12, 13, 14, 17, 21, 29, 30]"

text \<open>The stub of vector \<^term>\<open>n\<close>: \<^verbatim>\<open>isr\<close>\<^term>\<open>n\<close> below 32, \<^verbatim>\<open>irq\<close> from 32 on. Each ends with \<^verbatim>\<open>jmp isr_common\<close>.\<close>

definition isr_stub :: "nat \<Rightarrow> instr list" where
  "isr_stub n = (if n \<in> {8, 10, 11, 12, 13, 14, 17, 21, 29, 30} then [Push_imm (of_nat n)] else [Push_imm 0, Push_imm (of_nat n)])"

definition isr_entry :: "instr list" where
  "isr_entry =
     [Pusha, Mov_ax_sreg DS, Push EAX, Mov_ax_imm 0x10, Mov_sreg_ax DS, Mov_sreg_ax ES, Mov_sreg_ax FS, Mov_sreg_ax GS, Push ESP]"

definition isr_exit :: "instr list" where
  "isr_exit = [Add_esp 4, Pop EAX, Mov_sreg_ax DS, Mov_sreg_ax ES, Mov_sreg_ax FS, Mov_sreg_ax GS, Popa, Add_esp 8, Iret]"

definition isr_common :: "u32 \<Rightarrow> instr list" where
  "isr_common ret = isr_entry @ [Call ret] @ isr_exit"

definition gdt_flush :: "u32 \<Rightarrow> instr list" where
  "gdt_flush flush_done =
     [Load_stack EAX 4, Lgdt_at EAX, Mov_ax_imm 0x10, Mov_sreg_ax DS, Mov_sreg_ax ES, Mov_sreg_ax FS, Mov_sreg_ax GS,
      Mov_sreg_ax SS, Far_jmp 0x08 flush_done, Ret]"

text \<open>An interrupt in kernel mode: the processor pushes the flags, the code segment and the address of the next
  instruction, and for some vectors an error code; it continues at the gate of the vector. An interrupt
  gate clears the interrupt flag.\<close>

definition deliver :: "idt_entry \<Rightarrow> nat \<Rightarrow> u32 \<Rightarrow> machine \<Rightarrow> machine" where
  "deliver g n err m =
     (let m1 = push32 (m_eip m) (push32 (ucast (sregs m CS)) (push32 (m_eflags m) m));
          m2 = (if n \<in> set error_vectors then push32 err m1 else m1)
      in (set_sreg CS (i_selector g) m2)\<lparr>m_eip := gate_offset g, m_eflags := m_eflags m AND NOT 0x200\<rparr>)"

definition service_interrupt :: "(machine \<Rightarrow> machine) \<Rightarrow> u32 \<Rightarrow> idt_entry \<Rightarrow> nat \<Rightarrow> u32 \<Rightarrow> machine \<Rightarrow> machine" where
  "service_interrupt c ret g n err m = exec c (isr_stub n @ isr_common ret) (deliver g n err m)"

text \<open>\<^verbatim>\<open>struct interrupt_frame\<close> in memory.\<close>

definition frame_at :: "memory \<Rightarrow> u32 \<Rightarrow> interrupt_frame" where
  "frame_at m p =
     \<lparr>f_ds = load32 m p, f_edi = load32 m (p + 4), f_esi = load32 m (p + 8), f_ebp = load32 m (p + 12), f_esp = load32 m (p + 16),
      f_ebx = load32 m (p + 20), f_edx = load32 m (p + 24), f_ecx = load32 m (p + 28), f_eax = load32 m (p + 32),
      interrupt_number = load32 m (p + 36), error_code = load32 m (p + 40), f_eip = load32 m (p + 44), f_cs = load32 m (p + 48),
      f_eflags = load32 m (p + 52), f_user_esp = load32 m (p + 56), f_user_ss = load32 m (p + 60)\<rparr>"

text \<open>The machine when \<^verbatim>\<open>interrupt_handler\<close> starts.\<close>

definition handler_call :: "u32 \<Rightarrow> idt_entry \<Rightarrow> nat \<Rightarrow> u32 \<Rightarrow> machine \<Rightarrow> machine" where
  "handler_call ret g n err m = push32 ret (exec (\<lambda>x. x) (isr_stub n @ isr_entry) (deliver g n err m))"

text \<open>The stubs without a dummy code are those of the exceptions with a code of their own.\<close>

lemma isr_stub_eq: "isr_stub n = (if n \<in> set error_vectors then [Push_imm (of_nat n)] else [Push_imm 0, Push_imm (of_nat n)])"
  by (simp add: isr_stub_def error_vectors_def)

section \<open>Words on the stack\<close>

lemma exec_append: "exec c (is @ js) m = exec c js (exec c is m)"
  by (induction "is" arbitrary: m) simp_all

lemma push_words:
  assumes "length ws \<le> 1024"
  shows "\<exists>M. fold push32 ws m = m\<lparr>regs := (regs m)(ESP := regs m ESP - 4 * of_nat (length ws)), ram := M\<rparr>
    \<and> (\<forall>i < length ws. load32 M (regs m ESP - 4 * of_nat (Suc i)) = ws ! i)
    \<and> (\<forall>x. \<not> in_range (regs m ESP - 4 * of_nat (length ws)) (4 * length ws) x \<longrightarrow> M x = ram m x)"
  using assms
proof (induction ws rule: rev_induct)
  case Nil
  show ?case by (intro exI [of _ "ram m"]) simp
next
  case (snoc w ws)
  let ?sp = "regs m ESP" and ?n = "length ws"
  have le: "length ws \<le> 1024" using snoc.prems by simp
  obtain M where M: "fold push32 ws m = m\<lparr>regs := (regs m)(ESP := ?sp - 4 * of_nat ?n), ram := M\<rparr>"
    "\<And>i. i < ?n \<Longrightarrow> load32 M (?sp - 4 * of_nat (Suc i)) = ws ! i"
    "\<And>x. \<not> in_range (?sp - 4 * of_nat ?n) (4 * ?n) x \<Longrightarrow> M x = ram m x"
    using snoc.IH [OF le] by blast
  let ?a = "?sp - 4 * of_nat (Suc ?n)"
  have a: "?sp - 4 * of_nat ?n - 4 = ?a" by simp
  have run: "fold push32 (ws @ [w]) m = m\<lparr>regs := (regs m)(ESP := ?a), ram := store32 M ?a w\<rparr>"
    unfolding a [symmetric] by (simp add: M(1) push32_def Let_def set_reg_def)
  have n: "unat (4 * of_nat k :: u32) = 4 * k" if "k \<le> 1024" for k
    using that u32_of_nat [of "4 * k"] by simp
  have words: "load32 (store32 M ?a w) (?sp - 4 * of_nat (Suc i)) = (ws @ [w]) ! i" if "i < Suc ?n" for i
  proof (cases "i = ?n")
    case False
    then have "i < ?n" using that by simp
    have "(?sp - 4 * of_nat (Suc i)) - ?a = 4 * of_nat (?n - i)" "?a - (?sp - 4 * of_nat (Suc i)) = - (4 * of_nat (?n - i))"
      using \<open>i < ?n\<close> by (simp_all add: of_nat_diff algebra_simps)
    then have "sep4 ?a (?sp - 4 * of_nat (Suc i))"
      using n [of "?n - i"] u32_sub [of 0 "4 * of_nat (?n - i)"] \<open>i < ?n\<close> snoc.prems by (simp add: sep4_def) linarith
    then show ?thesis using M(2) \<open>i < ?n\<close> by (simp add: load32_store32_sep nth_append del: of_nat_Suc)
  qed simp
  have out: "store32 M ?a w x = ram m x" if "\<not> in_range ?a (4 * Suc ?n) x" for x
  proof -
    have 1: "\<not> in_range ?a 4 x" using that by (simp add: in_range_def)
    have "unat (x - ?a) < 4 * Suc ?n" if "unat (x - (?sp - 4 * of_nat ?n)) < 4 * ?n"
    proof -
      have e: "x - ?a = (x - (?sp - 4 * of_nat ?n)) + 4" by simp
      show ?thesis unfolding e using that u32_add [of "x - (?sp - 4 * of_nat ?n)" 4] snoc.prems by (simp del: diff_diff_eq2)
    qed
    then have "M x = ram m x" using that M(3) [of x] unfolding in_range_def by blast
    then show ?thesis using 1 by (simp add: store32_byte_other del: of_nat_Suc)
  qed
  have len: "length (ws @ [w]) = Suc ?n" by simp
  show ?case unfolding len using run words out by blast
qed

section \<open>The way in\<close>

lemma ax_selector [simp]: "ucast ((x AND 0xFFFF0000) OR (ucast v :: u32)) = (v :: u16)"
proof -
  have hi: "(0xFFFF0000 :: u32) = NOT (mask 16)" by (simp add: mask_eq_exp_minus_1)
  show ?thesis unfolding hi by (rule bit_word_eqI) (simp add: bit_simps)
qed

lemma ax_kernel_data [simp]: "ucast ((x AND 0xFFFF0000) OR 16 :: u32) = (16 :: u16)"
  using ax_selector [of x 16] by simp

lemma selector_word [simp]: "ucast (ucast v :: u32) = (v :: u16)"
  using ax_selector [of 0 v] by simp

definition stub_words :: "u32 \<Rightarrow> nat \<Rightarrow> u32 \<Rightarrow> machine \<Rightarrow> u32 list" where
  "stub_words ret n err m =
     [m_eflags m, ucast (sregs m CS), m_eip m, if n \<in> set error_vectors then err else 0, of_nat n,
      regs m EAX, regs m ECX, regs m EDX, regs m EBX, regs m ESP - 20, regs m EBP, regs m ESI, regs m EDI,
      (regs m EAX AND 0xFFFF0000) OR ucast (sregs m DS), regs m ESP - 56, ret]"

lemmas machine_defs = push32_def set_reg_def set_sreg_def set_ax_def pop32_def Let_def

lemma handler_call_ram:
  "ram (handler_call ret g n err m) = ram (fold push32 (stub_words ret n err m) m)"
  by (simp add: handler_call_def exec_append isr_stub_eq isr_entry_def deliver_def pusha_def stub_words_def machine_defs)

lemma handler_call_regs:
  "regs (handler_call ret g n err m) ESP = regs m ESP - 64"
  "sregs (handler_call ret g n err m) = (sregs m)(CS := i_selector g, DS := 0x10, ES := 0x10, FS := 0x10, GS := 0x10)"
  by (simp_all add: handler_call_def exec_append isr_stub_eq isr_entry_def deliver_def pusha_def machine_defs)

lemma handler_call_stack:
  "i < 16 \<Longrightarrow> load32 (ram (handler_call ret g n err m)) (regs m ESP - 4 * of_nat (Suc i)) = stub_words ret n err m ! i"
  "\<not> in_range (regs m ESP - 64) 64 x \<Longrightarrow> ram (handler_call ret g n err m) x = ram m x"
proof -
  have len: "length (stub_words ret n err m) = 16" by (simp add: stub_words_def)
  obtain M where "fold push32 (stub_words ret n err m) m = m\<lparr>regs := (regs m)(ESP := regs m ESP - 4 * of_nat 16), ram := M\<rparr>"
    and M: "\<forall>i < 16. load32 M (regs m ESP - 4 * of_nat (Suc i)) = stub_words ret n err m ! i"
    "\<forall>x. \<not> in_range (regs m ESP - 4 * of_nat 16) (4 * 16) x \<longrightarrow> M x = ram m x"
    using push_words [of "stub_words ret n err m" m] unfolding len by auto
  then have "ram (handler_call ret g n err m) = M" by (simp add: handler_call_ram)
  then show "i < 16 \<Longrightarrow> load32 (ram (handler_call ret g n err m)) (regs m ESP - 4 * of_nat (Suc i)) = stub_words ret n err m ! i"
    "\<not> in_range (regs m ESP - 64) 64 x \<Longrightarrow> ram (handler_call ret g n err m) x = ram m x"
    using M by (simp_all del: of_nat_Suc)
qed

text \<open>The frame below the interrupted code's stack pointer.\<close>

definition pushed_frame :: "nat \<Rightarrow> u32 \<Rightarrow> machine \<Rightarrow> interrupt_frame" where
  "pushed_frame n err m =
     \<lparr>f_ds = (regs m EAX AND 0xFFFF0000) OR ucast (sregs m DS), f_edi = regs m EDI, f_esi = regs m ESI, f_ebp = regs m EBP,
      f_esp = regs m ESP - 20, f_ebx = regs m EBX, f_edx = regs m EDX, f_ecx = regs m ECX, f_eax = regs m EAX,
      interrupt_number = of_nat n, error_code = (if n \<in> set error_vectors then err else 0), f_eip = m_eip m,
      f_cs = ucast (sregs m CS), f_eflags = m_eflags m,
      f_user_esp = load32 (ram m) (regs m ESP), f_user_ss = load32 (ram m) (regs m ESP + 4)\<rparr>"

lemma handler_call_frame: "frame_at (ram (handler_call ret g n err m)) (regs m ESP - 56) = pushed_frame n err m"
proof -
  let ?r = "ram (handler_call ret g n err m)" and ?sp = "regs m ESP"
  have at: "?sp - 56 + 4 = ?sp - 52" "?sp - 56 + 8 = ?sp - 48" "?sp - 56 + 12 = ?sp - 44" "?sp - 56 + 16 = ?sp - 40"
    "?sp - 56 + 20 = ?sp - 36" "?sp - 56 + 24 = ?sp - 32" "?sp - 56 + 28 = ?sp - 28" "?sp - 56 + 32 = ?sp - 24"
    "?sp - 56 + 36 = ?sp - 20" "?sp - 56 + 40 = ?sp - 16" "?sp - 56 + 44 = ?sp - 12" "?sp - 56 + 48 = ?sp - 8"
    "?sp - 56 + 52 = ?sp - 4" "?sp - 56 + 56 = ?sp" "?sp - 56 + 60 = ?sp + 4" by simp_all
  have w: "load32 ?r (?sp - 4 * of_nat k) = stub_words ret n err m ! (k - 1)" if "k \<in> {1..16}" for k
    using handler_call_stack(1) [of "k - 1"] that by (cases k) auto
  have out: "load32 ?r a = load32 (ram m) a" if "\<And>k. k < 4 \<Longrightarrow> \<not> in_range (?sp - 64) 64 (a + of_nat k)" for a
    by (rule load32_cong) (use that handler_call_stack(2) in auto)
  have above: "load32 ?r ?sp = load32 (ram m) ?sp" "load32 ?r (?sp + 4) = load32 (ram m) (?sp + 4)"
    by (rule out, auto simp: in_range_def u32_add u32_of_nat)+
  show ?thesis unfolding frame_at_def at above pushed_frame_def
    using w [of 1] w [of 2] w [of 3] w [of 4] w [of 5] w [of 6] w [of 7] w [of 8] w [of 9] w [of 10] w [of 11] w [of 12] w [of 13] w [of 14]
    by (simp add: stub_words_def)
qed

section \<open>The way out\<close>

definition frame_regs :: "interrupt_frame \<Rightarrow> u32 \<Rightarrow> reg \<Rightarrow> u32" where
  "frame_regs F sp r = (case r of EAX \<Rightarrow> f_eax F | ECX \<Rightarrow> f_ecx F | EDX \<Rightarrow> f_edx F | EBX \<Rightarrow> f_ebx F | ESP \<Rightarrow> sp | EBP \<Rightarrow> f_ebp F
     | ESI \<Rightarrow> f_esi F | EDI \<Rightarrow> f_edi F)"

lemma isr_exit_eq:
  fixes m :: machine
  defines "F \<equiv> frame_at (ram m) (regs m ESP + 4)"
  shows "exec c isr_exit m = m\<lparr>regs := frame_regs F (regs m ESP + 60), m_eip := f_eip F, m_eflags := f_eflags F,
     sregs := (sregs m)(DS := ucast (f_ds F), ES := ucast (f_ds F), FS := ucast (f_ds F), GS := ucast (f_ds F), CS := ucast (f_cs F))\<rparr>"
proof -
  have "regs (exec c isr_exit m) r = frame_regs F (regs m ESP + 60) r" for r
    by (cases r) (simp_all add: isr_exit_def popa_def machine_defs frame_regs_def F_def frame_at_def add.assoc)
  then have "regs (exec c isr_exit m) = frame_regs F (regs m ESP + 60)" by blast
  moreover have "exec c isr_exit m = m\<lparr>regs := regs (exec c isr_exit m), m_eip := f_eip F, m_eflags := f_eflags F,
     sregs := (sregs m)(DS := ucast (f_ds F), ES := ucast (f_ds F), FS := ucast (f_ds F), GS := ucast (f_ds F), CS := ucast (f_cs F))\<rparr>"
    by (simp add: isr_exit_def popa_def machine_defs F_def frame_at_def add.assoc)
  ultimately show ?thesis by simp
qed

text \<open>What the stub relies on when it calls a C function: the function removes its return address, and the frame is not
  changed. The registers are free to change: all but the stack pointer and its segment come from the frame.\<close>

definition returns_to_stub :: "(machine \<Rightarrow> machine) \<Rightarrow> machine \<Rightarrow> bool" where
  "returns_to_stub c m \<longleftrightarrow> regs (c m) ESP = regs m ESP + 4 \<and> sregs (c m) SS = sregs m SS
     \<and> (\<forall>x. in_range (regs m ESP + 8) 56 x \<longrightarrow> ram (c m) x = ram m x)"

lemma frame_kept_load:
  assumes "\<forall>x. in_range p 56 x \<longrightarrow> M' x = M x" and "unat d \<le> 52"
  shows "load32 M' (p + d) = load32 M (p + d)"
proof (rule load32_cong)
  fix k :: nat assume "k < 4"
  have "p + d + of_nat k - p = d + of_nat k" by simp
  then have "in_range p 56 (p + d + of_nat k)" using \<open>k < 4\<close> assms(2) by (simp add: in_range_def u32_add u32_of_nat)
  then show "M' (p + d + of_nat k) = M (p + d + of_nat k)" using assms(1) by blast
qed

lemma service_interrupt_eq:
  assumes "returns_to_stub c (handler_call ret g n err m)"
  shows "service_interrupt c ret g n err m = (c (handler_call ret g n err m))\<lparr>regs := regs m, m_eip := m_eip m, m_eflags := m_eflags m,
     sregs := (sregs (c (handler_call ret g n err m)))(DS := sregs m DS, ES := sregs m DS, FS := sregs m DS, GS := sregs m DS, CS := sregs m CS)\<rparr>"
proof -
  let ?M = "handler_call ret g n err m" and ?p = "regs m ESP - 56"
  have run: "service_interrupt c ret g n err m = exec c isr_exit (c ?M)"
  proof -
    have "exec c (isr_stub n @ isr_entry) u = exec (\<lambda>x. x) (isr_stub n @ isr_entry) u" for u
      by (simp add: isr_stub_eq isr_entry_def exec_append)
    then show ?thesis unfolding service_interrupt_def isr_common_def handler_call_def by (simp add: exec_append)
  qed
  have esp: "regs (c ?M) ESP + 4 = ?p" "regs (c ?M) ESP + 60 = regs m ESP"
    and kept: "\<forall>x. in_range ?p 56 x \<longrightarrow> ram (c ?M) x = ram ?M x"
    using assms by (simp_all add: returns_to_stub_def handler_call_regs)
  let ?F = "frame_at (ram (c ?M)) ?p" and ?G = "frame_at (ram ?M) ?p"
  have G: "?G = pushed_frame n err m" by (rule handler_call_frame)
  note k = frame_kept_load [OF kept]
  have l: "load32 (ram (c ?M)) ?p = load32 (ram ?M) ?p" using k [of 0] by simp
  have F: "f_ds ?F = f_ds ?G" "f_edi ?F = f_edi ?G" "f_esi ?F = f_esi ?G" "f_ebp ?F = f_ebp ?G" "f_ebx ?F = f_ebx ?G" "f_edx ?F = f_edx ?G"
    "f_ecx ?F = f_ecx ?G" "f_eax ?F = f_eax ?G" "f_eip ?F = f_eip ?G" "f_cs ?F = f_cs ?G" "f_eflags ?F = f_eflags ?G"
    unfolding frame_at_def interrupt_frame.select_convs by (rule l, (rule k, simp)+)
  have "frame_regs ?F (regs m ESP) r = regs m r" for r by (cases r) (simp_all add: frame_regs_def F G pushed_frame_def)
  then have "frame_regs ?F (regs m ESP) = regs m" by blast
  then show ?thesis unfolding run isr_exit_eq esp F G by (simp add: pushed_frame_def)
qed

section \<open>Properties\<close>

text \<open>
  C21. After \<^verbatim>\<open>idt_init\<close> an interrupt of the kernel reaches \<^verbatim>\<open>interrupt_handler\<close> with what it needs. For each of the vectors 0 to
  47 the processor continues at the stub of that vector, in the kernel's code segment and with interrupts off. When the
  stub calls \<^verbatim>\<open>interrupt_handler\<close> the argument points to a frame that holds the interrupted code's registers, the vector,
  and the processor's error code or 0; the data segments are the kernel's; and of the memory only the 64
  bytes below the interrupted stack pointer have changed.
\<close>

theorem interrupt_passes_frame:
  assumes "length (idt s) = 256" and "n < 48"
  shows "let g = idt (idt_init s) ! n; m0 = deliver g n err m; m1 = handler_call ret g n err m; p = load32 (ram m1) (regs m1 ESP + 4) in
      m_eip m0 = (if n < 32 then isr_sym (sym s) n else irq_sym (sym s) (n - 32)) \<and> sregs m0 CS = 0x08 \<and> \<not> bit (m_eflags m0) 9
    \<and> frame_at (ram m1) p = pushed_frame n err m \<and> p = regs m ESP - 56 \<and> (\<forall>r \<in> {DS, ES, FS, GS}. sregs m1 r = 0x10)
    \<and> (\<forall>x. in_range (regs m ESP - 64) 64 x \<or> ram m1 x = ram m x)"
proof -
  define g where "g = idt (idt_init s) ! n"
  have "kernel_gate (if n < 32 then isr_sym (sym s) n else irq_sym (sym s) (n - 32)) g"
    using assms by (auto simp: g_def idt_init_tables nth_append kernel_gate_gate)
  then have gate: "gate_offset g = (if n < 32 then isr_sym (sym s) n else irq_sym (sym s) (n - 32))" "i_selector g = 0x08"
    by (simp_all add: kernel_gate_def)
  have bit9: "\<not> bit (x AND NOT 0x200 :: u32) 9" for x
  proof -
    have "(0x200 :: u32) = push_bit 9 1" by simp
    then show ?thesis by (simp only: bit_simps) simp
  qed
  have "load32 (ram (handler_call ret g n err m)) (regs (handler_call ret g n err m) ESP + 4) = regs m ESP - 56"
    using handler_call_stack(1) [of 14 ret g n err m] by (simp add: handler_call_regs stub_words_def)
  then show ?thesis unfolding Let_def g_def [symmetric]
    using gate bit9 handler_call_frame [of ret g n err m] handler_call_stack(2) [of m _ ret g n err]
    by (auto simp: deliver_def Let_def set_sreg_def handler_call_regs)
qed

text \<open>A timer interrupt that finds the registers numbered, and a function that clobbers what it may.\<close>

definition sample_machine :: machine where
  "sample_machine = \<lparr>regs = (\<lambda>r. case r of EAX \<Rightarrow> 1 | ECX \<Rightarrow> 2 | EDX \<Rightarrow> 3 | EBX \<Rightarrow> 4 | ESP \<Rightarrow> 0xC0410000 | EBP \<Rightarrow> 5 | ESI \<Rightarrow> 6 | EDI \<Rightarrow> 7),
     sregs = (\<lambda>r. case r of CS \<Rightarrow> 0x08 | _ \<Rightarrow> 0x10), m_eip = 0xC0101010, m_eflags = 0x202, gdtr = \<lparr>tp_limit = 23, tp_base = 0xC0112000\<rparr>,
     ram = (\<lambda>_. 0)\<rparr>"

definition sample_function :: "machine \<Rightarrow> machine" where
  "sample_function m = m\<lparr>regs := (\<lambda>r. if r = ESP then regs m ESP + 4 else 0), m_eip := load32 (ram m) (regs m ESP)\<rparr>"

theorem interrupt_passes_frame_witness:
  "length (idt sample_intr) = 256
   \<and> m_eip (deliver (idt (idt_init sample_intr) ! 33) 33 0 sample_machine) = 0xC0100210
   \<and> interrupt_number (frame_at (ram (handler_call 0xC0100440 (idt (idt_init sample_intr) ! 33) 33 0 sample_machine)) 0xC040FFC8) = 33"
proof -
  have len: "length (idt sample_intr) = 256" and n: "(33 :: nat) < 48" by (simp_all add: sample_intr_def)
  have p: "regs sample_machine ESP - 56 = 0xC040FFC8" "irq_sym (sym sample_intr) 1 = 0xC0100210"
    by (simp_all add: sample_machine_def sample_intr_def sample_symbols_def)
  from interrupt_passes_frame [OF len n, of 0 sample_machine "0xC0100440", unfolded Let_def] len p show ?thesis
    by (auto simp: pushed_frame_def)
qed

text \<open>
  C8. An interrupt is transparent to the code it interrupts. If the C code that the stub calls returns to it and leaves the
  frame alone, then after \<^verbatim>\<open>iret\<close> every general register, the stack pointer, the instruction pointer, the flags, the code
  and stack segments and DS are as before; ES, FS and GS hold the value of DS; and the memory is as the C code left it.
\<close>

theorem interrupt_transparent:
  assumes "returns_to_stub c (handler_call ret g n err m)"
  shows "let m' = service_interrupt c ret g n err m in
      regs m' = regs m \<and> m_eip m' = m_eip m \<and> m_eflags m' = m_eflags m
    \<and> sregs m' = (sregs m)(ES := sregs m DS, FS := sregs m DS, GS := sregs m DS)
    \<and> ram m' = ram (c (handler_call ret g n err m))"
proof -
  have ss: "sregs (c (handler_call ret g n err m)) SS = sregs m SS" using assms by (simp add: returns_to_stub_def handler_call_regs)
  have "((sregs (c (handler_call ret g n err m)))(DS := sregs m DS, ES := sregs m DS, FS := sregs m DS, GS := sregs m DS, CS := sregs m CS)) r
      = ((sregs m)(ES := sregs m DS, FS := sregs m DS, GS := sregs m DS)) r" for r
    by (cases r) (simp_all add: ss)
  then have "(sregs (c (handler_call ret g n err m)))(DS := sregs m DS, ES := sregs m DS, FS := sregs m DS, GS := sregs m DS, CS := sregs m CS)
      = (sregs m)(ES := sregs m DS, FS := sregs m DS, GS := sregs m DS)" by blast
  then show ?thesis unfolding service_interrupt_eq [OF assms] by (simp add: Let_def)
qed

theorem interrupt_transparent_witness:
  "\<forall>g. returns_to_stub sample_function (handler_call 0xC0100440 g 32 0 sample_machine)
   \<and> regs (service_interrupt sample_function 0xC0100440 g 32 0 sample_machine) EDX = 3
   \<and> m_eip (service_interrupt sample_function 0xC0100440 g 32 0 sample_machine) = 0xC0101010"
proof
  fix g
  have r: "returns_to_stub sample_function (handler_call 0xC0100440 g 32 0 sample_machine)"
    by (simp add: returns_to_stub_def sample_function_def)
  from interrupt_transparent [OF r] r
  show "returns_to_stub sample_function (handler_call 0xC0100440 g 32 0 sample_machine)
   \<and> regs (service_interrupt sample_function 0xC0100440 g 32 0 sample_machine) EDX = 3
   \<and> m_eip (service_interrupt sample_function 0xC0100440 g 32 0 sample_machine) = 0xC0101010"
    by (simp add: Let_def sample_machine_def)
qed

text \<open>
  \<^verbatim>\<open>gdt_flush\<close> loads the table register from the structure its argument points to, the data segments with 0x10 and the
  code segment with 0x08, and returns to its caller; of the general registers only EAX changes.
\<close>

lemma gdt_flush_loads:
  fixes m :: machine
  defines "p \<equiv> load32 (ram m) (regs m ESP + 4)"
  shows "exec c (gdt_flush off) m = m\<lparr>gdtr := \<lparr>tp_limit = ucast (load32 (ram m) p), tp_base = load32 (ram m) (p + 2)\<rparr>,
     sregs := (\<lambda>r. if r = CS then 0x08 else 0x10), m_eip := load32 (ram m) (regs m ESP),
     regs := (regs m)(EAX := (p AND 0xFFFF0000) OR 0x10, ESP := regs m ESP + 4)\<rparr>"
proof -
  have "sregs (exec c (gdt_flush off) m) r = (if r = CS then 0x08 else 0x10)" for r
    by (cases r) (simp_all add: gdt_flush_def machine_defs)
  then have "sregs (exec c (gdt_flush off) m) = (\<lambda>r. if r = CS then 0x08 else 0x10)" by blast
  moreover have "exec c (gdt_flush off) m = m\<lparr>gdtr := \<lparr>tp_limit = ucast (load32 (ram m) p), tp_base = load32 (ram m) (p + 2)\<rparr>,
     sregs := sregs (exec c (gdt_flush off) m), m_eip := load32 (ram m) (regs m ESP),
     regs := (regs m)(EAX := (p AND 0xFFFF0000) OR 0x10, ESP := regs m ESP + 4)\<rparr>"
    by (simp add: gdt_flush_def machine_defs p_def fun_upd_twist)
  ultimately show ?thesis by simp
qed

end
