(* ===== verification/Entry.thy ===== *)
theory Entry
  imports Paging
begin

text \<open>
  The entry code of the kernel, \<^verbatim>\<open>boot.asm\<close>. It runs at physical addresses, fills a page table and a page directory, turns
  paging on, continues in the higher half and calls \<^verbatim>\<open>kernel_main\<close>. The memory here is physical; an access after paging
  is on goes through the walk of the processor. The addresses of the labels are a record.
\<close>

section \<open>The code\<close>

record entry_symbols =
  start_sym :: u32
  boot_page_directory :: u32
  boot_page_table :: u32
  stack_top :: u32
  higher_half_start :: u32
  kernel_main_sym :: u32
  kernel_main_resume :: u32

record entry_state =
  phys :: memory
  en_eax :: u32
  en_ebx :: u32
  en_esi :: u32
  en_edi :: u32
  en_esp :: u32
  en_eip :: u32
  en_cr0 :: u32
  en_cr3 :: u32

abbreviation KERNEL_VIRTUAL_BASE :: u32 where "KERNEL_VIRTUAL_BASE \<equiv> 0xC0000000"

text \<open>The loops. \<^verbatim>\<open>jl\<close> compares signed numbers.\<close>

partial_function (option) fill_table :: "u32 \<Rightarrow> u32 \<Rightarrow> memory \<Rightarrow> memory option" where
  "fill_table ebx ecx m =
     (let m1 = store32 m ebx (ecx OR 0x003);
          ecx1 = ecx + 4096;
          ebx1 = ebx + 4
      in if sint ecx1 < 1024 * 4096 then fill_table ebx1 ecx1 m1 else Some m1)"

partial_function (option) clear_pd :: "u32 \<Rightarrow> u32 \<Rightarrow> memory \<Rightarrow> memory option" where
  "clear_pd ebx ecx m =
     (let m1 = store32 m (ebx + ecx * 4) 0x00000002;
          ecx1 = ecx + 1
      in if sint ecx1 < 1024 then clear_pd ebx ecx1 m1 else Some m1)"

text \<open>\<^verbatim>\<open>_start\<close> up to the jump into the higher half.\<close>

definition boot_start :: "entry_symbols \<Rightarrow> entry_state \<Rightarrow> entry_state option" where
  "boot_start sy e =
     (let e1 = e\<lparr>en_esi := en_eax e, en_edi := en_ebx e\<rparr> in
      case fill_table (boot_page_table sy - KERNEL_VIRTUAL_BASE) 0 (phys e1) of
        None \<Rightarrow> None
      | Some m1 \<Rightarrow>
          (case clear_pd (boot_page_directory sy - KERNEL_VIRTUAL_BASE) 0 m1 of
             None \<Rightarrow> None
           | Some m2 \<Rightarrow>
               let eax = (boot_page_table sy - KERNEL_VIRTUAL_BASE) OR 0x003;
                   ebx = boot_page_directory sy - KERNEL_VIRTUAL_BASE;
                   m3 = store32 m2 ebx eax;
                   m4 = store32 m3 (768 * 4 + ebx) eax
               in Some (e1\<lparr>phys := m4, en_ebx := ebx, en_cr3 := ebx, en_cr0 := en_cr0 e1 OR 0x80000000,
                           en_eax := higher_half_start sy, en_eip := higher_half_start sy\<rparr>)))"

text \<open>Memory as the processor sees it with paging on, for words that do not cross a page.\<close>

definition kernel_view :: "memory \<Rightarrow> memory" where
  "kernel_view P v = P (v - KERNEL_VIRTUAL_BASE)"

definition page_walk :: "entry_state \<Rightarrow> u32 \<Rightarrow> u32 option" where
  "page_walk e va = mmu_walk (kernel_view (phys e)) (en_cr3 e) va"

definition push_virtual :: "u32 \<Rightarrow> entry_state \<Rightarrow> entry_state option" where
  "push_virtual v e =
     (let sp = en_esp e - 4 in
      case page_walk e sp of
        None \<Rightarrow> None
      | Some pa \<Rightarrow> Some (e\<lparr>en_esp := sp, phys := store32 (phys e) pa v\<rparr>))"

definition boot_higher_half :: "entry_symbols \<Rightarrow> entry_state \<Rightarrow> entry_state option" where
  "boot_higher_half sy e =
     (case push_virtual (en_edi e) (e\<lparr>en_esp := stack_top sy\<rparr>) of
        None \<Rightarrow> None
      | Some e1 \<Rightarrow>
          (case push_virtual (en_esi e1) e1 of
             None \<Rightarrow> None
           | Some e2 \<Rightarrow>
               (case push_virtual (kernel_main_resume sy) e2 of
                  None \<Rightarrow> None
                | Some e3 \<Rightarrow> Some (e3\<lparr>en_eip := kernel_main_sym sy\<rparr>))))"

definition boot_asm :: "entry_symbols \<Rightarrow> entry_state \<Rightarrow> entry_state option" where
  "boot_asm sy e = (case boot_start sy e of None \<Rightarrow> None | Some e1 \<Rightarrow> boot_higher_half sy e1)"

section \<open>The loops end\<close>

lemma sint_small:
  assumes "unat (w :: u32) < 2147483648"
  shows "sint w = int (unat w)"
proof -
  have "sint w = signed_take_bit (LENGTH(32) - Suc 0) (uint w)" by (rule sint_uint)
  also have "LENGTH(32) - Suc 0 = 31" by simp
  also have "uint w = int (unat w)" by simp
  also have "signed_take_bit 31 (int (unat w)) = int (unat w)"
  proof (rule signed_take_bit_int_eq_self)
    have "(2 :: int) ^ 31 = 2147483648" by simp
    then show "- (2 ^ 31) \<le> int (unat w)" "int (unat w) < 2 ^ 31" using assms by linarith+
  qed
  finally show ?thesis .
qed

lemma fill_table_eq:
  assumes "k < 1024"
  shows "fill_table (entry_at table (of_nat k)) (4096 * of_nat k) m
    = Some (fold (\<lambda>i m. store32 m (entry_at table (of_nat i)) (linear_entry 0 i)) [k..<1024] m)"
  using assms
proof (induction "1023 - k" arbitrary: k m)
  case 0
  then have k: "k = 1023" by simp
  show ?case unfolding k by (subst fill_table.simps) (simp add: Let_def linear_entry_def entry_at_def sint_small)
next
  case (Suc n)
  have k: "Suc k < 1024" using Suc.hyps(2) by simp
  have u: "unat (4096 * of_nat (Suc k) :: u32) = 4096 * Suc k" using u32_of_nat [of "4096 * Suc k"] k by simp
  have e: "entry_at table (of_nat k) + 4 = entry_at table (of_nat (Suc k))" "4096 * of_nat k + 4096 = (4096 * of_nat (Suc k) :: u32)"
    by (simp_all add: entry_at_def)
  have v: "4096 * of_nat k OR 3 = linear_entry 0 k" by (simp add: linear_entry_def mult.commute)
  have "sint (4096 * of_nat (Suc k) :: u32) < 1024 * 4096" using u k by (subst sint_small) simp_all
  then show ?case
    using Suc.hyps(1) [of "Suc k"] Suc.hyps(2) k by (subst fill_table.simps) (simp add: Let_def e v upt_conv_Cons del: of_nat_Suc)
qed

lemma clear_pd_eq:
  assumes "k < 1024"
  shows "clear_pd d (of_nat k) m = Some (fill32 m (entry_at d (of_nat k)) (1024 - k) 2)"
  using assms
proof (induction "1023 - k" arbitrary: k m)
  case 0
  then have k: "k = 1023" by simp
  show ?case unfolding k by (subst clear_pd.simps) (simp add: Let_def entry_at_def sint_small)
next
  case (Suc n)
  have k: "Suc k < 1024" using Suc.hyps(2) by simp
  have e: "entry_at d (of_nat k) + 4 = entry_at d (of_nat (Suc k))" "of_nat k + 1 = (of_nat (Suc k) :: u32)" "d + of_nat k * 4 = entry_at d (of_nat k)"
    by (simp_all add: entry_at_def)
  have "sint (of_nat (Suc k) :: u32) < 1024" using k by (subst sint_small) (simp_all del: of_nat_Suc add: u32_of_nat)
  moreover have "1024 - k = Suc (1024 - Suc k)" using k by simp
  ultimately show ?case
    using Suc.hyps(1) [of "Suc k"] Suc.hyps(2) k by (subst clear_pd.simps) (simp add: Let_def e del: of_nat_Suc)
qed

section \<open>The boot page tables\<close>

definition boot_tables :: "u32 \<Rightarrow> u32 \<Rightarrow> memory \<Rightarrow> memory" where
  "boot_tables T D P = store32 (store32 (fill32 (linear_table T 0 P) D 1024 2) D (T OR 3)) (3072 + D) (T OR 3)"

lemma boot_start_eq:
  "boot_start sy e = Some (e\<lparr>en_esi := en_eax e, en_edi := en_ebx e,
     phys := boot_tables (boot_page_table sy - 0xC0000000) (boot_page_directory sy - 0xC0000000) (phys e),
     en_ebx := boot_page_directory sy - 0xC0000000, en_cr3 := boot_page_directory sy - 0xC0000000, en_cr0 := en_cr0 e OR 0x80000000,
     en_eax := higher_half_start sy, en_eip := higher_half_start sy\<rparr>)"
proof -
  have "fill_table T 0 m = Some (linear_table T 0 m)" for T m
    using fill_table_eq [of 0 T m] by (simp add: entry_at_def linear_table_def linear_entry_def Let_def)
  moreover have "clear_pd D 0 m = Some (fill32 m D 1024 2)" for D m
    using clear_pd_eq [of 0 D m] by (simp add: entry_at_def)
  ultimately show ?thesis by (simp add: boot_start_def boot_tables_def Let_def)
qed

lemma boot_entries:
  assumes al: "page_aligned T" "page_aligned D" and ne: "T \<noteq> D" and i: "unat i < 1024"
  shows "load32 (boot_tables T D P) (entry_at D i) = (if i = 0 \<or> i = 768 then T OR 3 else 2)"
    and "load32 (boot_tables T D P) (entry_at T i) = linear_entry 0 (unat i)"
proof -
  have at: "D = entry_at D 0" "3072 + D = entry_at D 768" by (simp_all add: entry_at_def)
  note slots = load_store_slot [OF al(2) _ _ i] load_fill_page [OF al(2) _ i] linear_table_load [OF al(1) _ i]
  have eq: "boot_tables T D P = store32 (store32 (fill32 (linear_table T 0 P) D 1024 2) (entry_at D 0) (T OR 3)) (entry_at D 768) (T OR 3)"
    unfolding boot_tables_def using at by simp
  show "load32 (boot_tables T D P) (entry_at D i) = (if i = 0 \<or> i = 768 then T OR 3 else 2)"
    "load32 (boot_tables T D P) (entry_at T i) = linear_entry 0 (unat i)"
    unfolding eq using slots al ne by auto
qed

lemma load32_view: "load32 (kernel_view P) (a + 0xC0000000) = load32 P a"
proof -
  have "a + 0xC0000000 + k - 0xC0000000 = a + k" for k :: u32 by simp
  then show ?thesis unfolding load32_def kernel_view_def by (simp add: algebra_simps)
qed

lemma low_address:
  assumes "va < 0x400000"
  shows "pd_index va = 0" and "of_nat (unat (pt_index va) * 4096) OR (va AND 0xFFF) = va"
proof -
  have v: "unat va < 4194304" using assms by (simp add: u32_less_iff)
  then show "pd_index va = 0" by (simp add: pd_index_def unat_drop22 u32_eq_iff)
  have u: "unat (va + 0xC0000000) = unat va + 3221225472" using v by (simp add: u32_add)
  have "3221225472 \<le> unat (va + 0xC0000000)" "unat (va + 0xC0000000) < 3225419776" using u v by simp_all
  then have w: "0xC0000000 \<le> va + 0xC0000000" "va + 0xC0000000 < 0xC1000000" by (simp_all add: u32_le_iff u32_less_iff)
  have pd: "unat (pd_index (va + 0xC0000000)) = 768" using u v by (simp add: pd_index_def unat_drop22)
  have "(unat va + 3221225472) div 4096 = unat va div 4096 + 786432" by simp
  moreover have "(unat va div 4096 + 786432) mod 1024 = unat va div 4096 mod 1024"
    using mod_mult_self1 [of "unat va div 4096" 768 1024] by simp
  ultimately have pt: "pt_index (va + 0xC0000000) = pt_index va" using u by (simp add: pt_index_def u32_eq_iff unat_drop12 unat_and_1023)
  have "(unat va + 3221225472) mod 4096 = unat va mod 4096" using mod_mult_self1 [of "unat va" 786432 4096] by simp
  then have off: "(va + 0xC0000000) AND 0xFFF = va AND 0xFFF" using u by (simp add: u32_eq_iff unat_and_4095)
  show "of_nat (unat (pt_index va) * 4096) OR (va AND 0xFFF) = va"
    using window_address(3) [OF w] unfolding pd pt off by simp
qed

definition boot_mapped :: "u32 \<Rightarrow> u32 \<Rightarrow> memory \<Rightarrow> bool" where
  "boot_mapped T D P \<longleftrightarrow> (\<forall>i. unat i < 1024 \<longrightarrow> load32 P (entry_at D i) = (if i = 0 \<or> i = 768 then T OR 3 else 2)
     \<and> load32 P (entry_at T i) = linear_entry 0 (unat i))"

lemma boot_mapped_walk:
  assumes al: "page_aligned T" "page_aligned D" and B: "boot_mapped T D P"
  shows "mmu_walk (kernel_view P) D va =
    (if va < 0x400000 then Some va else if 0xC0000000 \<le> va \<and> va < 0xC0400000 then Some (va - 0xC0000000) else None)"
proof -
  let ?B = P and ?i = "pd_index va" and ?j = "pt_index va"
  have i: "unat ?i < 1024" "unat ?j < 1024" by simp_all
  have walk: "mmu_walk (kernel_view ?B) D va =
      (let e = load32 ?B (entry_at D ?i); p = load32 ?B (entry_at (e AND 0xFFFFF000) ?j)
       in if bit e 0 \<and> bit p 0 then Some ((p AND 0xFFFFF000) OR (va AND 0xFFF)) else None)"
    using page_aligned_mask [OF al(2)] by (simp add: mmu_walk_def Let_def load32_view entry_at_def pd_index_def pt_index_def)
  have idx: "va < 0x400000 \<longleftrightarrow> ?i = 0" "0xC0000000 \<le> va \<and> va < 0xC0400000 \<longleftrightarrow> ?i = 768"
  proof -
    have "unat va < 4194304 \<longleftrightarrow> unat va div 4194304 = 0" "3221225472 \<le> unat va \<and> unat va < 3225419776 \<longleftrightarrow> unat va div 4194304 = 768"
      by auto
    then show "va < 0x400000 \<longleftrightarrow> ?i = 0" "0xC0000000 \<le> va \<and> va < 0xC0400000 \<longleftrightarrow> ?i = 768"
      by (simp_all add: pd_index_def u32_order unat_drop22)
  qed
  note e = present_writable [OF al(1)]
  show ?thesis
  proof (cases "?i = 0 \<or> ?i = 768")
    case True
    then have "load32 ?B (entry_at D ?i) = T OR 3" using B i(1) by (simp add: boot_mapped_def)
    then have "mmu_walk (kernel_view ?B) D va = Some (of_nat (unat ?j * 4096) OR (va AND 0xFFF))"
      unfolding walk using e B i(2) linear_entry_value [of 0 "unat ?j"] i(2) by (simp add: Let_def boot_mapped_def)
    moreover have "of_nat (unat ?j * 4096) OR (va AND 0xFFF) = va" if "?i = 0" using low_address(2) that idx(1) by blast
    moreover have "of_nat (unat ?j * 4096) OR (va AND 0xFFF) = va - 0xC0000000" if "?i = 768"
    proof -
      have "0xC0000000 \<le> va" "va < 0xC1000000" using that idx(2) by (auto intro: less_trans)
      from window_address(3) [OF this] that show ?thesis by simp
    qed
    ultimately show ?thesis using idx True by auto
  next
    case False
    then have "load32 ?B (entry_at D ?i) = 2" using B i(1) by (simp add: boot_mapped_def)
    then show ?thesis unfolding walk using False idx by (simp add: Let_def bit_0)
  qed
qed

section \<open>Into \<^verbatim>\<open>kernel_main\<close>\<close>

text \<open>The layout of the \<^verbatim>\<open>.bss\<close> section: directory, table and 16 KB of stack one after the other, within the 4 MB that the boot
  tables map.\<close>

definition entry_layout :: "entry_symbols \<Rightarrow> bool" where
  "entry_layout sy \<longleftrightarrow> page_aligned (boot_page_directory sy) \<and> boot_page_table sy = boot_page_directory sy + 4096
     \<and> stack_top sy = boot_page_directory sy + 24576 \<and> 0xC0000000 \<le> boot_page_directory sy \<and> boot_page_directory sy \<le> 0xC03FA000"

lemma entry_layout_phys:
  assumes "entry_layout sy"
  defines "D \<equiv> boot_page_directory sy - 0xC0000000"
  shows "page_aligned D" "boot_page_table sy - 0xC0000000 = D + 4096" "page_aligned (D + 4096)" "unat D + 24576 \<le> 4194304"
    "stack_top sy = D + 24576 + 0xC0000000"
proof -
  have l: "page_aligned (boot_page_directory sy)" "3221225472 \<le> unat (boot_page_directory sy)" "unat (boot_page_directory sy) \<le> 3225395200"
    using assms by (simp_all add: entry_layout_def u32_le_iff)
  have D: "unat D = unat (boot_page_directory sy) - 3221225472" unfolding D_def using l by (simp add: u32_sub)
  then show le: "unat D + 24576 \<le> 4194304" using l by linarith
  show al: "page_aligned D" using page_aligned_window(2) [OF l(1)] by (simp add: D_def VIRT_TO_PHYS_def)
  have "unat (D + 4096) = unat D + 4096" using le by (simp add: u32_add)
  then show "page_aligned (D + 4096)" using al by simp
  show "boot_page_table sy - 0xC0000000 = D + 4096" "stack_top sy = D + 24576 + 0xC0000000"
    using assms(1) by (simp_all add: entry_layout_def D_def)
qed

lemma boot_mapped_above:
  assumes "boot_mapped (D + 4096) D P" and "unat D + 24576 \<le> 4194304" and "unat D + 8192 \<le> unat a" "unat a + 4 \<le> 4194304"
  shows "boot_mapped (D + 4096) D (store32 P a v)"
proof -
  have sep: "sep4 a (entry_at D i)" "sep4 a (entry_at (D + 4096) i)" if "unat i < 1024" for i
  proof -
    have "unat (4 * i) = 4 * unat i" using that u32_of_nat [of "4 * unat i"] by simp
    then have "unat (entry_at D i) = unat D + 4 * unat i" "unat (entry_at (D + 4096) i) = unat D + 4096 + 4 * unat i"
      using that assms(2) by (simp_all add: entry_at_def u32_add)
    then show "sep4 a (entry_at D i)" "sep4 a (entry_at (D + 4096) i)" using that assms by (auto intro!: sep4I)
  qed
  then show ?thesis using assms(1) by (simp add: boot_mapped_def load32_store32_sep)
qed

lemma push_virtual_step:
  assumes B: "boot_mapped (D + 4096) D (phys e)" and al: "page_aligned D" "page_aligned (D + 4096)" and le: "unat D + 24576 \<le> 4194304"
    and cr3: "en_cr3 e = D" and sp: "en_esp e = a + 4 + 0xC0000000" "unat D + 8192 \<le> unat a" "unat a + 4 \<le> 4194304"
  shows "push_virtual v e = Some (e\<lparr>en_esp := a + 0xC0000000, phys := store32 (phys e) a v\<rparr>)"
    "boot_mapped (D + 4096) D (store32 (phys e) a v)"
proof -
  have u: "unat (a + 0xC0000000) = unat a + 3221225472" using sp(3) by (simp add: u32_add)
  then have w: "0xC0000000 \<le> a + 0xC0000000 \<and> a + 0xC0000000 < 0xC0400000" "\<not> a + 0xC0000000 < 0x400000"
    using sp(3) by (simp_all add: u32_le_iff u32_less_iff)
  have "page_walk e (a + 0xC0000000) = Some a"
    unfolding page_walk_def cr3 boot_mapped_walk [OF al(2,1) B] using w by simp
  moreover have "en_esp e - 4 = a + 0xC0000000" using sp(1) by simp
  ultimately show "push_virtual v e = Some (e\<lparr>en_esp := a + 0xC0000000, phys := store32 (phys e) a v\<rparr>)"
    by (simp only: push_virtual_def Let_def option.case)
  show "boot_mapped (D + 4096) D (store32 (phys e) a v)" by (rule boot_mapped_above [OF B le sp(2,3)])
qed

lemma boot_asm_eq:
  assumes lay: "entry_layout sy"
  defines "D \<equiv> boot_page_directory sy - 0xC0000000"
  defines "P \<equiv> boot_tables (D + 4096) D"
  defines "S \<equiv> (\<lambda>e. store32 (store32 (store32 (P (phys e)) (D + 24572) (en_ebx e)) (D + 24568) (en_eax e)) (D + 24564) (kernel_main_resume sy))"
  shows "boot_asm sy e = Some (e\<lparr>en_esi := en_eax e, en_edi := en_ebx e, phys := S e, en_ebx := D, en_cr3 := D,
      en_cr0 := en_cr0 e OR 0x80000000, en_eax := higher_half_start sy, en_eip := kernel_main_sym sy, en_esp := stack_top sy - 12\<rparr>)"
    "boot_mapped (D + 4096) D (S e)"
proof -
  note l = entry_layout_phys [OF lay, folded D_def]
  have ne: "D + 4096 \<noteq> D" by simp
  have u: "unat (D + 24572) = unat D + 24572" "unat (D + 24568) = unat D + 24568" "unat (D + 24564) = unat D + 24564"
    using l(4) by (simp_all add: u32_add)
  have sp: "stack_top sy = D + 24572 + 4 + 0xC0000000" "D + 24572 + 0xC0000000 = D + 24568 + 4 + 0xC0000000"
    "D + 24568 + 0xC0000000 = D + 24564 + 4 + 0xC0000000" "stack_top sy - 12 = D + 24564 + 0xC0000000" unfolding l(5) by simp_all
  define e1 where "e1 = e\<lparr>en_esi := en_eax e, en_edi := en_ebx e, phys := P (phys e), en_ebx := D, en_cr3 := D, en_cr0 := en_cr0 e OR 0x80000000,
      en_eax := higher_half_start sy, en_eip := higher_half_start sy\<rparr>"
  have start: "boot_start sy e = Some e1" unfolding boot_start_eq l(2) e1_def P_def D_def by simp
  have B: "boot_mapped (D + 4096) D (P m)" for m
    unfolding boot_mapped_def P_def using boot_entries [OF l(3,1) ne] by blast
  define e2 where "e2 = e1\<lparr>en_esp := stack_top sy\<rparr>"
  have "boot_mapped (D + 4096) D (phys e2)" "en_cr3 e2 = D" "en_esp e2 = D + 24572 + 4 + 0xC0000000" using B sp(1) by (simp_all add: e2_def e1_def)
  note p1 = push_virtual_step [OF this(1) l(1,3,4) this(2,3), of "en_edi e1"]
  define e3 where "e3 = e2\<lparr>en_esp := D + 24572 + 0xC0000000, phys := store32 (phys e2) (D + 24572) (en_edi e1)\<rparr>"
  have p1': "push_virtual (en_edi e1) e2 = Some e3" "boot_mapped (D + 4096) D (phys e3)" using p1 u l(4) by (simp_all add: e3_def)
  have "en_cr3 e3 = D" "en_esp e3 = D + 24568 + 4 + 0xC0000000" using sp(2) by (simp_all add: e3_def e2_def e1_def)
  note p2 = push_virtual_step [OF p1'(2) l(1,3,4) this, of "en_esi e3"]
  define e4 where "e4 = e3\<lparr>en_esp := D + 24568 + 0xC0000000, phys := store32 (phys e3) (D + 24568) (en_esi e3)\<rparr>"
  have p2': "push_virtual (en_esi e3) e3 = Some e4" "boot_mapped (D + 4096) D (phys e4)" using p2 u l(4) by (simp_all add: e4_def)
  have "en_cr3 e4 = D" "en_esp e4 = D + 24564 + 4 + 0xC0000000" using sp(3) by (simp_all add: e4_def e3_def e2_def e1_def)
  note p3 = push_virtual_step [OF p2'(2) l(1,3,4) this, of "kernel_main_resume sy"]
  have S: "S e = store32 (phys e4) (D + 24564) (kernel_main_resume sy)" by (simp add: S_def e4_def e3_def e2_def e1_def)
  show "boot_mapped (D + 4096) D (S e)" using p3(2) u l(4) by (simp add: S)
  have p3': "push_virtual (kernel_main_resume sy) e4 = Some (e4\<lparr>en_esp := stack_top sy - 12, phys := S e\<rparr>)"
    using p3(1) u l(4) unfolding S sp(4) by simp
  have "boot_asm sy e = Some (e4\<lparr>en_esp := stack_top sy - 12, phys := S e, en_eip := kernel_main_sym sy\<rparr>)"
    by (simp add: boot_asm_def start boot_higher_half_def p1'(1) p2'(1) p3' flip: e2_def)
  then show "boot_asm sy e = Some (e\<lparr>en_esi := en_eax e, en_edi := en_ebx e, phys := S e, en_ebx := D, en_cr3 := D,
      en_cr0 := en_cr0 e OR 0x80000000, en_eax := higher_half_start sy, en_eip := kernel_main_sym sy, en_esp := stack_top sy - 12\<rparr>)"
    by (simp add: e4_def e3_def e2_def e1_def)
qed

lemma linear_table_out:
  assumes "unat T + 4096 \<le> 4294967296" and "\<not> in_range T 4096 x"
  shows "linear_table T t m x = m x"
proof -
  have "fold (\<lambda>i m. store32 m (entry_at T (of_nat i)) (f i)) [0..<n] m x = m x" if "n \<le> 1024" for n f
    using that
  proof (induction n)
    case (Suc n)
    have "unat (4 * of_nat n :: u32) = 4 * n" using Suc.prems u32_of_nat [of "4 * n"] by simp
    then have e: "unat (entry_at T (of_nat n)) = unat T + 4 * n" using assms(1) Suc.prems by (simp add: entry_at_def u32_add)
    have "\<not> in_range (entry_at T (of_nat n)) 4 x"
      using assms(2) Suc.prems in_range_iff [of T 4096 x] in_range_iff [of "entry_at T (of_nat n)" 4 x] assms(1) e by auto
    then show ?case using Suc by (simp add: store32_byte_other)
  qed simp
  then show ?thesis unfolding linear_table_def Let_def by simp
qed

lemma boot_tables_out:
  assumes "unat D + 24576 \<le> 4194304" and x: "unat x < unat D \<or> unat D + 8192 \<le> unat x"
  shows "boot_tables (D + 4096) D P x = P x"
proof -
  have u: "unat (D + 4096) = unat D + 4096" "unat (3072 + D) = unat D + 3072" using assms(1) by (simp_all add: u32_add)
  have "\<not> in_range (D + 4096) 4096 x" "\<not> in_range D (4 * 1024) x" "\<not> in_range D 4 x" "\<not> in_range (3072 + D) 4 x"
    using x u assms(1) by (subst in_range_iff; auto)+
  then show ?thesis using u assms(1) by (simp add: boot_tables_def store32_byte_other fill32_out linear_table_out)
qed

lemma boot_asm_spec:
  assumes "entry_layout sy"
  shows "\<exists>e'. boot_asm sy e = Some e' \<and> en_eip e' = kernel_main_sym sy \<and> bit (en_cr0 e') 31
    \<and> (\<forall>va. page_walk e' va = (if va < 0x400000 then Some va
         else if 0xC0000000 \<le> va \<and> va < 0xC0400000 then Some (va - 0xC0000000) else None))
    \<and> (let sp = en_esp e' - 0xC0000000 in load32 (phys e') sp = kernel_main_resume sy
         \<and> load32 (phys e') (sp + 4) = en_eax e \<and> load32 (phys e') (sp + 8) = en_ebx e)
    \<and> (\<forall>x. in_range (boot_page_directory sy - 0xC0000000) 24576 x \<or> phys e' x = phys e x)"
proof -
  define D where "D = boot_page_directory sy - 0xC0000000"
  define S where "S = store32 (store32 (store32 (boot_tables (D + 4096) D (phys e)) (D + 24572) (en_ebx e)) (D + 24568) (en_eax e))
      (D + 24564) (kernel_main_resume sy)"
  note l = entry_layout_phys [OF assms, folded D_def]
  note r = boot_asm_eq [OF assms, of e, folded D_def, folded S_def]
  have u: "unat (D + 24572) = unat D + 24572" "unat (D + 24568) = unat D + 24568" "unat (D + 24564) = unat D + 24564"
    using l(4) by (simp_all add: u32_add)
  have sp: "stack_top sy - 12 - 0xC0000000 = D + 24564" "D + 24564 + 4 = D + 24568" "D + 24564 + 8 = D + 24572" unfolding l(5) by simp_all
  have words: "load32 S (D + 24564) = kernel_main_resume sy" "load32 S (D + 24568) = en_eax e" "load32 S (D + 24572) = en_ebx e"
    unfolding S_def using u l(4) by (simp_all add: load32_store32_sep sep4I)
  have out: "in_range D 24576 x \<or> S x = phys e x" for x
  proof (cases "in_range D 24576 x")
    case False
    then have x: "unat x < unat D \<or> unat D + 24576 \<le> unat x" using in_range_iff [of D 24576 x] l(4) by (simp add: not_le not_less)
    then have "\<not> in_range (D + 24572) 4 x" "\<not> in_range (D + 24568) 4 x" "\<not> in_range (D + 24564) 4 x"
      using u l(4) by (subst in_range_iff; auto)+
    then show ?thesis using boot_tables_out [OF l(4), of x] x by (auto simp: S_def store32_byte_other)
  qed simp
  have cr0: "bit (x OR 0x80000000 :: u32) 31" for x
  proof -
    have "(0x80000000 :: u32) = push_bit 31 1" by simp
    then show ?thesis by (simp only: bit_or_iff bit_push_bit_iff) simp
  qed
  show ?thesis unfolding r(1) D_def [symmetric]
    using boot_mapped_walk [OF l(3,1) r(2)] words [unfolded add.commute [of D]] out cr0 sp by (auto simp: page_walk_def Let_def)
qed

section \<open>Properties\<close>

text \<open>
  C9. \<^verbatim>\<open>boot.asm\<close> enters the kernel. Whatever the memory holds, its loops end, no access faults, and it arrives at \<^verbatim>\<open>kernel_main\<close> with
  paging on and a directory that maps the first 4 MB of physical memory twice and nothing else: at their own
  addresses, where the loader's data lie, and at 0xC0000000. On the stack are the return address, the magic number
  and the pointer that the loader passed. No byte of physical memory outside the kernel's directory, table and stack has
  changed.
\<close>

theorem boot_asm_enters_kernel:
  assumes "entry_layout sy"
  shows "\<exists>e'. boot_asm sy e = Some e' \<and> en_eip e' = kernel_main_sym sy \<and> bit (en_cr0 e') 31
    \<and> (\<forall>va. page_walk e' va = (if va < 0x400000 then Some va
         else if 0xC0000000 \<le> va \<and> va < 0xC0400000 then Some (va - 0xC0000000) else None))
    \<and> (let sp = en_esp e' - 0xC0000000 in load32 (phys e') sp = kernel_main_resume sy
         \<and> load32 (phys e') (sp + 4) = en_eax e \<and> load32 (phys e') (sp + 8) = en_ebx e)
    \<and> (\<forall>x. in_range (boot_page_directory sy - 0xC0000000) 24576 x \<or> phys e' x = phys e x)"
  by (rule boot_asm_spec [OF assms])

definition sample_entry :: entry_symbols where
  "sample_entry = \<lparr>start_sym = 0x100010, boot_page_directory = 0xC0106000, boot_page_table = 0xC0107000, stack_top = 0xC010C000, higher_half_start = 0xC0100500,
     kernel_main_sym = 0xC0101200, kernel_main_resume = 0xC0100510\<rparr>"

theorem boot_asm_enters_kernel_witness:
  "entry_layout sample_entry \<and> (\<exists>e'. boot_asm sample_entry \<lparr>phys = (\<lambda>_. 0), en_eax = 0x2BADB002, en_ebx = 0x5000, en_esi = 0, en_edi = 0,
      en_esp = 0, en_eip = 0x100020, en_cr0 = 0x11, en_cr3 = 0\<rparr> = Some e' \<and> page_walk e' 0xC0101200 = Some 0x101200
      \<and> page_walk e' 0x5000 = Some 0x5000 \<and> page_walk e' 0xC0400000 = None)"
proof -
  have l: "entry_layout sample_entry" by (simp add: entry_layout_def sample_entry_def)
  show ?thesis using boot_asm_enters_kernel [OF l] l by fastforce
qed

end
