(* ===== verification/Loader.thy ===== *)
theory Loader
  imports Entry
begin

text \<open>
  The protected-mode half of the boot loader, \<^verbatim>\<open>stage2.asm\<close>: \<^verbatim>\<open>elf_load\<close> places the segments of the kernel file, and
  \<^verbatim>\<open>build_multiboot\<close> turns the memory map of the BIOS into the one a multiboot kernel expects. Addresses are physical, the
  segments are flat. The variables of the loader that hold fields of the ELF header are values of the model; its
  stack, which lies just below 0x90000, and what it prints on the screen are left out.
\<close>

section \<open>The multiboot information\<close>

abbreviation (input) MMAP_ENTRIES :: u32 where "MMAP_ENTRIES \<equiv> 0x6000"
abbreviation (input) MMAP_DATA :: u32 where "MMAP_DATA \<equiv> 0x6004"
abbreviation (input) MBOOT_INFO :: u32 where "MBOOT_INFO \<equiv> 0x5000"
abbreviation (input) MBOOT_MMAP :: u32 where "MBOOT_MMAP \<equiv> 0x5100"

text \<open>One entry: the copy, then the sizes of lower and upper memory.\<close>

definition mb_copy :: "u32 \<Rightarrow> u32 \<Rightarrow> memory \<Rightarrow> memory" where
  "mb_copy esi edi m =
     (let m1 = store32 m edi 20;
          m2 = store32 m1 (edi + 4) (load32 m1 esi);
          m3 = store32 m2 (edi + 8) (load32 m2 (esi + 4));
          m4 = store32 m3 (edi + 12) (load32 m3 (esi + 8));
          m5 = store32 m4 (edi + 16) (load32 m4 (esi + 12))
      in store32 m5 (edi + 20) (load32 m5 (esi + 16)))"

definition mb_sizes :: "u32 \<Rightarrow> memory \<Rightarrow> memory" where
  "mb_sizes esi m =
     (let m1 = (if load32 m (esi + 16) = 1 \<and> load32 m esi = 0 \<and> load32 m (esi + 4) = 0
                then store32 m (MBOOT_INFO + 4) (drop_bit 10 (load32 m (esi + 8))) else m)
      in if load32 m1 (esi + 16) = 1 \<and> load32 m1 (esi + 4) = 0 \<and> load32 m1 esi = 0x100000
         then store32 m1 (MBOOT_INFO + 8) (drop_bit 10 (load32 m1 (esi + 8))) else m1)"

text \<open>The loop; the first argument is the counter ECX.\<close>

fun mb_convert :: "nat \<Rightarrow> u32 \<Rightarrow> u32 \<Rightarrow> u32 \<Rightarrow> memory \<Rightarrow> u32 \<times> memory" where
  "mb_convert 0 esi edi edx m = (edx, m)"
| "mb_convert (Suc ecx) esi edi edx m =
     mb_convert ecx (esi + 24) (edi + 24) (edx + 24) (mb_sizes esi (mb_copy esi edi m))"

definition build_multiboot :: "u32 \<Rightarrow> memory \<Rightarrow> memory" where
  "build_multiboot mboot_name m =
     (let m1 = fill32 m MBOOT_INFO 22 0;
          (edx, m2) = mb_convert (unat (load32 m1 MMAP_ENTRIES)) MMAP_DATA MBOOT_MMAP 0 m1;
          m3 = store32 m2 MBOOT_INFO 0x241;
          m4 = store32 m3 (MBOOT_INFO + 44) edx;
          m5 = store32 m4 (MBOOT_INFO + 48) MBOOT_MMAP
      in store32 m5 (MBOOT_INFO + 64) mboot_name)"

section \<open>The memory map\<close>

text \<open>Entry \<^term>\<open>i\<close> of the map of the BIOS as the kernel reads it: of base and length it takes the low words.\<close>

definition e820_entry :: "memory \<Rightarrow> nat \<Rightarrow> mmap_entry" where
  "e820_entry m i =
     (let a = MMAP_DATA + 24 * of_nat i
      in \<lparr>entry_size = 20, entry_base = load32 m a, entry_length = load32 m (a + 8), entry_type = load32 m (a + 16)\<rparr>)"

text \<open>All six words of an entry of the multiboot map, and what they are to be for entry \<^term>\<open>i\<close> of the BIOS.\<close>

definition mmap_words :: "memory \<Rightarrow> u32 \<Rightarrow> u32 list" where
  "mmap_words m p = [load32 m p, load32 m (p + 4), load32 m (p + 8), load32 m (p + 12), load32 m (p + 16), load32 m (p + 20)]"

definition e820_words :: "memory \<Rightarrow> nat \<Rightarrow> u32 list" where
  "e820_words m i =
     (let a = MMAP_DATA + 24 * of_nat i
      in [20, load32 m a, load32 m (a + 4), load32 m (a + 8), load32 m (a + 12), load32 m (a + 16)])"

text \<open>What the loop changes: the sizes, and the entries it has written.\<close>

definition mb_out :: "nat \<Rightarrow> u32 \<Rightarrow> bool" where
  "mb_out k x \<longleftrightarrow> 0x5004 \<le> unat x \<and> unat x < 0x500C \<or> 0x5100 \<le> unat x \<and> unat x < 0x5100 + 24 * k"

lemma store32_unat_other: "unat a + 4 \<le> 4294967296 \<Longrightarrow> unat x < unat a \<or> unat a + 4 \<le> unat x \<Longrightarrow> store32 m a v x = m x"
  by (rule store32_byte_other) (auto simp: in_range_iff)

lemma mb_sizes_out:
  assumes "\<not> mb_out 0 x"
  shows "mb_sizes esi m x = m x"
proof -
  have "store32 M 0x5004 v x = M x" "store32 M 0x5008 v x = M x" for M v
    using assms by (auto intro!: store32_unat_other simp: mb_out_def)
  then show ?thesis by (simp add: mb_sizes_def Let_def)
qed

lemma mb_copy_out:
  assumes "unat edi + 24 \<le> 4294967296" and "unat x < unat edi \<or> unat edi + 24 \<le> unat x"
  shows "mb_copy esi edi m x = m x"
proof -
  have u: "unat (edi + 4) = unat edi + 4" "unat (edi + 8) = unat edi + 8" "unat (edi + 12) = unat edi + 12"
    "unat (edi + 16) = unat edi + 16" "unat (edi + 20) = unat edi + 20" using assms(1) by (simp_all add: u32_add)
  have "store32 M edi v x = M x" "store32 M (edi + 4) v x = M x" "store32 M (edi + 8) v x = M x" "store32 M (edi + 12) v x = M x"
    "store32 M (edi + 16) v x = M x" "store32 M (edi + 20) v x = M x" for M v
    using assms u by (auto intro!: store32_unat_other)
  then show ?thesis by (simp add: mb_copy_def Let_def)
qed

definition read_entry :: "memory \<Rightarrow> u32 \<Rightarrow> mmap_entry" where
  "read_entry m p = \<lparr>entry_size = mmap_size m p, entry_base = mmap_base m p, entry_length = mmap_length m p, entry_type = mmap_type m p\<rparr>"

lemma load32_unat_cong:
  assumes "unat a + 4 \<le> 4294967296" and "\<And>x. unat a \<le> unat x \<Longrightarrow> unat x < unat a + 4 \<Longrightarrow> M x = M' x"
  shows "load32 M a = load32 M' a"
proof (rule load32_cong)
  fix k :: nat assume "k < 4"
  then have "unat (a + of_nat k) = unat a + k" using assms(1) by (simp add: u32_add u32_of_nat)
  then show "M (a + of_nat k) = M' (a + of_nat k)" using \<open>k < 4\<close> by (intro assms(2)) simp_all
qed

lemma mb_copy_entry:
  assumes d: "unat edi + 24 \<le> unat esi" and s: "unat esi + 24 \<le> 4294967296"
  shows "mmap_words (mb_copy esi edi m) edi =
    [20, load32 m esi, load32 m (esi + 4), load32 m (esi + 8), load32 m (esi + 12), load32 m (esi + 16)]"
proof -
  have u: "unat (edi + 4) = unat edi + 4" "unat (edi + 8) = unat edi + 8" "unat (edi + 12) = unat edi + 12"
    "unat (edi + 16) = unat edi + 16" "unat (edi + 20) = unat edi + 20"
    "unat (esi + 4) = unat esi + 4" "unat (esi + 8) = unat esi + 8" "unat (esi + 12) = unat esi + 12" "unat (esi + 16) = unat esi + 16"
    using d s by (simp_all add: u32_add)
  have sep: "load32 (store32 M a v) b = load32 M b" if "unat a + 4 \<le> unat b \<or> unat b + 4 \<le> unat a" "unat a + 4 \<le> 4294967296" "unat b + 4 \<le> 4294967296"
    for M a v b by (rule load32_store32_sep, rule sep4I) (use that in auto)
  show ?thesis using u d s by (simp add: mb_copy_def Let_def mmap_words_def sep)
qed

definition mb_changes :: "nat \<Rightarrow> nat \<Rightarrow> u32 \<Rightarrow> bool" where
  "mb_changes k l x \<longleftrightarrow> 0x5004 \<le> unat x \<and> unat x < 0x500C \<or> 0x5100 + 24 * k \<le> unat x \<and> unat x < 0x5100 + 24 * l"

lemma mb_addr: "k \<le> 160 \<Longrightarrow> unat (0x6004 + 24 * of_nat k :: u32) = 0x6004 + 24 * k"
  "k \<le> 160 \<Longrightarrow> unat (0x5100 + 24 * of_nat k :: u32) = 0x5100 + 24 * k"
proof -
  assume k: "k \<le> 160"
  have "unat (24 * of_nat k :: u32) = 24 * k" using k u32_of_nat [of "24 * k"] by simp
  then show "unat (0x6004 + 24 * of_nat k :: u32) = 0x6004 + 24 * k" "unat (0x5100 + 24 * of_nat k :: u32) = 0x5100 + 24 * k"
    using k by (simp_all add: u32_add)
qed

lemma mmap_words_cong:
  assumes "unat p + 24 \<le> 4294967296" and "\<And>x. unat p \<le> unat x \<Longrightarrow> unat x < unat p + 24 \<Longrightarrow> M x = M' x"
  shows "mmap_words M p = mmap_words M' p"
proof -
  have "unat (p + 4) = unat p + 4" "unat (p + 8) = unat p + 8" "unat (p + 12) = unat p + 12" "unat (p + 16) = unat p + 16"
    "unat (p + 20) = unat p + 20" using assms(1) by (simp_all add: u32_add)
  then show ?thesis unfolding mmap_words_def list.inject using assms by (auto intro!: load32_unat_cong)
qed

lemma e820_words_cong:
  assumes "i < 160" and "\<And>x. 0x6000 \<le> unat x \<Longrightarrow> unat x < 0x7000 \<Longrightarrow> M x = M' x"
  shows "e820_words M i = e820_words M' i"
proof -
  define a :: u32 where "a = 0x6004 + 24 * of_nat i"
  have u: "unat a = 0x6004 + 24 * i" using assms(1) by (simp add: mb_addr a_def)
  then have v: "unat (a + 4) = unat a + 4" "unat (a + 8) = unat a + 8" "unat (a + 12) = unat a + 12" "unat (a + 16) = unat a + 16"
    using assms(1) by (simp_all add: u32_add)
  have "load32 M b = load32 M' b" if "unat a \<le> unat b" "unat b \<le> unat a + 16" for b
    using that u assms by (intro load32_unat_cong assms(2)) auto
  then show ?thesis using v by (simp add: e820_words_def Let_def flip: a_def)
qed

text \<open>The kernel's view of an entry is part of its words.\<close>

lemma words_entry: "mmap_words m' p = e820_words m i \<Longrightarrow> read_entry m' p = e820_entry m i"
  by (simp add: mmap_words_def e820_words_def Let_def read_entry_def e820_entry_def mmap_size_def mmap_base_def mmap_length_def mmap_type_def)

lemma e820_entry_cong: "e820_words M i = e820_words M' i \<Longrightarrow> e820_entry M i = e820_entry M' i"
  by (simp add: e820_words_def e820_entry_def Let_def)

lemma mb_convert_spec:
  assumes "k + n \<le> 160"
  shows "\<exists>m'. mb_convert n (0x6004 + 24 * of_nat k) (0x5100 + 24 * of_nat k) (24 * of_nat k) m = (24 * of_nat (k + n), m')
    \<and> (\<forall>x. \<not> mb_changes k (k + n) x \<longrightarrow> m' x = m x) \<and> (\<forall>i. k \<le> i \<and> i < k + n \<longrightarrow> mmap_words m' (0x5100 + 24 * of_nat i) = e820_words m i)"
  using assms
proof (induction n arbitrary: k m)
  case (Suc n)
  let ?s = "0x6004 + 24 * of_nat k :: u32" and ?d = "0x5100 + 24 * of_nat k :: u32"
  define m1 where "m1 = mb_sizes ?s (mb_copy ?s ?d m)"
  have u: "unat ?s = 0x6004 + 24 * k" "unat ?d = 0x5100 + 24 * k" using Suc.prems by (simp_all add: mb_addr)
  have out: "m1 x = m x" if "\<not> mb_changes k (Suc k) x" for x
  proof -
    have "\<not> mb_out 0 x" "unat x < unat ?d \<or> unat ?d + 24 \<le> unat x" using that u by (auto simp: mb_changes_def mb_out_def)
    then show ?thesis using u Suc.prems by (simp add: m1_def mb_sizes_out mb_copy_out)
  qed
  have "mmap_words m1 ?d = mmap_words (mb_copy ?s ?d m) ?d"
    using u Suc.prems unfolding m1_def by (intro mmap_words_cong mb_sizes_out) (auto simp: mb_out_def)
  also have "\<dots> = e820_words m k" using mb_copy_entry [of ?d ?s m] u Suc.prems by (simp add: e820_words_def Let_def)
  finally have here: "mmap_words m1 ?d = e820_words m k" .
  have keep: "e820_words m1 i = e820_words m i" if "i < 160" for i
    using that Suc.prems by (intro e820_words_cong out) (auto simp: mb_changes_def)
  obtain m' where m': "mb_convert n (0x6004 + 24 * of_nat (Suc k)) (0x5100 + 24 * of_nat (Suc k)) (24 * of_nat (Suc k)) m1 = (24 * of_nat (Suc k + n), m')"
    "\<And>x. \<not> mb_changes (Suc k) (Suc k + n) x \<Longrightarrow> m' x = m1 x"
    "\<And>i. Suc k \<le> i \<Longrightarrow> i < Suc k + n \<Longrightarrow> mmap_words m' (0x5100 + 24 * of_nat i) = e820_words m1 i"
    using Suc.IH [of "Suc k" m1] Suc.prems by auto
  have "?s + 24 = 0x6004 + 24 * of_nat (Suc k)" "?d + 24 = 0x5100 + 24 * of_nat (Suc k)" "24 * of_nat k + 24 = (24 * of_nat (Suc k) :: u32)"
    by simp_all
  then have run: "mb_convert (Suc n) ?s ?d (24 * of_nat k) m = (24 * of_nat (k + Suc n), m')"
    using m'(1) by (simp only: mb_convert.simps m1_def add_Suc add_Suc_right)
  have "m' x = m x" if "\<not> mb_changes k (k + Suc n) x" for x
    using that m'(2) [of x] out [of x] by (auto simp: mb_changes_def)
  moreover have "mmap_words m' (0x5100 + 24 * of_nat i) = e820_words m i" if "k \<le> i" "i < k + Suc n" for i
  proof (cases "i = k")
    case True
    have "mmap_words m' ?d = mmap_words m1 ?d" using u Suc.prems by (intro mmap_words_cong m'(2)) (auto simp: mb_changes_def)
    then show ?thesis using here True by simp
  qed (use that m'(3) keep Suc.prems in auto)
  ultimately show ?case using run by blast
qed auto

lemma mmap_at_entries:
  assumes "n \<le> 160" and "\<And>i. k \<le> i \<Longrightarrow> i < n \<Longrightarrow> read_entry m (0x5100 + 24 * of_nat i) = f i \<and> entry_size (f i) = 20" and "k \<le> n"
  shows "mmap_at m (0x5100 + 24 * of_nat k) (0x5100 + 24 * of_nat n) (map f [k..<n])"
  using assms
proof (induction "n - k" arbitrary: k)
  case (Suc l)
  have k: "k < n" using Suc.hyps(2) by simp
  have IH: "mmap_at m (0x5100 + 24 * of_nat (Suc k)) (0x5100 + 24 * of_nat n) (map f [Suc k..<n])"
    using Suc.hyps(2) Suc.prems by (intro Suc.hyps(1)) auto
  have r: "f k = read_entry m (0x5100 + 24 * of_nat k)" "entry_size (f k) = 20" using Suc.prems(2) [of k] k by simp_all
  have "mmap_size m (0x5100 + 24 * of_nat k) = entry_size (f k)" "mmap_base m (0x5100 + 24 * of_nat k) = entry_base (f k)"
    "mmap_length m (0x5100 + 24 * of_nat k) = entry_length (f k)" "mmap_type m (0x5100 + 24 * of_nat k) = entry_type (f k)"
    unfolding r(1) by (simp_all add: read_entry_def)
  moreover have "(0x5100 + 24 * of_nat k :: u32) < 0x5100 + 24 * of_nat n"
    using mb_addr(2) [of k] mb_addr(2) [of n] k Suc.prems(1) by (simp add: u32_less_iff)
  moreover have "0x5100 + 24 * of_nat k + entry_size (f k) + 4 = (0x5100 + 24 * of_nat (Suc k) :: u32)"
    using r(2) by simp
  ultimately show ?case using IH k by (simp only: upt_conv_Cons list.map mmap_at.simps)
qed simp

text \<open>The bytes of the multiboot information with \<^term>\<open>n\<close> entries.\<close>

definition mboot_bytes :: "nat \<Rightarrow> u32 set" where
  "mboot_bytes n = {x. 0x5000 \<le> unat x \<and> unat x < 0x5058 \<or> 0x5100 \<le> unat x \<and> unat x < 0x5100 + 24 * n}"

lemma build_multiboot_spec:
  assumes n: "unat (load32 m 0x6000) = n" "n \<le> 160"
  shows "mbi_flags (build_multiboot name m) 0x5000 = 0x241" "mbi_mmap_addr (build_multiboot name m) 0x5000 = 0x5100"
    "mbi_mmap_length (build_multiboot name m) 0x5000 = 24 * of_nat n"
    "i < n \<Longrightarrow> mmap_words (build_multiboot name m) (0x5100 + 24 * of_nat i) = e820_words m i"
    "x \<notin> mboot_bytes n \<Longrightarrow> build_multiboot name m x = m x"
    "load32 (build_multiboot name m) 0x5040 = name"
proof -
  define m1 where "m1 = fill32 m 0x5000 22 0"
  have m1: "m1 x = m x" if "unat x < 0x5000 \<or> 0x5058 \<le> unat x" for x
    unfolding m1_def using that by (intro fill32_out) (auto simp: in_range_iff)
  have c: "load32 m1 0x6000 = load32 m 0x6000" by (rule load32_unat_cong) (auto intro!: m1)
  obtain m2 where m2: "mb_convert n 0x6004 0x5100 0 m1 = (24 * of_nat n, m2)" "\<And>x. \<not> mb_changes 0 n x \<Longrightarrow> m2 x = m1 x"
    "\<And>i. i < n \<Longrightarrow> mmap_words m2 (0x5100 + 24 * of_nat i) = e820_words m1 i"
    using mb_convert_spec [of 0 n m1] n(2) by auto
  define m' where "m' = store32 (store32 (store32 (store32 m2 0x5000 0x241) 0x502C (24 * of_nat n)) 0x5030 0x5100) 0x5040 name"
  have eq: "build_multiboot name m = m'" using m2(1) n(1) c by (simp add: build_multiboot_def Let_def m'_def flip: m1_def)
  show "mbi_flags (build_multiboot name m) 0x5000 = 0x241" "mbi_mmap_addr (build_multiboot name m) 0x5000 = 0x5100"
    "mbi_mmap_length (build_multiboot name m) 0x5000 = 24 * of_nat n" "load32 (build_multiboot name m) 0x5040 = name"
    unfolding eq m'_def mbi_flags_def mbi_mmap_addr_def mbi_mmap_length_def by (simp_all add: load32_store32_sep sep4_def)
  have m': "m' x = m2 x" if "unat x < 0x5000 \<or> 0x5058 \<le> unat x" for x
  proof -
    have "store32 M 0x5000 v x = M x" "store32 M 0x502C v x = M x" "store32 M 0x5030 v x = M x" "store32 M 0x5040 v x = M x" for M v
      using that by (auto intro!: store32_unat_other)
    then show ?thesis by (simp add: m'_def)
  qed
  show "mmap_words (build_multiboot name m) (0x5100 + 24 * of_nat i) = e820_words m i" if "i < n"
  proof -
    have "mmap_words m' (0x5100 + 24 * of_nat i) = mmap_words m2 (0x5100 + 24 * of_nat i)"
      using mb_addr(2) [of i] that n(2) by (intro mmap_words_cong m') auto
    then show ?thesis using m2(3) [OF that] e820_words_cong [of i m1 m] m1 that n(2) unfolding eq by auto
  qed
  show "build_multiboot name m x = m x" if "x \<notin> mboot_bytes n"
  proof -
    have "unat x < 0x5000 \<or> 0x5058 \<le> unat x" "\<not> mb_changes 0 n x" using that by (auto simp: mboot_bytes_def mb_changes_def)
    then show ?thesis using m' m2(2) m1 by (simp add: eq)
  qed
qed

text \<open>What a reader finds who sees the loader's page as it is.\<close>

lemma build_multiboot_read:
  assumes n: "unat (load32 m 0x6000) = n" "n \<le> 160"
    and M: "\<And>x. 0x5000 \<le> unat x \<Longrightarrow> unat x < 0x6000 \<Longrightarrow> M x = build_multiboot name m x"
  shows "mbi_flags M 0x5000 = 0x241" "mbi_mmap_addr M 0x5000 = 0x5100" "mbi_mmap_length M 0x5000 = 24 * of_nat n"
    "mmap_at M 0x5100 (0x5100 + 24 * of_nat n) (map (e820_entry m) [0..<n])"
proof -
  note b = build_multiboot_spec [OF n, where name = name]
  have "load32 M a = load32 (build_multiboot name m) a" if "0x5000 \<le> unat a" "unat a + 4 \<le> 0x6000" for a
    using that by (intro load32_unat_cong M) auto
  then show "mbi_flags M 0x5000 = 0x241" "mbi_mmap_addr M 0x5000 = 0x5100" "mbi_mmap_length M 0x5000 = 24 * of_nat n"
    using b(1-3) by (simp_all add: mbi_flags_def mbi_mmap_addr_def mbi_mmap_length_def)
  have "read_entry M (0x5100 + 24 * of_nat i) = e820_entry m i" if "i < n" for i
    using mb_addr(2) [of i] that n(2) by (intro words_entry) (subst b(4) [OF that, symmetric], auto intro!: mmap_words_cong M)
  then show "mmap_at M 0x5100 (0x5100 + 24 * of_nat n) (map (e820_entry m) [0..<n])"
    using mmap_at_entries [of n 0 M "e820_entry m"] n(2) by (simp add: e820_entry_def Let_def)
qed

section \<open>The kernel file\<close>

abbreviation (input) ELF_BASE :: u32 where "ELF_BASE \<equiv> 0x10000"

definition load16 :: "memory \<Rightarrow> u32 \<Rightarrow> u16" where
  "load16 m a = ucast (m a) OR push_bit 8 (ucast (m (a + 1)))"

text \<open>\<^verbatim>\<open>rep movsb\<close>; \<^verbatim>\<open>rep stosb\<close> with AL = 0 is \<^const>\<open>zero_bytes\<close>.\<close>

fun copy_bytes :: "memory \<Rightarrow> u32 \<Rightarrow> u32 \<Rightarrow> nat \<Rightarrow> memory" where
  "copy_bytes m esi edi 0 = m"
| "copy_bytes m esi edi (Suc ecx) = copy_bytes (m(edi := m esi)) (esi + 1) (edi + 1) ecx"

definition elf_valid :: "memory \<Rightarrow> bool" where
  "elf_valid m \<longleftrightarrow> load32 m ELF_BASE = 0x464C457F \<and> m (ELF_BASE + 4) = 1 \<and> m (ELF_BASE + 5) = 1
     \<and> load16 m (ELF_BASE + 16) = 2 \<and> load16 m (ELF_BASE + 18) = 3"

text \<open>One program header: the copy of the file's bytes, and zeros behind them.\<close>

definition elf_segment :: "u32 \<Rightarrow> memory \<Rightarrow> memory" where
  "elf_segment ebx m =
     (if load32 m ebx \<noteq> 1 then m
      else
        let esi = load32 m (ebx + 4) + ELF_BASE;
            edi = load32 m (ebx + 12);
            ecx = load32 m (ebx + 16);
            m1 = copy_bytes m esi edi (unat ecx);
            memsz = load32 m1 (ebx + 20);
            filesz = load32 m1 (ebx + 16)
        in if memsz \<le> filesz then m1 else zero_bytes m1 (edi + ecx) (unat (memsz - filesz)))"

fun elf_phdr_loop :: "u16 \<Rightarrow> nat \<Rightarrow> u32 \<Rightarrow> memory \<Rightarrow> memory" where
  "elf_phdr_loop phentsize 0 ebx m = m"
| "elf_phdr_loop phentsize (Suc ecx) ebx m = elf_phdr_loop phentsize ecx (ebx + ucast phentsize) (elf_segment ebx m)"

text \<open>The entry point and the memory, or nothing if the file is not an executable for this machine and the loader halts.\<close>

definition elf_load :: "memory \<Rightarrow> (u32 \<times> memory) option" where
  "elf_load m =
     (if \<not> elf_valid m then None
      else
        let kernel_entry = load32 m (ELF_BASE + 24);
            phoff = load32 m (ELF_BASE + 28);
            phentsize = load16 m (ELF_BASE + 42);
            phnum = load16 m (ELF_BASE + 44)
        in Some (kernel_entry, elf_phdr_loop phentsize (unat phnum) (phoff + ELF_BASE) m))"

lemma copy_bytes_eq:
  assumes "unat s + n \<le> unat d" and "unat d + n < 4294967296"
  shows "copy_bytes m s d n x = (if unat d \<le> unat x \<and> unat x < unat d + n then m (s + (x - d)) else m x)"
  using assms
proof (induction n arbitrary: m s d)
  case (Suc n)
  have u: "unat (s + 1) = unat s + 1" "unat (d + 1) = unat d + 1" using Suc.prems by (simp_all add: u32_add)
  have IH: "copy_bytes (m(d := m s)) (s + 1) (d + 1) n x =
      (if unat d + 1 \<le> unat x \<and> unat x < unat d + 1 + n then (m(d := m s)) (s + 1 + (x - (d + 1))) else (m(d := m s)) x)"
    using Suc.IH [of "s + 1" "d + 1"] Suc.prems u by simp
  show ?case
  proof (cases "unat d + 1 \<le> unat x \<and> unat x < unat d + 1 + n")
    case True
    have "unat (x - d) = unat x - unat d" using True by (simp add: u32_sub)
    then have "unat (s + (x - d)) = unat s + (unat x - unat d)" using True Suc.prems by (simp add: u32_add) linarith
    then have "s + (x - d) \<noteq> d" using True Suc.prems by (auto simp: u32_eq_iff)
    moreover have "s + 1 + (x - (d + 1)) = s + (x - d)" by simp
    ultimately show ?thesis using IH True by simp
  next
    case False
    show ?thesis
    proof (cases "x = d")
      case True
      then show ?thesis using IH False by simp
    next
      case ne: False
      then have "unat x \<noteq> unat d" by (simp add: u32_eq_iff)
      then show ?thesis using IH False ne by auto
    qed
  qed
qed auto

lemma zero_bytes_eq:
  assumes "unat d + n < 4294967296"
  shows "zero_bytes m d n x = (if unat d \<le> unat x \<and> unat x < unat d + n then 0 else m x)"
  using zero_bytes_in [of n d x m] zero_bytes_out [of d n x m] in_range_iff [of d n x] assms by auto

text \<open>The segment a program header describes, in the memory \<^term>\<open>m\<close> in which the file lies: below the
  loader's stack, with the segments above 1 MB.\<close>

definition seg_size :: "memory \<Rightarrow> u32 \<Rightarrow> nat" where
  "seg_size m p = max (unat (load32 m (p + 16))) (unat (load32 m (p + 20)))"

definition seg_range :: "memory \<Rightarrow> u32 \<Rightarrow> nat set" where
  "seg_range m p = (if load32 m p = 1 then {unat (load32 m (p + 12))..<unat (load32 m (p + 12)) + seg_size m p} else {})"

definition phdr_ok :: "memory \<Rightarrow> u32 \<Rightarrow> bool" where
  "phdr_ok m p \<longleftrightarrow> unat p + 24 \<le> 0x8F000
     \<and> (load32 m p = 1 \<longrightarrow> unat (load32 m (p + 4) + ELF_BASE) + unat (load32 m (p + 16)) \<le> 0x8F000
          \<and> 0x100000 \<le> unat (load32 m (p + 12)) \<and> unat (load32 m (p + 12)) + seg_size m p < 4294967296)"

definition seg_byte :: "memory \<Rightarrow> u32 \<Rightarrow> u32 \<Rightarrow> u8" where
  "seg_byte m p x =
     (let d = load32 m (p + 12)
      in if unat (x - d) < unat (load32 m (p + 16)) then m (load32 m (p + 4) + ELF_BASE + (x - d)) else 0)"

definition agree_low :: "memory \<Rightarrow> memory \<Rightarrow> bool" where
  "agree_low m m' \<longleftrightarrow> (\<forall>x. unat x < 0x100000 \<longrightarrow> m' x = m x)"

lemma agree_low_load: "agree_low m m' \<Longrightarrow> unat a + 4 \<le> 0x100000 \<Longrightarrow> load32 m' a = load32 m a"
  by (rule load32_unat_cong) (auto simp: agree_low_def)

lemma place_segment:
  fixes m :: memory
  assumes b: "unat src + unat fs \<le> unat dst" "unat dst + max (unat fs) (unat ms) < 4294967296"
  defines "m1 \<equiv> copy_bytes m src dst (unat fs)"
  shows "(if ms \<le> fs then m1 else zero_bytes m1 (dst + fs) (unat (ms - fs))) x =
    (if unat dst \<le> unat x \<and> unat x < unat dst + max (unat fs) (unat ms)
     then (if unat (x - dst) < unat fs then m (src + (x - dst)) else 0) else m x)"
proof -
  have m1: "m1 x = (if unat dst \<le> unat x \<and> unat x < unat dst + unat fs then m (src + (x - dst)) else m x)"
    unfolding m1_def using b by (intro copy_bytes_eq) auto
  have xd: "unat (x - dst) = unat x - unat dst" if "unat dst \<le> unat x" using that by (simp add: u32_sub)
  show ?thesis
  proof (cases "ms \<le> fs")
    case True
    then have "max (unat fs) (unat ms) = unat fs" by (simp add: u32_le_iff)
    then show ?thesis using True m1 xd by auto
  next
    case False
    then have d: "unat (ms - fs) = unat ms - unat fs" "unat fs < unat ms" "max (unat fs) (unat ms) = unat ms" by (simp_all add: u32_sub u32_le_iff)
    moreover have "unat (dst + fs) = unat dst + unat fs" using b by (simp add: u32_add)
    ultimately have "zero_bytes m1 (dst + fs) (unat (ms - fs)) x = (if unat dst + unat fs \<le> unat x \<and> unat x < unat dst + unat ms then 0 else m1 x)"
      using zero_bytes_eq [of "dst + fs" "unat (ms - fs)" m1 x] b by auto
    then show ?thesis using False m1 xd d by auto
  qed
qed

lemma elf_segment_spec:
  assumes ok: "phdr_ok m p" and low: "agree_low m m'"
  shows "elf_segment p m' x = (if unat x \<in> seg_range m p then seg_byte m p x else m' x)" and "agree_low m (elf_segment p m')"
proof -
  have p: "unat p + 24 \<le> 0x100000" using ok by (simp add: phdr_ok_def)
  have u: "unat (p + 4) = unat p + 4" "unat (p + 12) = unat p + 12" "unat (p + 16) = unat p + 16" "unat (p + 20) = unat p + 20"
    using p by (simp_all add: u32_add)
  define src dst fs ms where "src = load32 m (p + 4) + ELF_BASE" and "dst = load32 m (p + 12)" and "fs = load32 m (p + 16)" and "ms = load32 m (p + 20)"
  have same: "load32 n p = load32 m p" "load32 n (p + 4) + ELF_BASE = src" "load32 n (p + 12) = dst" "load32 n (p + 16) = fs" "load32 n (p + 20) = ms"
    if "agree_low m n" for n
    using that p u by (auto simp: agree_low_load src_def dst_def fs_def ms_def)
  have eq: "elf_segment p m' x = (if unat x \<in> seg_range m p then seg_byte m p x else m' x)" for x
  proof (cases "load32 m p = 1")
    case True
    have b: "unat src + unat fs \<le> 0x100000" "0x100000 \<le> unat dst" "unat dst + max (unat fs) (unat ms) < 4294967296"
      using ok True by (auto simp: phdr_ok_def src_def dst_def fs_def ms_def seg_size_def)
    define m1 where "m1 = copy_bytes m' src dst (unat fs)"
    have "agree_low m m1" using low b copy_bytes_eq [of src "unat fs" dst m'] by (auto simp: agree_low_def m1_def)
    then have run: "elf_segment p m' = (if ms \<le> fs then m1 else zero_bytes m1 (dst + fs) (unat (ms - fs)))"
      using True same [OF low] same [of m1] by (simp add: elf_segment_def Let_def flip: m1_def)
    have "m' (src + (x - dst)) = m (src + (x - dst))" if "unat (x - dst) < unat fs"
      using that b low by (simp add: agree_low_def u32_add)
    then show ?thesis unfolding run m1_def using b True
      by (subst place_segment) (simp_all add: seg_range_def seg_size_def seg_byte_def Let_def flip: src_def dst_def fs_def ms_def)
  next
    case False
    then show ?thesis using same [OF low] by (simp add: elf_segment_def seg_range_def)
  qed
  then show "elf_segment p m' x = (if unat x \<in> seg_range m p then seg_byte m p x else m' x)" .
  have "unat x < 0x100000 \<Longrightarrow> unat x \<notin> seg_range m p" for x using ok by (auto simp: phdr_ok_def seg_range_def)
  then show "agree_low m (elf_segment p m')" using low eq by (auto simp: agree_low_def)
qed

text \<open>Program header \<^term>\<open>i\<close> of the file.\<close>

definition phdr :: "memory \<Rightarrow> nat \<Rightarrow> u32" where
  "phdr m i = load32 m (ELF_BASE + 28) + ELF_BASE + of_nat i * ucast (load16 m (ELF_BASE + 42))"

definition phnum :: "memory \<Rightarrow> nat" where
  "phnum m = unat (load16 m (ELF_BASE + 44))"

lemma elf_phdr_loop_spec:
  assumes "\<And>i. i < n \<Longrightarrow> phdr_ok m (p + of_nat i * ucast sz)" and "agree_low m m'"
    and "\<And>i j. i < j \<Longrightarrow> j < n \<Longrightarrow> seg_range m (p + of_nat i * ucast sz) \<inter> seg_range m (p + of_nat j * ucast sz) = {}"
  shows "(\<forall>i < n. unat x \<in> seg_range m (p + of_nat i * ucast sz) \<longrightarrow> elf_phdr_loop sz n p m' x = seg_byte m (p + of_nat i * ucast sz) x)
    \<and> ((\<forall>i < n. unat x \<notin> seg_range m (p + of_nat i * ucast sz)) \<longrightarrow> elf_phdr_loop sz n p m' x = m' x)"
  using assms
proof (induction n arbitrary: p m')
  case (Suc n)
  have shift: "p + ucast sz + of_nat i * ucast sz = p + of_nat (Suc i) * ucast sz" for i by (simp add: algebra_simps)
  note seg = elf_segment_spec [OF Suc.prems(1) [of 0, simplified] Suc.prems(2)]
  have IH: "(\<forall>i < n. unat x \<in> seg_range m (p + of_nat (Suc i) * ucast sz) \<longrightarrow>
        elf_phdr_loop sz (Suc n) p m' x = seg_byte m (p + of_nat (Suc i) * ucast sz) x)
    \<and> ((\<forall>i < n. unat x \<notin> seg_range m (p + of_nat (Suc i) * ucast sz)) \<longrightarrow> elf_phdr_loop sz (Suc n) p m' x = elf_segment p m' x)"
    unfolding elf_phdr_loop.simps shift [symmetric]
  proof (rule Suc.IH [OF _ seg(2)])
    show "phdr_ok m (p + ucast sz + of_nat i * ucast sz)" if "i < n" for i unfolding shift using Suc.prems(1) [of "Suc i"] that by simp
    show "seg_range m (p + ucast sz + of_nat i * ucast sz) \<inter> seg_range m (p + ucast sz + of_nat j * ucast sz) = {}" if "i < j" "j < n" for i j
      unfolding shift using Suc.prems(3) [of "Suc i" "Suc j"] that by simp
  qed
  have apart: "unat x \<notin> seg_range m (p + of_nat (Suc i) * ucast sz)" if "i < n" "unat x \<in> seg_range m p" for i
    using Suc.prems(3) [of 0 "Suc i"] that by auto
  have all: "(\<forall>i < Suc n. Q i) \<longleftrightarrow> Q 0 \<and> (\<forall>i < n. Q (Suc i))" for Q :: "nat \<Rightarrow> bool" by (auto simp: less_Suc_eq_0_disj)
  show ?case unfolding all using IH seg(1) [of x] apart by auto
qed simp

lemma elf_load_spec:
  assumes "elf_valid m" and "\<forall>i < phnum m. phdr_ok m (phdr m i)"
    and "\<forall>j < phnum m. \<forall>i < j. seg_range m (phdr m i) \<inter> seg_range m (phdr m j) = {}"
  obtains m' where "elf_load m = Some (load32 m (ELF_BASE + 24), m')"
    "\<And>i x. i < phnum m \<Longrightarrow> unat x \<in> seg_range m (phdr m i) \<Longrightarrow> m' x = seg_byte m (phdr m i) x"
    "\<And>x. \<forall>i < phnum m. unat x \<notin> seg_range m (phdr m i) \<Longrightarrow> m' x = m x"
proof -
  have "agree_low m m" by (simp add: agree_low_def)
  with assms have "(\<forall>i < phnum m. unat x \<in> seg_range m (phdr m i) \<longrightarrow>
        elf_phdr_loop (load16 m (ELF_BASE + 42)) (phnum m) (load32 m (ELF_BASE + 28) + ELF_BASE) m x = seg_byte m (phdr m i) x)
    \<and> ((\<forall>i < phnum m. unat x \<notin> seg_range m (phdr m i)) \<longrightarrow>
        elf_phdr_loop (load16 m (ELF_BASE + 42)) (phnum m) (load32 m (ELF_BASE + 28) + ELF_BASE) m x = m x)" for x
    unfolding phdr_def by (intro elf_phdr_loop_spec) blast+
  then show thesis using assms(1)
    by (intro that [of "elf_phdr_loop (load16 m (ELF_BASE + 42)) (phnum m) (load32 m (ELF_BASE + 28) + ELF_BASE) m"])
      (auto simp: elf_load_def Let_def phnum_def)
qed

section \<open>The hand-over\<close>

text \<open>From \<^verbatim>\<open>pm_entry\<close> to the jump into the kernel; \<^const>\<open>None\<close> is the halt on a bad file.\<close>

definition pm_entry :: "u32 \<Rightarrow> entry_state \<Rightarrow> entry_state option" where
  "pm_entry mboot_name e =
     (case elf_load (phys e) of
        None \<Rightarrow> None
      | Some (kernel_entry, m) \<Rightarrow>
          Some (e\<lparr>phys := build_multiboot mboot_name m, en_eax := 0x2BADB002, en_ebx := MBOOT_INFO, en_eip := kernel_entry\<rparr>))"

lemma e820_entry_low: "agree_low m m' \<Longrightarrow> i < 160 \<Longrightarrow> e820_entry m' i = e820_entry m i"
  by (intro e820_entry_cong e820_words_cong) (auto simp: agree_low_def)

lemma pm_entry_spec:
  assumes elf: "elf_valid (phys e)" "\<forall>i < phnum (phys e). phdr_ok (phys e) (phdr (phys e) i)"
    "\<forall>j < phnum (phys e). \<forall>i < j. seg_range (phys e) (phdr (phys e) i) \<inter> seg_range (phys e) (phdr (phys e) j) = {}"
    and n: "unat (load32 (phys e) 0x6000) = n" "n \<le> 160"
  obtains m where "pm_entry name e = Some (e\<lparr>phys := build_multiboot name m, en_eax := 0x2BADB002, en_ebx := 0x5000,
      en_eip := load32 (phys e) 0x10018\<rparr>)"
    "unat (load32 m 0x6000) = n" "map (e820_entry m) [0..<n] = map (e820_entry (phys e)) [0..<n]"
    "\<And>i x. i < phnum (phys e) \<Longrightarrow> unat x \<in> seg_range (phys e) (phdr (phys e) i) \<Longrightarrow>
      0x100000 \<le> unat x \<and> build_multiboot name m x = seg_byte (phys e) (phdr (phys e) i) x"
proof -
  obtain m where m: "elf_load (phys e) = Some (load32 (phys e) (0x10000 + 24), m)"
    "\<And>i x. i < phnum (phys e) \<Longrightarrow> unat x \<in> seg_range (phys e) (phdr (phys e) i) \<Longrightarrow> m x = seg_byte (phys e) (phdr (phys e) i) x"
    "\<And>x. \<forall>i < phnum (phys e). unat x \<notin> seg_range (phys e) (phdr (phys e) i) \<Longrightarrow> m x = phys e x"
    by (rule elf_load_spec [OF elf]) (rule that; assumption)
  have "unat x \<notin> seg_range (phys e) (phdr (phys e) i)" if "i < phnum (phys e)" "unat x < 0x100000" for x i
    using elf(2) that by (auto simp: phdr_ok_def seg_range_def)
  then have low: "agree_low (phys e) m" unfolding agree_low_def by (intro allI impI m(3)) blast
  show thesis
  proof (rule that)
    show n': "unat (load32 m 0x6000) = n" using agree_low_load [OF low, of "0x6000"] n(1) by simp
    show "map (e820_entry m) [0..<n] = map (e820_entry (phys e)) [0..<n]" using e820_entry_low [OF low] n(2) by simp
    show "0x100000 \<le> unat x \<and> build_multiboot name m x = seg_byte (phys e) (phdr (phys e) i) x"
      if i: "i < phnum (phys e)" "unat x \<in> seg_range (phys e) (phdr (phys e) i)" for i x
    proof -
      have x: "0x100000 \<le> unat x" using elf(2) i by (auto simp: phdr_ok_def seg_range_def split: if_splits)
      then have "x \<notin> mboot_bytes n" using n(2) by (auto simp: mboot_bytes_def)
      then show ?thesis using x build_multiboot_spec(5) [OF n' n(2)] m(2) [OF i] by simp
    qed
  qed (simp add: pm_entry_def m(1))
qed

section \<open>Properties\<close>

text \<open>
  C10. \<^verbatim>\<open>elf_load\<close> places the kernel. For an executable file in the first megabyte whose loadable segments lie above it and
  do not overlap, it returns the entry point of the header; every segment is at its physical address, first
  the bytes of the file and then zeros up to its size in memory; every other byte is as before.
\<close>

theorem elf_load_places_segments:
  assumes "elf_valid m" and "\<forall>i < phnum m. phdr_ok m (phdr m i)"
    and "\<forall>j < phnum m. \<forall>i < j. seg_range m (phdr m i) \<inter> seg_range m (phdr m j) = {}"
  shows "\<exists>m'. elf_load m = Some (load32 m (ELF_BASE + 24), m')
    \<and> (\<forall>i < phnum m. \<forall>x. unat x \<in> seg_range m (phdr m i) \<longrightarrow> m' x = seg_byte m (phdr m i) x)
    \<and> (\<forall>x. (\<forall>i < phnum m. unat x \<notin> seg_range m (phdr m i)) \<longrightarrow> m' x = m x)"
  by (rule elf_load_spec [OF assms]) blast

text \<open>A file with one segment of four bytes and four zeros.\<close>

definition sample_elf :: memory where
  "sample_elf = store32 (store32 (store32 (store32 (store32 (store32 (store32 (store32 (store32 (store32 (store32 (store32 (store32 (\<lambda>_. 0xFF)
     0x10000 0x464C457F) 0x10004 0x101) 0x10010 0x30002) 0x10018 0x100000) 0x1001C 52) 0x10028 0x200000) 0x1002C 1)
     0x10034 1) 0x10038 0x1000) 0x10040 0x100000) 0x10044 4) 0x10048 8) 0x11000 0x12345678"

lemma sample_elf_header:
  "elf_valid sample_elf" "phnum sample_elf = 1" "phdr sample_elf 0 = 0x10034" "load32 sample_elf 0x10018 = 0x100000"
  "load32 sample_elf 0x10034 = 1" "load32 sample_elf 0x10038 = 0x1000" "load32 sample_elf 0x10040 = 0x100000"
  "load32 sample_elf 0x10044 = 4" "load32 sample_elf 0x10048 = 8"
  by (simp_all add: elf_valid_def phnum_def phdr_def load16_def sample_elf_def load32_def store32_def)


theorem elf_load_places_segments_witness:
  "\<exists>m'. elf_load sample_elf = Some (0x100000, m') \<and> m' 0x100000 = 0x78 \<and> m' 0x100003 = 0x12 \<and> m' 0x100007 = 0 \<and> m' 0x100008 = 0xFF"
proof -
  note h = sample_elf_header
  have r: "seg_range sample_elf 0x10034 = {0x100000..<0x100008}" by (auto simp: seg_range_def seg_size_def h)
  have "phdr_ok sample_elf 0x10034" by (simp add: phdr_ok_def seg_size_def h)
  then obtain m' where m': "elf_load sample_elf = Some (0x100000, m')"
    "\<And>x. unat x \<in> seg_range sample_elf 0x10034 \<Longrightarrow> m' x = seg_byte sample_elf 0x10034 x"
    "\<And>x. unat x \<notin> seg_range sample_elf 0x10034 \<Longrightarrow> m' x = sample_elf x"
    using elf_load_places_segments [of sample_elf] by (auto simp: h)
  have "sample_elf 0x11000 = 0x78" "sample_elf 0x11003 = 0x12" "sample_elf 0x100008 = 0xFF"
    by (simp_all add: sample_elf_def store32_def)
  then have "m' 0x100000 = 0x78" "m' 0x100003 = 0x12" "m' 0x100007 = 0" "m' 0x100008 = 0xFF"
    using m'(2) [of "0x100000"] m'(2) [of "0x100003"] m'(2) [of "0x100007"] m'(3) [of "0x100008"] unfolding r by (simp_all add: seg_byte_def h)
  then show ?thesis using m'(1) by blast
qed

text \<open>
  C22. \<^verbatim>\<open>build_multiboot\<close> hands the memory map on. With at most 160 entries from the BIOS, the most that fit between the
  multiboot information and the source, the structure it builds has the flag for a memory map, and the kernel's walk
  over the map finds exactly the entries of the BIOS, in their order. Each entry has the size 20 and all five words of
  the BIOS, the high words of base and length included, which the kernel does not read. The structure names the
  loader, and no byte outside the structure and the map has changed.
\<close>

theorem build_multiboot_passes_map:
  assumes "unat (load32 m 0x6000) = n" and "n \<le> 160"
  shows "let m' = build_multiboot name m; a = mbi_mmap_addr m' 0x5000 in
      mbi_flags m' 0x5000 AND MULTIBOOT_FLAG_MMAP \<noteq> 0
      \<and> mmap_at m' a (a + mbi_mmap_length m' 0x5000) (map (e820_entry m) [0..<n])
      \<and> map (\<lambda>i. mmap_words m' (a + 24 * of_nat i)) [0..<n] = map (e820_words m) [0..<n]
      \<and> load32 m' (0x5000 + 64) = name
      \<and> (\<forall>x. x \<in> mboot_bytes n \<or> m' x = m x)"
  using build_multiboot_read [OF assms, of "build_multiboot name m" name] build_multiboot_spec(4-6) [OF assms] by (auto simp: Let_def)

text \<open>The map of a machine with 128 MB: the memory below 640 KB and the memory above 1 MB.\<close>

definition sample_e820 :: memory where
  "sample_e820 = store32 (store32 (store32 (store32 (store32 (store32 (store32 sample_elf 0x6000 2) 0x6004 0) 0x600C 0x9FC00) 0x6014 1)
     0x601C 0x100000) 0x6024 0x7F00000) 0x602C 1"

lemma sample_e820_map:
  "load32 sample_e820 0x6000 = 2"
  "map (e820_entry sample_e820) [0..<2] = [\<lparr>entry_size = 20, entry_base = 0, entry_length = 0x9FC00, entry_type = 1\<rparr>,
     \<lparr>entry_size = 20, entry_base = 0x100000, entry_length = 0x7F00000, entry_type = 1\<rparr>]"
  by (simp_all add: sample_e820_def load32_store32_sep sep4_def e820_entry_def Let_def upt_rec)

lemma sample_e820_file: "elf_valid sample_e820" "phnum sample_e820 = 1" "phdr_ok sample_e820 (phdr sample_e820 0)"
  by (simp_all add: sample_e820_def elf_valid_def phnum_def phdr_ok_def phdr_def seg_size_def load16_def sample_elf_def load32_def store32_def)

theorem build_multiboot_passes_map_witness:
  "mmap_at (build_multiboot 0x9000 sample_e820) (mbi_mmap_addr (build_multiboot 0x9000 sample_e820) 0x5000)
     (mbi_mmap_addr (build_multiboot 0x9000 sample_e820) 0x5000 + mbi_mmap_length (build_multiboot 0x9000 sample_e820) 0x5000)
     [\<lparr>entry_size = 20, entry_base = 0, entry_length = 0x9FC00, entry_type = 1\<rparr>,
      \<lparr>entry_size = 20, entry_base = 0x100000, entry_length = 0x7F00000, entry_type = 1\<rparr>]
   \<and> load32 (build_multiboot 0x9000 sample_e820) 0x5040 = 0x9000"
  using build_multiboot_passes_map [of sample_e820 2 "0x9000"] unfolding Let_def sample_e820_map(2) by (simp add: sample_e820_map(1))

end
