(* ===== verification/Spec2Isabelle.thy ===== *)
theory Spec2Isabelle
  imports Boot Stubs Loader
begin

text \<open>
  A verification development of TupleOS, a small 32-bit x86 kernel in C with its own boot loader.

  \<^bold>\<open>The program.\<close> The loader (\<^verbatim>\<open>src/boot/stage2.asm\<close>) places the kernel file and builds the multiboot information; \<^verbatim>\<open>boot.asm\<close> turns
  paging on and calls the kernel. \<^verbatim>\<open>kernel_main\<close> of \<^verbatim>\<open>src/kernel/kernel.c\<close> initialises the screen, the serial port, the descriptor tables and the
  keyboard and timer drivers. Started by a multiboot loader it then sets up the memory managers, one
  on top of the other: frames (\<^verbatim>\<open>pmm.c\<close>), page tables (\<^verbatim>\<open>paging.c\<close>), the kernel heap (\<^verbatim>\<open>kheap.c\<close>), regions and address
  spaces (\<^verbatim>\<open>vmm.c\<close>); then the process table (\<^verbatim>\<open>process.c\<close>), two kernel threads and the round-robin scheduler
  (\<^verbatim>\<open>scheduler.c\<close>). From then on the interrupts act: the timer (\<^verbatim>\<open>timer.c\<close>) calls the scheduler, the keyboard
  (\<^verbatim>\<open>keyboard.c\<close>) feeds the shell (\<^verbatim>\<open>shell.c\<close>), a page fault is reported and halts. Between the processor and the C handler stand the stubs of \<^verbatim>\<open>interrupts.asm\<close>.

  \<^bold>\<open>The state.\<close> One chain of extensible records, in the order of the layers: \<open>hw_state\<close> (trace of port
  accesses and special instructions, an oracle for what ports deliver, registers, link addresses, faults),
  \<open>term_state\<close>, \<open>intr_state\<close>, \<open>pmm_state\<close> (with the memory, bytes by virtual address), \<open>paging_state\<close>,
  \<open>kheap_state\<close>, \<open>vmm_state\<close>, \<open>proc_state\<close>, \<open>timer_state\<close>, \<open>shell_state\<close>, \<open>kbd_state\<close>. Each static variable
  of a source file is a field of the record of its layer. An operation works on every state that extends
  its layer. An access out of bounds, a division by zero, a null pointer, a wrong variable argument,
  a page fault, an access through the window at 0xC0000000 that leads to another frame than the one meant (\<open>Wrong_Frame\<close>) and a
  loop without end are recorded in \<open>faults\<close>; most safety statements say that this list does not change. Integers are machine words of the width of the source; wrapping is visible.

  \<^bold>\<open>The theories.\<close>
  \<^item> \<^verbatim>\<open>Kernel_Prelude\<close>: words, bytes in memory, page arithmetic, shared simplification rules.
  \<^item> \<^verbatim>\<open>Hardware\<close>: ports (\<^verbatim>\<open>ports.h\<close>), registers, faults.
  \<^item> \<^verbatim>\<open>Terminal\<close>: the screen functions of \<^verbatim>\<open>kernel.c\<close> and \<^verbatim>\<open>terminal.h\<close>. The locale \<open>console_output\<close> is what every
    printing function promises: nothing but the console changes, the cursor stays on the screen, no fault.
  \<^item> \<^verbatim>\<open>Kprintf\<close>, \<^verbatim>\<open>Serial\<close>: formatted output, related to the text its format describes; the serial port is live
    when its transmitter becomes empty again and again.
  \<^item> \<^verbatim>\<open>Interrupts\<close>: \<^verbatim>\<open>gdt.c\<close>, \<^verbatim>\<open>idt.c\<close>; how the processor reads the descriptors.
  \<^item> \<^verbatim>\<open>Pmm\<close>: the frame bitmap and \<^verbatim>\<open>multiboot.h\<close>. The locales \<open>frame_source\<close> and \<open>frame_allocator\<close> are the contract of a frame
    allocator; \<open>pmm\<close> interprets it. What \<^verbatim>\<open>pmm_init\<close> frees for every map below 4 GB, with the writes beyond the bitmap for the last two frames.
  \<^item> \<^verbatim>\<open>Paging\<close>: page tables in memory, compared with the walk of the processor. New tables and directories are reached through the window
    at 0xC0000000: \<open>window_fault\<close> looks the address up in the tables and faults where it is not mapped or shows another frame. The locales \<open>page_mapper\<close> and
    \<open>demand_mapper\<close> are what the layers above rely on; \<open>vm\<close> interprets them.
  \<^item> \<^verbatim>\<open>Kheap\<close>: block headers in memory against an abstract list of blocks with first fit, merging and growth (\<open>kmalloc_blocks\<close>, which also
    says when there is no room to grow). The
    locale \<open>heap_allocator\<close> is the contract of a heap; \<open>kheap\<close> interprets it.
  \<^item> \<^verbatim>\<open>Memory_Frame\<close>: what the memory managers leave alone, for the layers above.
  \<^item> \<^verbatim>\<open>Vmm\<close>, \<^verbatim>\<open>Vmm_Regions\<close>, \<^verbatim>\<open>Vmm_Map\<close>: \<^verbatim>\<open>vmm.c\<close>; region lists in the pool as sorted sequences; mapping and unmapping, for page tables
    on frames that the 16 MB window shows.
  \<^item> \<^verbatim>\<open>Process\<close>, \<^verbatim>\<open>Scheduler\<close>: \<^verbatim>\<open>process.c\<close>, \<^verbatim>\<open>scheduler.c\<close>, \<^verbatim>\<open>context_switch.asm\<close>; the abstract round robin, the saved frames on
    the stacks, executions as a step relation with its invariant.
  \<^item> \<^verbatim>\<open>Timer\<close>, \<^verbatim>\<open>Shell\<close>, \<^verbatim>\<open>Keyboard\<close>: the drivers and the command line.
  \<^item> \<^verbatim>\<open>Kernel_Main\<close>: \<^verbatim>\<open>kernel_main\<close>, the threads, the dispatch of interrupts, and the runs of the kernel.
  \<^item> \<^verbatim>\<open>Boot\<close>: \<^verbatim>\<open>kernel_main\<close> step by step, from the state a multiboot loader leaves to the running system.
  \<^item> \<^verbatim>\<open>Stubs\<close>: \<^verbatim>\<open>interrupts.asm\<close> and \<^verbatim>\<open>gdt_flush.asm\<close> as lists of instructions of a small machine (registers, segments, bytes).
    The frame that reaches \<^verbatim>\<open>interrupt_handler\<close>, and that the interrupted code finds its registers again; the C code is a parameter.
  \<^item> \<^verbatim>\<open>Entry\<close>: \<^verbatim>\<open>boot.asm\<close> on physical memory; its page tables against the walk of the processor.
  \<^item> \<^verbatim>\<open>Loader\<close>: \<^verbatim>\<open>elf_load\<close>, \<^verbatim>\<open>build_multiboot\<close> and the hand-over of \<^verbatim>\<open>stage2.asm\<close>.

  This theory composes them: the memory the loader leaves, seen through the page tables of \<^verbatim>\<open>boot.asm\<close>, is one
  that \<^verbatim>\<open>kernel_main\<close> starts from. The variables of the C code are fields of the record and not bytes of the image. For the four
  counters that must be zero at the start the two are connected there: \<open>load_statics\<close> reads them from the memory the kernel sees, where
  the loader has cleared the \<^verbatim>\<open>.bss\<close> section. The sizes of the arrays and the addresses of the linker remain assumptions
  (\<open>kernel_layout\<close>).

  \<^bold>\<open>Loops and fuel.\<close> Loops over data the kernel does not control, or over linked lists in memory, are partial
  functions into \<open>option\<close>: \<open>None\<close> is a loop that does not end. On well-formed lists they are proved to
  end. The walk over the multiboot memory map has the fuel \<open>2^32\<close>: its pointer is a 32-bit word, so
  a longer walk repeats a pointer and never ends. The loops of \<^verbatim>\<open>boot.asm\<close> are partial functions too, proved to end. The loops \<^verbatim>\<open>while (1)\<close> of the threads are run for any
  number of rounds; \<^verbatim>\<open>hlt\<close> loops are one event.

  \<^bold>\<open>Simplifications.\<close> Memory is addressed by virtual address. The kernel sees physical memory through the linear window at
  0xC0000000; that other virtual pages may lie on the same frames is not modelled, so the theorems do not
  speak about two mappings of one frame. In particular the walk \<open>mmu_walk\<close> reads the words of a table at their addresses in the window. The check
  of the window is made where a table or a directory is written for the first time or gets an entry; \<^verbatim>\<open>paging_unmap_page\<close> and
  \<^verbatim>\<open>paging_get_physical\<close> access existing tables without it. The region pool and the address space structures are typed
  stores beside the byte memory. In the runs of the kernel an interrupt is the call of the C handler; when the timer switches
  threads, the end-of-interrupt of the dispatcher is sent in the context of the new thread. Code that
  the compiler may reorder, caches and the timing of devices are not modelled.

  \<^bold>\<open>Not modelled.\<close> The boot sector \<^verbatim>\<open>stage1.asm\<close> and the real-mode half of \<^verbatim>\<open>stage2.asm\<close> (the A20 gate, the memory map, the FAT16 reader) are
  sequences of BIOS calls; what they leave in memory, the map at 0x6000 and the kernel file at 0x10000, is the state \<^verbatim>\<open>Loader\<close>
  starts from. The stack of the loader and its messages on the screen are left out there. The header files beyond
  the types and macros used hold declarations and comments only.
\<close>

section \<open>From the loader to the kernel\<close>

text \<open>The memory the kernel sees when \<^verbatim>\<open>boot.asm\<close> calls it: physical memory, through the page tables.\<close>

definition mapped_memory :: "entry_state \<Rightarrow> memory \<Rightarrow> memory" where
  "mapped_memory e m va = (case page_walk e va of Some pa \<Rightarrow> phys e pa | None \<Rightarrow> m va)"

text \<open>The jump of the loader leads into \<^verbatim>\<open>boot.asm\<close> if the entry point of the file is its label \<^verbatim>\<open>_start\<close>; what runs at another
  address is not described.\<close>

definition start_kernel :: "entry_symbols \<Rightarrow> u32 \<Rightarrow> entry_state \<Rightarrow> entry_state option" where
  "start_kernel sy mboot_name e =
     (case pm_entry mboot_name e of
        None \<Rightarrow> None
      | Some e1 \<Rightarrow> if en_eip e1 = start_sym sy then boot_asm sy e1 else None)"

text \<open>The static variables of the kernel that count on being zero at the start, by their addresses: \<^verbatim>\<open>total_frames\<close> and
  \<^verbatim>\<open>used_frames\<close> of \<^verbatim>\<open>pmm.c\<close>, \<^verbatim>\<open>total_allocated\<close> of \<^verbatim>\<open>kheap.c\<close>, \<^verbatim>\<open>region_pool_used\<close> of \<^verbatim>\<open>vmm.c\<close>. Their values are what the kernel sees in
  memory.\<close>

record static_symbols =
  total_frames_at :: u32
  used_frames_at :: u32
  total_allocated_at :: u32
  region_pool_used_at :: u32

definition load_statics :: "static_symbols \<Rightarrow> memory \<Rightarrow> 'a vmm_state_scheme \<Rightarrow> 'a vmm_state_scheme" where
  "load_statics st m s = s\<lparr>mem := m, total_frames := load32 m (total_frames_at st), used_frames := load32 m (used_frames_at st),
     total_allocated := load32 m (total_allocated_at st), region_pool_used := load32 m (region_pool_used_at st)\<rparr>"

text \<open>A variable in the \<^verbatim>\<open>.bss\<close> section: its word lies in a segment behind the bytes that the file provides, in the 4 MB that the
  boot tables map, and not in the tables and the stack of \<^verbatim>\<open>boot.asm\<close>.\<close>

definition in_bss :: "memory \<Rightarrow> entry_symbols \<Rightarrow> u32 \<Rightarrow> bool" where
  "in_bss m sy va \<longleftrightarrow>
     (let x = va - KERNEL_VIRTUAL_BASE; d = boot_page_directory sy - KERNEL_VIRTUAL_BASE in
      0xC0000000 \<le> va \<and> unat x + 4 \<le> 0x400000 \<and> (unat x + 4 \<le> unat d \<or> unat d + 24576 \<le> unat x)
      \<and> (\<exists>i < phnum m. let p = phdr m i in load32 m p = 1 \<and> unat (load32 m (p + 12)) + unat (load32 m (p + 16)) \<le> unat x
           \<and> unat x + 4 \<le> unat (load32 m (p + 12)) + unat (load32 m (p + 20))))"

definition statics_in_bss :: "memory \<Rightarrow> entry_symbols \<Rightarrow> static_symbols \<Rightarrow> bool" where
  "statics_in_bss m sy st \<longleftrightarrow> in_bss m sy (total_frames_at st) \<and> in_bss m sy (used_frames_at st)
     \<and> in_bss m sy (total_allocated_at st) \<and> in_bss m sy (region_pool_used_at st)"

text \<open>What remains of \<^const>\<open>kernel_image\<close>: the sizes of the arrays and the addresses that the linker fixes.\<close>

definition kernel_layout :: "'a vmm_state_scheme \<Rightarrow> bool" where
  "kernel_layout s \<longleftrightarrow> length (frame_bitmap s) = 4098 \<and> length (region_pool s) = 256 \<and> length (handlers s) = 256
     \<and> kernel_space s \<noteq> 0 \<and> tables_placed s
     \<and> 0xC0100000 < page_align_up (kernel_end_sym (sym s)) \<and> page_align_up (kernel_end_sym (sym s)) < 0xC0400000
     \<and> (\<forall>p \<in> set (page_directory s # map (table_page (page_tables_sym (sym s))) [0..<4]).
          0xC0000000 \<le> p \<and> p < page_align_up (kernel_end_sym (sym s)))"

lemma load_statics_image:
  assumes "kernel_layout s" and "load32 m (total_frames_at st) = 0" "load32 m (used_frames_at st) = 0"
    "load32 m (total_allocated_at st) = 0" "load32 m (region_pool_used_at st) = 0"
  shows "kernel_image (load_statics st m s)"
  using assms by (simp add: kernel_layout_def kernel_image_def load_statics_def tables_placed_def)

lemma mapped_byte_high:
  assumes walk: "\<And>va. page_walk e va = (if va < 0x400000 then Some va else if 0xC0000000 \<le> va \<and> va < 0xC0400000 then Some (va - 0xC0000000) else None)"
    and b: "unat b < 0x400000"
  shows "mapped_memory e m (0xC0000000 + b) = phys e b"
proof -
  have "unat (0xC0000000 + b) = 3221225472 + unat b" using b by (simp add: u32_add)
  then show ?thesis using walk [of "0xC0000000 + b"] b by (simp add: mapped_memory_def u32_less_iff u32_le_iff)
qed

lemma mapped_memory_high:
  assumes walk: "\<And>va. page_walk e va = (if va < 0x400000 then Some va else if 0xC0000000 \<le> va \<and> va < 0xC0400000 then Some (va - 0xC0000000) else None)"
    and a: "unat a + 4 \<le> 0x400000"
  shows "load32 (mapped_memory e m) (0xC0000000 + a) = load32 (phys e) a"
proof -
  have "unat (a + of_nat k) < 0x400000" if "k < 4" for k :: nat using a that by (simp add: u32_add u32_of_nat)
  then have "mapped_memory e m (0xC0000000 + a + of_nat k) = phys e (a + of_nat k)" if "k < 4" for k :: nat
    using that mapped_byte_high [OF walk] by (simp add: add.assoc)
  from this [of 0] this [of 1] this [of 2] this [of 3] show ?thesis by (simp add: load32_def)
qed

text \<open>What the kernel sees of the segments: all their bytes, except where \<^verbatim>\<open>boot.asm\<close> has its tables and its stack.\<close>

definition segments_visible :: "memory \<Rightarrow> entry_symbols \<Rightarrow> memory \<Rightarrow> bool" where
  "segments_visible file sy m \<longleftrightarrow> (\<forall>i x. i < phnum file \<and> unat x \<in> seg_range file (phdr file i) \<and> unat x < 0x400000
       \<and> \<not> in_range (boot_page_directory sy - KERNEL_VIRTUAL_BASE) 24576 x
     \<longrightarrow> m (KERNEL_VIRTUAL_BASE + x) = seg_byte file (phdr file i) x \<and> m x = seg_byte file (phdr file i) x)"

lemma bss_zero:
  assumes v: "segments_visible file sy m" and b: "in_bss file sy va" and d: "unat (boot_page_directory sy - KERNEL_VIRTUAL_BASE) + 24576 \<le> 4194304"
  shows "load32 m va = 0"
proof -
  define x where "x = va - KERNEL_VIRTUAL_BASE"
  obtain i where i: "i < phnum file" "load32 file (phdr file i) = 1"
    "unat (load32 file (phdr file i + 12)) + unat (load32 file (phdr file i + 16)) \<le> unat x"
    "unat x + 4 \<le> unat (load32 file (phdr file i + 12)) + unat (load32 file (phdr file i + 20))"
    using b by (auto simp: in_bss_def Let_def x_def)
  have r: "unat x + 4 \<le> 0x400000" "unat x + 4 \<le> unat (boot_page_directory sy - KERNEL_VIRTUAL_BASE)
      \<or> unat (boot_page_directory sy - KERNEL_VIRTUAL_BASE) + 24576 \<le> unat x"
    using b by (auto simp: in_bss_def Let_def x_def)
  have "m (va + of_nat k) = 0" if k: "k < 4" for k :: nat
  proof -
    have u: "unat (x + of_nat k) = unat x + k" using r(1) k by (simp add: u32_add u32_of_nat)
    have "unat (x + of_nat k) \<in> seg_range file (phdr file i)" using i u k by (simp add: seg_range_def seg_size_def)
    moreover have "\<not> in_range (boot_page_directory sy - KERNEL_VIRTUAL_BASE) 24576 (x + of_nat k)"
      using r(2) u k d by (subst in_range_iff) auto
    ultimately have "m (KERNEL_VIRTUAL_BASE + (x + of_nat k)) = seg_byte file (phdr file i) (x + of_nat k)"
      using v i(1) u r(1) k unfolding segments_visible_def by auto
    moreover have "unat (x + of_nat k - load32 file (phdr file i + 12)) = unat x + k - unat (load32 file (phdr file i + 12))"
      using i(3) u by (simp add: u32_sub)
    then have "seg_byte file (phdr file i) (x + of_nat k) = 0" using i(3) by (auto simp: seg_byte_def Let_def)
    moreover have "KERNEL_VIRTUAL_BASE + (x + of_nat k) = va + of_nat k" by (simp add: x_def)
    ultimately show ?thesis by simp
  qed
  from this [of 0] this [of 1] this [of 2] this [of 3] show ?thesis by (simp add: load32_def)
qed

lemma loader_enters_kernel:
  assumes elf: "elf_valid (phys e)" "\<forall>i < phnum (phys e). phdr_ok (phys e) (phdr (phys e) i)"
    "\<forall>j < phnum (phys e). \<forall>i < j. seg_range (phys e) (phdr (phys e) i) \<inter> seg_range (phys e) (phdr (phys e) j) = {}"
    and n: "unat (load32 (phys e) 0x6000) = n" "n \<le> 160" and lay: "entry_layout sy" "0xC0100000 \<le> boot_page_directory sy"
    and start: "load32 (phys e) 0x10018 = start_sym sy"
  obtains e2 where "start_kernel sy name e = Some e2"
    "en_eip e2 = kernel_main_sym sy" "load32 (mapped_memory e2 M) (en_esp e2 + 4) = MULTIBOOT_MAGIC"
    "load32 (mapped_memory e2 M) (en_esp e2 + 8) = 0x5000" "mbi_flags (mapped_memory e2 M) 0x5000 = 0x241"
    "mbi_mmap_addr (mapped_memory e2 M) 0x5000 = 0x5100" "mbi_mmap_length (mapped_memory e2 M) 0x5000 = 24 * of_nat n"
    "mmap_at (mapped_memory e2 M) 0x5100 (0x5100 + 24 * of_nat n) (map (e820_entry (phys e)) [0..<n])"
    "segments_visible (phys e) sy (mapped_memory e2 M)"
proof -
  obtain m where m: "pm_entry name e = Some (e\<lparr>phys := build_multiboot name m, en_eax := 0x2BADB002, en_ebx := 0x5000,
      en_eip := load32 (phys e) 0x10018\<rparr>)" (is "_ = Some ?e1")
    "unat (load32 m 0x6000) = n" "map (e820_entry m) [0..<n] = map (e820_entry (phys e)) [0..<n]"
    "\<And>i x. i < phnum (phys e) \<Longrightarrow> unat x \<in> seg_range (phys e) (phdr (phys e) i) \<Longrightarrow>
      0x100000 \<le> unat x \<and> build_multiboot name m x = seg_byte (phys e) (phdr (phys e) i) x"
    by (rule pm_entry_spec [OF elf n]) (rule that; assumption)
  define D where "D = boot_page_directory sy - 0xC0000000"
  have D: "0x100000 \<le> unat D" "unat D + 24576 \<le> 4194304"
    using entry_layout_phys(4) [OF lay(1)] lay by (simp_all add: D_def u32_le_iff u32_sub entry_layout_def)
  obtain e2 where b: "boot_asm sy ?e1 = Some e2" "en_eip e2 = kernel_main_sym sy"
    "\<And>va. page_walk e2 va = (if va < 0x400000 then Some va else if 0xC0000000 \<le> va \<and> va < 0xC0400000 then Some (va - 0xC0000000) else None)"
    "load32 (phys e2) (en_esp e2 - 0xC0000000 + 4) = 0x2BADB002" "load32 (phys e2) (en_esp e2 - 0xC0000000 + 8) = 0x5000"
    "\<And>x. in_range D 24576 x \<or> phys e2 x = build_multiboot name m x"
    using boot_asm_spec [OF lay(1), of ?e1, folded D_def] by (auto simp: Let_def)
  have low: "mapped_memory e2 M x = build_multiboot name m x" if "0x5000 \<le> unat x" "unat x < 0x6000" for x
    using b(3) [of x] b(6) [of x] that D in_range_iff [of D 24576 x] by (auto simp: mapped_memory_def u32_less_iff)
  note r = build_multiboot_read [OF m(2) n(2), of "mapped_memory e2 M", OF low, unfolded m(3)]
  have "mapped_memory e2 M (0xC0000000 + x) = phys e2 x" "mapped_memory e2 M x = phys e2 x" if "unat x < 0x400000" for x
    using mapped_byte_high [OF b(3) that] b(3) [of x] that by (simp_all add: mapped_memory_def u32_less_iff)
  then have seg: "segments_visible (phys e) sy (mapped_memory e2 M)"
    using b(6) m(4) unfolding segments_visible_def D_def by metis
  have "en_esp e2 = 0xC0000000 + (D + 24564)" using boot_asm_eq(1) [OF lay(1), of ?e1] entry_layout_phys(5) [OF lay(1)] b(1)
    by (auto simp: D_def)
  moreover have "unat (D + 24568) = unat D + 24568" "unat (D + 24572) = unat D + 24572" using D by (simp_all add: u32_add)
  ultimately have "load32 (mapped_memory e2 M) (en_esp e2 + 4) = MULTIBOOT_MAGIC" "load32 (mapped_memory e2 M) (en_esp e2 + 8) = 0x5000"
    using mapped_memory_high [OF b(3), of "D + 24568" M] mapped_memory_high [OF b(3), of "D + 24572" M] b(4,5) D(2)
    by (simp_all add: add.commute [of D])
  moreover have "start_kernel sy name e = Some e2" using m(1) b(1) start by (simp add: start_kernel_def)
  ultimately show thesis using that [OF _ b(2) _ _ r seg] by simp
qed

section \<open>Properties\<close>

text \<open>
  C5. The kernel boots. From the state a multiboot loader leaves, with a usable memory map of at least 1 MB
  that the frame manager can find and a serial port that answers, \<^verbatim>\<open>kernel_main\<close> runs through without fault. Afterwards the
  heap holds the stacks of two threads and one free block, the kernel's address space is current and its
  regions are device memory, image, window and heap, the kernel runs as process 0 with the two threads
  ready, the scheduler is on, and page faults, timer and keyboard have their handlers.
\<close>

theorem kernel_boots:
  assumes "kernel_image s" and "boot_map mbi s es" and "term_inv s" and "uart_live s"
    and "length (gdt s) = 3" and "length (idt s) = 256"
  shows "let s' = kernel_main MULTIBOOT_MAGIC mbi s in
      faults s' = faults s \<and> heap_inv s' \<and> heap_ok s' [(12288, False), (12288, False), (1023964, True)]
      \<and> current_space s' = kernel_space s \<and> (\<exists>ix. region_seq s' (kernel_space s) ix
           \<and> space_regions s' ix = kernel_regions (page_align_up (kernel_end_sym (sym s))))
      \<and> map state (process_table s') = PROCESS_RUNNING # PROCESS_READY # PROCESS_READY # replicate 61 PROCESS_UNUSED
      \<and> map pid (take 3 (process_table s')) = [0, 1, 2] \<and> current_process s' = Some 0 \<and> scheduler_enabled s'
      \<and> handlers s' = (handlers s)[33 := Some Keyboard_handler, 32 := Some Timer_handler, 14 := Some Page_fault_handler]"
proof -
  obtain t ix where b: "booted t 3 [(12288, False), (12288, False), (1023964, True)] (kernel_main MULTIBOOT_MAGIC mbi s)"
    and r: "scheduler_enabled (kernel_main MULTIBOOT_MAGIC mbi s)" "faults (kernel_main MULTIBOOT_MAGIC mbi s) = faults s"
      "region_seq (kernel_main MULTIBOOT_MAGIC mbi s) (kernel_space s) ix"
      "space_regions (kernel_main MULTIBOOT_MAGIC mbi s) ix = kernel_regions (page_align_up (kernel_end_sym (sym s)))"
      "current_space (kernel_main MULTIBOOT_MAGIC mbi s) = kernel_space s"
      "handlers (kernel_main MULTIBOOT_MAGIC mbi s) = (handlers s)[33 := Some Keyboard_handler, 32 := Some Timer_handler, 14 := Some Page_fault_handler]"
    by (rule kernel_main_booted [OF assms])
  show ?thesis using b r by (auto simp: Let_def booted_def heap_inv_def numeral_2_eq_2 upt_rec)
qed

theorem kernel_boots_witness:
  "kernel_image sample_loaded \<and> faults (kernel_main MULTIBOOT_MAGIC 0x10000 sample_loaded) = []
   \<and> current_process (kernel_main MULTIBOOT_MAGIC 0x10000 sample_loaded) = Some 0
   \<and> handlers (kernel_main MULTIBOOT_MAGIC 0x10000 sample_loaded) ! 32 = Some Timer_handler"
  using kernel_boots [OF sample_loaded_image(1) sample_loaded_map sample_loaded_fields(4) sample_loaded_image(2) sample_loaded_fields(5,6)]
    sample_loaded_image(1) by (simp add: Let_def)

text \<open>
  C6. The boot loader starts the kernel. Let the loader find a kernel file it can place, with the entry point at \<^verbatim>\<open>_start\<close> and at most
  160 entries in the map of the BIOS; let the kernel's page tables and stack lie where the linker puts them, and its
  zero-initialised counters in the part of a segment that the file does not provide. Then \<^verbatim>\<open>stage2.asm\<close> jumps to
  \<^verbatim>\<open>boot.asm\<close>, which calls \<^verbatim>\<open>kernel_main\<close>. Through the page tables the kernel sees every byte of the segments below 4 MB, as the file
  has them and zero where it ends, at its physical address and at 0xC0000000 above it, except in the tables and the
  stack of \<^verbatim>\<open>boot.asm\<close>. And \<^verbatim>\<open>kernel_main\<close>, with the arguments it finds on its stack, the memory it sees and the counters it finds
  there, brings the system up without fault, if the entries of the BIOS describe at least 1 MB that
  the frame manager can find and the serial port answers.
\<close>

theorem loader_boots_kernel:
  assumes "elf_valid (phys e)" and "\<forall>i < phnum (phys e). phdr_ok (phys e) (phdr (phys e) i)"
    and "\<forall>j < phnum (phys e). \<forall>i < j. seg_range (phys e) (phdr (phys e) i) \<inter> seg_range (phys e) (phdr (phys e) j) = {}"
    and "unat (load32 (phys e) 0x6000) = n" and "n \<le> 160" and "entry_layout sy" and "0xC0100000 \<le> boot_page_directory sy"
    and "load32 (phys e) 0x10018 = start_sym sy" and "statics_in_bss (phys e) sy st"
    and "kernel_layout s" and "usable_map (kernel_end_phys s) (map (e820_entry (phys e)) [0..<n])" and "term_inv s" and "uart_live s"
    and "length (gdt s) = 3" and "length (idt s) = 256"
  shows "\<exists>e2. start_kernel sy mboot_name e = Some e2 \<and> en_eip e2 = kernel_main_sym sy
    \<and> (let m = mapped_memory e2 (mem s);
            s' = kernel_main (load32 m (en_esp e2 + 4)) (load32 m (en_esp e2 + 8)) (load_statics st m s)
        in segments_visible (phys e) sy m \<and> faults s' = faults s \<and> heap_inv s'
           \<and> current_space s' = kernel_space s \<and> current_process s' = Some 0 \<and> scheduler_enabled s'
           \<and> handlers s' = (handlers s)[33 := Some Keyboard_handler, 32 := Some Timer_handler, 14 := Some Page_fault_handler])"
proof -
  obtain e2 where e: "start_kernel sy mboot_name e = Some e2"
    "en_eip e2 = kernel_main_sym sy" and arg: "load32 (mapped_memory e2 (mem s)) (en_esp e2 + 4) = MULTIBOOT_MAGIC"
    "load32 (mapped_memory e2 (mem s)) (en_esp e2 + 8) = 0x5000" and r: "mbi_flags (mapped_memory e2 (mem s)) 0x5000 = 0x241"
    "mbi_mmap_addr (mapped_memory e2 (mem s)) 0x5000 = 0x5100" "mbi_mmap_length (mapped_memory e2 (mem s)) 0x5000 = 24 * of_nat n"
    "mmap_at (mapped_memory e2 (mem s)) 0x5100 (0x5100 + 24 * of_nat n) (map (e820_entry (phys e)) [0..<n])"
    and seg: "segments_visible (phys e) sy (mapped_memory e2 (mem s))"
    by (rule loader_enters_kernel [OF assms(1-8)])
  define m where "m = mapped_memory e2 (mem s)"
  define t where "t = load_statics st m s"
  note zero = bss_zero [OF seg _ entry_layout_phys(4) [OF assms(6)], folded m_def]
  have img: "kernel_image t"
    unfolding t_def using assms(9) zero by (intro load_statics_image [OF assms(10)]) (simp_all add: statics_in_bss_def)
  have pre: "boot_map 0x5000 t (map (e820_entry (phys e)) [0..<n])" "term_inv t" "uart_live t" "length (gdt t) = 3" "length (idt t) = 256"
    using assms(11-15) r by (simp_all add: t_def load_statics_def m_def boot_map_def kernel_end_phys_def term_inv_def uart_live_def)
  have f: "faults t = faults s" "kernel_space t = kernel_space s" "handlers t = handlers s" by (simp_all add: t_def load_statics_def)
  obtain u ix where "booted u 3 [(12288, False), (12288, False), (1023964, True)] (kernel_main MULTIBOOT_MAGIC 0x5000 t)"
    "scheduler_enabled (kernel_main MULTIBOOT_MAGIC 0x5000 t)" "faults (kernel_main MULTIBOOT_MAGIC 0x5000 t) = faults t"
    "current_space (kernel_main MULTIBOOT_MAGIC 0x5000 t) = kernel_space t"
    "handlers (kernel_main MULTIBOOT_MAGIC 0x5000 t) = (handlers t)[33 := Some Keyboard_handler, 32 := Some Timer_handler, 14 := Some Page_fault_handler]"
    by (rule kernel_main_booted [OF img pre])
  then show ?thesis using e arg seg f unfolding Let_def m_def [symmetric] t_def [symmetric]
    by (intro exI [of _ e2]) (auto simp: booted_def heap_inv_def m_def [symmetric] t_def [symmetric])
qed

text \<open>A kernel file with the three segments of \<^verbatim>\<open>linker.ld\<close>: one page of boot code, five pages of code, and 25 pages of data that the
  file leaves to be zero; and the map of the BIOS of a machine with 128 MB.\<close>

definition file_words :: "(u32 \<times> u32) list" where
  "file_words =
     [(0x10000, 0x464C457F), (0x10004, 0x101), (0x10010, 0x30002), (0x10018, 0x100010), (0x1001C, 52), (0x10028, 0x200034), (0x1002C, 3),
      (0x10034, 1), (0x10038, 0x1000), (0x10040, 0x100000), (0x10044, 0x1000), (0x10048, 0x1000),
      (0x10054, 1), (0x10058, 0x2000), (0x10060, 0x101000), (0x10064, 0x5000), (0x10068, 0x5000),
      (0x10074, 1), (0x10078, 0x7000), (0x10080, 0x106000), (0x10084, 0), (0x10088, 0x19000),
      (0x6000, 2), (0x6004, 0), (0x6008, 0), (0x600C, 0x9FC00), (0x6010, 0), (0x6014, 1), (0x6018, 1),
      (0x601C, 0x100000), (0x6020, 0), (0x6024, 0x7F00000), (0x6028, 0), (0x602C, 1), (0x6030, 1)]"

definition sample_file :: memory where
  "sample_file = fold (\<lambda>(a, v) m. store32 m a v) file_words (\<lambda>_. 0xFF)"

definition sample_statics :: static_symbols where
  "sample_statics = \<lparr>total_frames_at = 0xC0110000, used_frames_at = 0xC0110004, total_allocated_at = 0xC0110040, region_pool_used_at = 0xC0111000\<rparr>"

lemma sample_file_words:
  "load32 sample_file 0x10000 = 0x464C457F" "load32 sample_file 0x10018 = 0x100010" "load32 sample_file 0x1001C = 52"
  "load32 sample_file 0x10034 = 1" "load32 sample_file 0x10038 = 0x1000" "load32 sample_file 0x10040 = 0x100000"
  "load32 sample_file 0x10044 = 0x1000" "load32 sample_file 0x10048 = 0x1000"
  "load32 sample_file 0x10054 = 1" "load32 sample_file 0x10058 = 0x2000" "load32 sample_file 0x10060 = 0x101000"
  "load32 sample_file 0x10064 = 0x5000" "load32 sample_file 0x10068 = 0x5000"
  "load32 sample_file 0x10074 = 1" "load32 sample_file 0x10078 = 0x7000" "load32 sample_file 0x10080 = 0x106000"
  "load32 sample_file 0x10084 = 0" "load32 sample_file 0x10088 = 0x19000" "load32 sample_file 0x6000 = 2"
  "load32 sample_file 0x6004 = 0" "load32 sample_file 0x600C = 0x9FC00" "load32 sample_file 0x6014 = 1"
  "load32 sample_file 0x601C = 0x100000" "load32 sample_file 0x6024 = 0x7F00000" "load32 sample_file 0x602C = 1"
  by (simp_all add: sample_file_def file_words_def load32_store32_sep sep4_def)

lemma sample_file_header: "elf_valid sample_file" "phnum sample_file = 3" "load16 sample_file 0x1002A = 32"
  by (simp_all add: elf_valid_def phnum_def sample_file_words(1) load16_def) (simp_all add: sample_file_def file_words_def store32_def)

lemma sample_file_phdrs: "phdr sample_file i = 0x10034 + of_nat i * 32"
  by (simp add: phdr_def sample_file_words sample_file_header)

lemma sample_file_segments:
  "\<forall>i < 3. phdr_ok sample_file (phdr sample_file i)"
  "\<forall>j < 3. \<forall>i < j. seg_range sample_file (phdr sample_file i) \<inter> seg_range sample_file (phdr sample_file j) = {}"
  by (auto simp: less_Suc_eq numeral_3_eq_3 sample_file_phdrs phdr_ok_def seg_range_def seg_size_def sample_file_words)

lemma sample_file_bss: "statics_in_bss sample_file sample_entry sample_statics"
proof -
  have "\<exists>i < phnum sample_file. phdr sample_file i = 0x10074" by (intro exI [of _ 2]) (simp add: sample_file_header sample_file_phdrs)
  then show ?thesis
    by (auto simp: statics_in_bss_def in_bss_def Let_def sample_statics_def sample_entry_def sample_file_words
      intro!: exI [of _ 2] simp: sample_file_header sample_file_phdrs)
qed

lemma sample_file_map:
  "map (e820_entry sample_file) [0..<2] = [\<lparr>entry_size = 20, entry_base = 0, entry_length = 0x9FC00, entry_type = 1\<rparr>,
     \<lparr>entry_size = 20, entry_base = 0x100000, entry_length = 0x7F00000, entry_type = 1\<rparr>]"
  by (simp add: e820_entry_def Let_def upt_rec sample_file_words)

lemma sample_file_usable: "usable_map (kernel_end_phys sample_loaded) (map (e820_entry sample_file) [0..<2])"
proof -
  let ?l = "\<lparr>entry_size = 20, entry_base = 0, entry_length = 0x9FC00, entry_type = 1\<rparr> :: mmap_entry"
  let ?h = "\<lparr>entry_size = 20, entry_base = 0x100000, entry_length = 0x7F00000, entry_type = 1\<rparr> :: mmap_entry"
  have ke: "kernel_end_phys sample_loaded = 0x11F000" by (simp add: kernel_end_phys_def sample_symbols_def page_align_up_eq)
  have U: "usable_frames 0x11F000 [?l, ?h] = {287..<32768}" by (auto simp: usable_frames_def released_def entry_frames_def)
  have "{f \<in> {287..<32768 :: nat}. f < 32480} = {287..<32480}" by auto
  then have "256 \<le> card {f \<in> usable_frames 0x11F000 [?l, ?h]. f < 8 * (card (usable_frames 0x11F000 [?l, ?h]) div 8)}" unfolding U by simp
  moreover have "entry_frames ?l \<inter> entry_frames ?h = {}" by (auto simp: entry_frames_def)
  ultimately show ?thesis unfolding sample_file_map by (simp add: usable_map_def ke entry_ok_def)
qed

lemma sample_loaded_layout: "kernel_layout (sample_loaded\<lparr>total_frames := 5, used_frames := 6, total_allocated := 7, region_pool_used := 8\<rparr>)"
  using sample_loaded_image(1) by (simp add: kernel_layout_def kernel_image_def tables_placed_def)

theorem loader_boots_kernel_witness:
  "\<exists>e2. start_kernel sample_entry 0x9000 \<lparr>phys = sample_file, en_eax = 0, en_ebx = 0, en_esi = 0, en_edi = 0, en_esp = 0x90000, en_eip = 0x7E00,
        en_cr0 = 0x11, en_cr3 = 0\<rparr> = Some e2
      \<and> (let m = mapped_memory e2 (mem sample_loaded);
              s' = kernel_main (load32 m (en_esp e2 + 4)) (load32 m (en_esp e2 + 8)) (load_statics sample_statics m (sample_loaded\<lparr>total_frames := 5,
                used_frames := 6, total_allocated := 7, region_pool_used := 8\<rparr>))
          in segments_visible sample_file sample_entry m \<and> faults s' = [] \<and> current_process s' = Some 0)"
proof -
  let ?e = "\<lparr>phys = sample_file, en_eax = 0, en_ebx = 0, en_esi = 0, en_edi = 0, en_esp = 0x90000, en_eip = 0x7E00, en_cr0 = 0x11, en_cr3 = 0\<rparr>"
  let ?s = "sample_loaded\<lparr>total_frames := 5, used_frames := 6, total_allocated := 7, region_pool_used := 8\<rparr>"
  have l: "entry_layout sample_entry" "0xC0100000 \<le> boot_page_directory sample_entry" "load32 (phys ?e) 0x10018 = start_sym sample_entry"
    by (simp_all add: entry_layout_def sample_entry_def sample_file_words)
  have k: "usable_map (kernel_end_phys ?s) (map (e820_entry (phys ?e)) [0..<2])" "term_inv ?s" "uart_live ?s" "length (gdt ?s) = 3" "length (idt ?s) = 256"
    using sample_file_usable sample_loaded_fields(4-6) sample_loaded_image(2) by (simp_all add: kernel_end_phys_def term_inv_def uart_live_def)
  have b: "statics_in_bss (phys ?e) sample_entry sample_statics" using sample_file_bss by simp
  show ?thesis
    using loader_boots_kernel [of ?e 2, OF _ _ _ _ _ l b sample_loaded_layout k, of "0x9000"] sample_file_segments
    by (auto simp: Let_def sample_file_words sample_file_header)
qed

text \<open>
  C7. In every run of a kernel started by a multiboot loader, whatever interrupts arrive in whatever order and
  whatever the memory map says, the process table keeps its 64 slots, there is a current process, no
  other process is running, the kernel's own process is never released, and different processes in use have
  different identifiers.
\<close>

theorem kernel_run_one_running:
  assumes "kernel_run s"
  shows "\<exists>c < 64. current_process s = Some c \<and> length (process_table s) = 64
    \<and> (\<forall>i < 64. state (process_table s ! i) = PROCESS_RUNNING \<longrightarrow> i = c)
    \<and> state (process_table s ! 0) \<noteq> PROCESS_UNUSED
    \<and> inj_on (\<lambda>i. pid (process_table s ! i)) {i. i < 64 \<and> state (process_table s ! i) \<noteq> PROCESS_UNUSED}"
proof -
  obtain c where c: "current_process s = Some c" "table_inv (unat (next_pid s)) (process_table s) c"
    using kernel_run_inv [OF assms] by (auto simp: proc_inv_def)
  have "\<forall>i < 64. state (process_table s ! i) = PROCESS_RUNNING \<longrightarrow> i = c" by (intro allI impI) (rule table_invD(4) [OF c(2)])
  then show ?thesis using table_invD(1,2,6,8) [OF c(2)] c(1) by (intro exI [of _ c]) blast
qed

theorem kernel_run_one_running_witness:
  "\<forall>frame. \<exists>c < 64. current_process (interrupt_handler run_handler frame (kernel_main MULTIBOOT_MAGIC 0x10000 sample_kbd)) = Some c"
  using kernel_run_one_running [OF run_interrupt [OF run_boot, of _ "0x10000" sample_kbd]] by blast

end
